(* ===== verification/Prelude.thy ===== *)
theory Prelude
  imports Main "HOL-Library.Word" "HOL-Library.Char_ord" "HOL-Library.List_Lexorder"
    "HOL-Library.Product_Lexorder" "HOL-Library.Sublist" "HOL-Library.Multiset"
begin

text \<open>
  Shared vocabulary of the development: the type names the model gives to Rust's primitive
  types, Rust's checked and saturating integer operations, the standard-library list and
  string operations that the components use (\<open>dedup_by\<close>, \<open>starts_with\<close>, \<open>split_once\<close>, ...),
  and the generic lemmas about them.

  A Rust \<open>str\<close> is modelled by its UTF-8 bytes: \<^typ>\<open>string\<close> is a list of \<^typ>\<open>char\<close>,
  and an Isabelle \<^typ>\<open>char\<close> is one byte.  \<open>len\<close> is then \<^const>\<open>length\<close>, \<open>cmp\<close> is the
  lexicographic order of \<open>List_Lexorder\<close> over \<open>Char_ord\<close>, and every character the modelled
  code looks for is ASCII, so that it is found at the same place among the bytes.
\<close>

section \<open>Types\<close>

type_synonym u8 = "8 word"
type_synonym u32 = "32 word"
type_synonym u64 = "64 word"
type_synonym i64 = "64 word"

type_synonym ('e, 'a) result = "'e + 'a"

abbreviation Ok :: "'a \<Rightarrow> ('e, 'a) result" where
  "Ok \<equiv> Inr"

abbreviation Err :: "'e \<Rightarrow> ('e, 'a) result" where
  "Err \<equiv> Inl"

named_theorems rust_arith "definitions of Rust's integer operations"
named_theorems map_laws "laws of the key-value maps of the model"

section \<open>Integer operations of Rust\<close>

text \<open>
  A value of type \<open>i64\<close> is a 64-bit word read through \<^const>\<open>sint\<close>, a value of type \<open>u64\<close> or
  \<open>u32\<close> one read through \<^const>\<open>unat\<close>.  \<open>as u64\<close> and \<open>as i64\<close> keep the word.
\<close>

definition i64_in_range :: "int \<Rightarrow> bool" where
  "i64_in_range n \<longleftrightarrow> - (2 ^ 63) \<le> n \<and> n < 2 ^ 63"

definition checked_i64 :: "int \<Rightarrow> i64 option" where
  "checked_i64 n = (if i64_in_range n then Some (word_of_int n) else None)"

definition checked_u64 :: "int \<Rightarrow> u64 option" where
  "checked_u64 n = (if 0 \<le> n \<and> n < 2 ^ 64 then Some (word_of_int n) else None)"

definition i64_checked_add :: "i64 \<Rightarrow> i64 \<Rightarrow> i64 option" where
  "i64_checked_add a b = checked_i64 (sint a + sint b)"

definition i64_checked_sub :: "i64 \<Rightarrow> i64 \<Rightarrow> i64 option" where
  "i64_checked_sub a b = checked_i64 (sint a - sint b)"

definition i64_checked_neg :: "i64 \<Rightarrow> i64 option" where
  "i64_checked_neg a = checked_i64 (- sint a)"

definition u64_checked_add :: "u64 \<Rightarrow> u64 \<Rightarrow> u64 option" where
  "u64_checked_add a b = checked_u64 (uint a + uint b)"

definition u64_checked_sub :: "u64 \<Rightarrow> u64 \<Rightarrow> u64 option" where
  "u64_checked_sub a b = checked_u64 (uint a - uint b)"

definition unsigned_abs :: "i64 \<Rightarrow> u64" where
  "unsigned_abs a = word_of_int \<bar>sint a\<bar>"

definition saturating_mul :: "u64 \<Rightarrow> u64 \<Rightarrow> u64" where
  "saturating_mul a b = (if unat a * unat b < 2 ^ 64 then a * b else - 1)"

definition saturating_pow :: "u64 \<Rightarrow> nat \<Rightarrow> u64" where
  "saturating_pow a n = (if unat a ^ n < 2 ^ 64 then a ^ n else - 1)"

definition saturating_sub32 :: "u32 \<Rightarrow> u32 \<Rightarrow> u32" where
  "saturating_sub32 a b = (if b \<le> a then a - b else 0)"

lemmas checked_defs [rust_arith] =
  checked_i64_def checked_u64_def i64_checked_add_def i64_checked_sub_def i64_checked_neg_def
  u64_checked_add_def u64_checked_sub_def i64_in_range_def

lemma sint_i64_range: "- (2 ^ 63) \<le> sint (a :: i64) \<and> sint a < 2 ^ 63"
  using sint_ge [of a] sint_less [of a] by simp

lemma sint_word_of_int_i64 [simp]:
  "- (2 ^ 63) \<le> n \<Longrightarrow> n < 2 ^ 63 \<Longrightarrow> sint (word_of_int n :: i64) = n"
  by (simp add: sint_sbintrunc' signed_take_bit_int_eq_self)

lemma uint_word_of_int_u64 [simp]:
  "0 \<le> n \<Longrightarrow> n < 2 ^ 64 \<Longrightarrow> uint (word_of_int n :: u64) = n"
  by (simp add: uint_word_of_int)

lemma checked_i64_SomeD: "checked_i64 n = Some w \<Longrightarrow> sint w = n"
  by (auto simp: checked_i64_def i64_in_range_def split: if_splits)

lemma checked_i64_None: "checked_i64 n = None \<longleftrightarrow> \<not> i64_in_range n"
  by (simp add: checked_i64_def)

lemma checked_u64_SomeD: "checked_u64 n = Some w \<Longrightarrow> uint w = n"
  by (auto simp: checked_u64_def split: if_splits)

lemma unat_minus_one_u64: "unat (- 1 :: u64) = 2 ^ 64 - 1"
  by (simp add: unsigned_minus_1_eq_mask mask_eq_exp_minus_1)

lemma unat_saturating_mul: "unat (saturating_mul a b) = min (unat a * unat b) (2 ^ 64 - 1)"
proof (cases "unat a * unat b < 2 ^ 64")
  case True
  then have "unat (a * b) = unat a * unat b"
    by (simp add: unat_word_ariths)
  with True show ?thesis by (simp add: saturating_mul_def)
next
  case False
  then show ?thesis by (simp add: saturating_mul_def unat_minus_one_u64)
qed

lemma unat_power_less: "unat a ^ n < 2 ^ 64 \<Longrightarrow> unat ((a :: u64) ^ n) = unat a ^ n"
  using unat_of_nat [where 'a = 64, of "unat a ^ n"] by simp

lemma unat_saturating_pow: "unat (saturating_pow a n) = min (unat a ^ n) (2 ^ 64 - 1)"
  by (auto simp: saturating_pow_def unat_power_less unat_minus_one_u64)

section \<open>List and string operations of the standard library\<close>

text \<open>\<open>Vec::dedup_by(same)\<close>: drop every element that \<open>same\<close> relates to the last one kept.\<close>

fun dedup_by :: "('a \<Rightarrow> 'a \<Rightarrow> bool) \<Rightarrow> 'a list \<Rightarrow> 'a list" where
  "dedup_by same [] = []"
| "dedup_by same [x] = [x]"
| "dedup_by same (x # y # zs) =
     (if same y x then dedup_by same (x # zs) else x # dedup_by same (y # zs))"

lemma set_dedup_by: "set (dedup_by same xs) \<subseteq> set xs"
  by (induction same xs rule: dedup_by.induct) auto

lemma length_dedup_by: "length (dedup_by same xs) \<le> length xs"
  by (induction same xs rule: dedup_by.induct) auto

lemma dedup_by_eq_Nil [simp]: "dedup_by same xs = [] \<longleftrightarrow> xs = []"
  by (induction same xs rule: dedup_by.induct) auto

text \<open>Every element dropped is represented by one that is kept and that \<open>same\<close> relates to it.\<close>

lemma dedup_by_represents:
  "x \<in> set xs \<Longrightarrow> \<exists>y \<in> set (dedup_by same xs). y = x \<or> same x y"
proof (induction same xs rule: dedup_by.induct)
  case (3 same x y zs)
  then show ?case
  proof (cases "same y x")
    case True
    have "\<exists>z \<in> set (dedup_by same (x # zs)). z = x"
      by (induction zs arbitrary: x) (auto split: if_splits)
    with 3 True show ?thesis by auto
  next
    case False
    with 3 show ?thesis by auto
  qed
qed auto

lemma sum_list_dedup_by_le:
  fixes f :: "'a \<Rightarrow> nat"
  shows "sum_list (map f (dedup_by same xs)) \<le> sum_list (map f xs)"
  by (induction same xs rule: dedup_by.induct) auto

text \<open>
  Sorting by a key and dropping adjacent elements with the same key leaves a list that is
  strictly increasing in the key, on which sorting and dropping again change nothing.
\<close>

lemma dedup_by_sorted:
  assumes "sorted (map f xs)"
  shows "sorted_wrt (<) (map f (dedup_by (\<lambda>a b. f a = f b) xs))"
  using assms
proof (induction "\<lambda>a b. f a = f b" xs rule: dedup_by.induct)
  case (3 x y zs)
  have sub: "set (dedup_by (\<lambda>a b. f a = f b) (y # zs)) \<subseteq> set (y # zs)"
    by (rule set_dedup_by)
  show ?case
  proof (cases "f y = f x")
    case True
    with 3 show ?thesis by simp
  next
    case False
    with 3 have "\<forall>z \<in> set (y # zs). f x < f z" by fastforce
    with sub 3 False show ?thesis by auto
  qed
qed simp_all

lemma dedup_by_strict:
  fixes f :: "'a \<Rightarrow> 'b::linorder"
  shows "sorted_wrt (<) (map f xs) \<Longrightarrow> dedup_by (\<lambda>a b. f a = f b) xs = xs"
  by (induction "\<lambda>a b. f a = f b" xs rule: dedup_by.induct) auto

lemma sort_key_strict:
  fixes f :: "'a \<Rightarrow> 'b::linorder"
  shows "sorted_wrt (<) (map f xs) \<Longrightarrow> sort_key f xs = xs"
  by (simp add: sorted_sort_id sort_key_id_if_sorted strict_sorted_imp_sorted)

lemma sort_key_eq_Nil [simp]: "sort_key f xs = [] \<longleftrightarrow> xs = []"
  by (metis length_0_conv length_sort)

lemma sum_list_sort_key:
  fixes f :: "'a \<Rightarrow> nat"
  shows "sum_list (map f (sort_key g xs)) = sum_list (map f xs)"
proof -
  have "mset (map f (sort_key g xs)) = mset (map f xs)" by simp
  then show ?thesis by (metis sum_mset_sum_list)
qed

text \<open>\<open>str::strip_prefix\<close>.\<close>

definition strip_prefix :: "string \<Rightarrow> string \<Rightarrow> string option" where
  "strip_prefix pre s = (if prefix pre s then Some (drop (length pre) s) else None)"

lemma strip_prefix_append [simp]: "strip_prefix pre (pre @ s) = Some s"
  by (simp add: strip_prefix_def)

lemma strip_prefix_length: "strip_prefix pre s = Some t \<Longrightarrow> s = pre @ t"
  by (auto simp: strip_prefix_def prefix_def split: if_splits)

section \<open>Invariants of step relations\<close>

text \<open>
  The contract of an invariant: it holds at the start and every step keeps it; then it holds
  in every state that can be reached.
\<close>

locale step_invariant =
  fixes start :: "'s \<Rightarrow> bool" and step :: "'s \<Rightarrow> 's \<Rightarrow> bool" and inv :: "'s \<Rightarrow> bool"
  assumes inv_start: "start s \<Longrightarrow> inv s"
    and inv_step: "inv s \<Longrightarrow> step s s' \<Longrightarrow> inv s'"
begin

lemma inv_reachable:
  assumes "start s" and "step\<^sup>*\<^sup>* s s'"
  shows "inv s'"
  using assms(2)
proof (induction rule: rtranclp_induct)
  case base
  show ?case using assms(1) by (rule inv_start)
next
  case (step y z)
  then show ?case using inv_step by blast
qed

end

end
