(* ===== verification/Json.thy ===== *)
theory Json
  imports Prelude
begin

text \<open>
  The JSON values of \<open>serde_json\<close> as the components use them: \<open>Value\<close>, \<open>Number\<close> and
  \<open>Map\<close>, with the operations of the crate's documented interface that the source calls.
  The workspace builds \<open>serde_json\<close> without \<open>preserve_order\<close> and \<open>arbitrary_precision\<close>
  (\<open>Cargo.toml\<close>, \<open>Cargo.lock\<close>), so a \<open>Number\<close> is a \<open>u64\<close>, a negative \<open>i64\<close> or a finite
  \<open>f64\<close>, and a \<open>Map\<close> is a B-tree whose entries are in the byte order of their keys.

  The first section models \<open>f64\<close>: a binary64 value is its bit pattern, conversions and
  sums round to nearest, ties to even, and comparison is that of the values denoted.
\<close>

section \<open>Binary64 numbers\<close>

type_synonym f64 = "64 word"

definition f64_negative :: "f64 \<Rightarrow> bool" where
  "f64_negative b \<longleftrightarrow> 2 ^ 63 \<le> unat b"

definition f64_exponent :: "f64 \<Rightarrow> nat" where
  "f64_exponent b = unat b div 2 ^ 52 mod 2 ^ 11"

definition f64_fraction :: "f64 \<Rightarrow> nat" where
  "f64_fraction b = unat b mod 2 ^ 52"

definition f64_is_nan :: "f64 \<Rightarrow> bool" where
  "f64_is_nan b \<longleftrightarrow> f64_exponent b = 2047 \<and> f64_fraction b \<noteq> 0"

definition f64_is_finite :: "f64 \<Rightarrow> bool" where
  "f64_is_finite b \<longleftrightarrow> f64_exponent b \<noteq> 2047"

text \<open>
  The magnitude of a value in units of the least positive subnormal, \<open>2 ^ -1074\<close>.  An
  infinity reads as a magnitude above every finite one, so comparing scaled values
  compares all values that are not NaN.
\<close>

definition f64_magnitude :: "f64 \<Rightarrow> nat" where
  "f64_magnitude b =
     (if f64_exponent b = 0 then f64_fraction b
      else (2 ^ 52 + f64_fraction b) * 2 ^ (f64_exponent b - 1))"

definition f64_scaled :: "f64 \<Rightarrow> int" where
  "f64_scaled b = (if f64_negative b then - int (f64_magnitude b) else int (f64_magnitude b))"

datatype ordering = Less | Equal | Greater

definition int_cmp :: "int \<Rightarrow> int \<Rightarrow> ordering" where
  "int_cmp a b = (if a < b then Less else if a = b then Equal else Greater)"

definition f64_partial_cmp :: "f64 \<Rightarrow> f64 \<Rightarrow> ordering option" where
  "f64_partial_cmp a b =
     (if f64_is_nan a \<or> f64_is_nan b then None else Some (int_cmp (f64_scaled a) (f64_scaled b)))"

definition f64_eq :: "f64 \<Rightarrow> f64 \<Rightarrow> bool" where
  "f64_eq a b \<longleftrightarrow> \<not> f64_is_nan a \<and> \<not> f64_is_nan b \<and> f64_scaled a = f64_scaled b"

text \<open>Rounding a magnitude: \<open>k\<close> low bits are dropped, to nearest, ties to even.\<close>

fun bit_length :: "nat \<Rightarrow> nat" where
  "bit_length n = (if n = 0 then 0 else Suc (bit_length (n div 2)))"

declare bit_length.simps [simp del]

definition round_half_even :: "nat \<Rightarrow> nat \<Rightarrow> nat" where
  "round_half_even n k =
     (let q = n div 2 ^ k; r = n mod 2 ^ k
      in if 2 * r < 2 ^ k then q else if 2 ^ k < 2 * r then Suc q
         else if k = 0 \<or> even q then q else Suc q)"

definition f64_of_bits :: "bool \<Rightarrow> nat \<Rightarrow> f64" where
  "f64_of_bits neg m = of_nat ((if neg then 2 ^ 63 else 0) + min m (2047 * 2 ^ 52))"

definition f64_round :: "bool \<Rightarrow> nat \<Rightarrow> f64" where
  "f64_round neg q =
     (let k = bit_length q - 53 in f64_of_bits neg (k * 2 ^ 52 + round_half_even q k))"

definition f64_of_int :: "int \<Rightarrow> f64" where
  "f64_of_int n =
     (let m = nat \<bar>n\<bar>; l = bit_length m
      in if m = 0 then 0
         else f64_of_bits (n < 0)
                ((l + 1021) * 2 ^ 52 +
                 (if l \<le> 53 then m * 2 ^ (53 - l) else round_half_even m (l - 53))))"

text \<open>An exact zero sum is \<open>-0.0\<close> only when both operands are.\<close>

definition f64_add :: "f64 \<Rightarrow> f64 \<Rightarrow> f64" where
  "f64_add a b =
     (let s = f64_scaled a + f64_scaled b
      in f64_round (if s = 0 then f64_negative a \<and> f64_negative b else s < 0) (nat \<bar>s\<bar>))"

definition f64_neg :: "f64 \<Rightarrow> f64" where
  "f64_neg b = b + 2 ^ 63"

definition f64_sub :: "f64 \<Rightarrow> f64 \<Rightarrow> f64" where
  "f64_sub a b = f64_add a (f64_neg b)"

section \<open>Numbers, values and maps\<close>

datatype number = PosInt u64 | NegInt i64 | Float f64

datatype json =
    Null
  | Bool bool
  | Number number
  | String string
  | Array "json list"
  | Object "(string \<times> json) list"

type_synonym object = "(string \<times> json) list"

subsection \<open>\<open>Number\<close>\<close>

fun number_as_u64 :: "number \<Rightarrow> u64 option" where
  "number_as_u64 (PosInt n) = Some n"
| "number_as_u64 _ = None"

fun number_as_i64 :: "number \<Rightarrow> i64 option" where
  "number_as_i64 (PosInt n) = (if unat n < 2 ^ 63 then Some n else None)"
| "number_as_i64 (NegInt n) = Some n"
| "number_as_i64 (Float _) = None"

fun as_f64 :: "number \<Rightarrow> f64" where
  "as_f64 (PosInt n) = f64_of_int (uint n)"
| "as_f64 (NegInt n) = f64_of_int (sint n)"
| "as_f64 (Float f) = f"

definition number_of_i64 :: "i64 \<Rightarrow> number" where
  "number_of_i64 n = (if sint n < 0 then NegInt n else PosInt n)"

definition number_of_u64 :: "u64 \<Rightarrow> number" where
  "number_of_u64 n = PosInt n"

definition number_from_f64 :: "f64 \<Rightarrow> number option" where
  "number_from_f64 f = (if f64_is_finite f then Some (Float f) else None)"

text \<open>What the constructors of the crate guarantee of every \<open>Number\<close>.\<close>

fun number_wf :: "number \<Rightarrow> bool" where
  "number_wf (PosInt _) = True"
| "number_wf (NegInt n) = (sint n < 0)"
| "number_wf (Float f) = f64_is_finite f"

subsection \<open>\<open>Map\<close>\<close>

fun map_insert :: "'k::linorder \<Rightarrow> 'v \<Rightarrow> ('k \<times> 'v) list \<Rightarrow> ('k \<times> 'v) list" where
  "map_insert k v [] = [(k, v)]"
| "map_insert k v (e # m) =
     (if fst e < k then e # map_insert k v m
      else if fst e = k then (k, v) # m
      else (k, v) # e # m)"

definition map_remove :: "'k \<Rightarrow> ('k \<times> 'v) list \<Rightarrow> ('k \<times> 'v) list" where
  "map_remove k m = filter (\<lambda>e. fst e \<noteq> k) m"

abbreviation map_keys :: "('k \<times> 'v) list \<Rightarrow> 'k list" where
  "map_keys m \<equiv> map fst m"

definition map_sorted :: "('k::linorder \<times> 'v) list \<Rightarrow> bool" where
  "map_sorted m \<longleftrightarrow> sorted_wrt (<) (map_keys m)"

subsection \<open>\<open>Value\<close>\<close>

fun as_str :: "json \<Rightarrow> string option" where
  "as_str (String s) = Some s"
| "as_str _ = None"

fun as_u64 :: "json \<Rightarrow> u64 option" where
  "as_u64 (Number n) = number_as_u64 n"
| "as_u64 _ = None"

fun as_i64 :: "json \<Rightarrow> i64 option" where
  "as_i64 (Number n) = number_as_i64 n"
| "as_i64 _ = None"

fun json_get :: "json \<Rightarrow> string \<Rightarrow> json option" where
  "json_get (Object m) k = map_of m k"
| "json_get _ k = None"

fun is_object :: "json \<Rightarrow> bool" where
  "is_object (Object _) = True"
| "is_object _ = False"

fun is_container :: "json \<Rightarrow> bool" where
  "is_container (Array _) = True"
| "is_container (Object _) = True"
| "is_container _ = False"

lemma size_array_member [termination_simp]: "v \<in> set vs \<Longrightarrow> size v < Suc (size_list size vs)"
  by (induction vs) auto

lemma size_object_member [termination_simp]:
  "(k, v) \<in> set m \<Longrightarrow> size v < Suc (size_list (size_prod (\<lambda>_. 0) size) m)"
  by (induction m) auto

text \<open>The values that can occur: every number and every map is well formed, at every depth.\<close>

fun json_wf :: "json \<Rightarrow> bool" where
  "json_wf (Number n) = number_wf n"
| "json_wf (Array vs) = list_all json_wf vs"
| "json_wf (Object m) = (map_sorted m \<and> list_all (\<lambda>e. json_wf (snd e)) m)"
| "json_wf _ = True"

section \<open>Laws of maps\<close>

text \<open>
  The interface of a key-value map that the components rely on, whatever order the map
  keeps its entries in.  It is interpreted below on the B-tree maps of \<open>serde_json\<close>, and in
  \<open>Kv_Store\<close> on the insertion-ordered maps of \<open>indexmap\<close>.
\<close>

locale key_map =
  fixes get :: "'m \<Rightarrow> 'k \<Rightarrow> 'v option"
    and insert :: "'k \<Rightarrow> 'v \<Rightarrow> 'm \<Rightarrow> 'm"
    and remove :: "'k \<Rightarrow> 'm \<Rightarrow> 'm"
    and wf :: "'m \<Rightarrow> bool"
  assumes get_insert: "wf m \<Longrightarrow> get (insert k v m) = (get m)(k \<mapsto> v)"
    and get_remove: "wf m \<Longrightarrow> get (remove k m) = (get m)(k := None)"
    and wf_insert: "wf m \<Longrightarrow> wf (insert k v m)"
    and wf_remove: "wf m \<Longrightarrow> wf (remove k m)"
begin

lemma wf_insert_all: "wf m \<Longrightarrow> wf (fold (\<lambda>(k, v). insert k v) es m)"
  by (induction es arbitrary: m) (auto simp: wf_insert)

text \<open>Inserting a list of entries overlays it on the map, later entries winning.\<close>

lemma get_insert_all:
  "wf m \<Longrightarrow> get (fold (\<lambda>(k, v). insert k v) es m) = get m ++ map_of (rev es)"
proof (induction es arbitrary: m)
  case (Cons e es)
  then show ?case
    by (cases e) (auto simp: wf_insert get_insert map_add_def fun_eq_iff split: option.split)
qed simp

lemma get_remove_insert: "wf m \<Longrightarrow> get (remove k (insert k v m)) = (get m)(k := None)"
  by (simp add: get_remove get_insert wf_insert)

end

lemma map_sorted_Nil [simp, map_laws]: "map_sorted []"
  by (simp add: map_sorted_def)

lemma map_sorted_Cons [map_laws]:
  "map_sorted (e # m) \<longleftrightarrow> (\<forall>k \<in> fst ` set m. fst e < k) \<and> map_sorted m"
  by (auto simp: map_sorted_def)

lemma map_sorted_distinct: "map_sorted m \<Longrightarrow> distinct (map_keys m)"
  by (auto simp: map_sorted_def strict_sorted_iff)

lemma map_keys_insert: "fst ` set (map_insert k v m) = insert k (fst ` set m)"
  by (induction k v m rule: map_insert.induct) force+

lemma map_sorted_insert [map_laws]: "map_sorted m \<Longrightarrow> map_sorted (map_insert k v m)"
  by (induction k v m rule: map_insert.induct)
    (auto simp: map_sorted_Cons map_keys_insert)

lemma map_of_insert [map_laws]:
  "map_sorted m \<Longrightarrow> map_of (map_insert k v m) = (map_of m)(k \<mapsto> v)"
proof (induction k v m rule: map_insert.induct)
  case (2 k v e m)
  then show ?case by (cases e) (auto simp: map_sorted_Cons fun_eq_iff)
qed simp

lemma map_sorted_filter: "map_sorted m \<Longrightarrow> map_sorted (filter P m)"
  by (induction m) (auto simp: map_sorted_Cons)

lemma map_sorted_remove [map_laws]: "map_sorted m \<Longrightarrow> map_sorted (map_remove k m)"
  by (simp add: map_remove_def map_sorted_filter)

lemma map_of_remove [map_laws]: "map_of (map_remove k m) = (map_of m)(k := None)"
  by (induction m) (auto simp: map_remove_def fun_eq_iff)

interpretation jmap: key_map map_of map_insert map_remove map_sorted
  by unfold_locales (simp_all add: map_laws)

lemma map_of_sorted_eq:
  assumes "map_sorted m" and "map_sorted m'" and "map_of m = map_of m'"
  shows "m = m'"
proof -
  have d: "distinct (map_keys m)" "distinct (map_keys m')"
    using assms map_sorted_distinct by blast+
  have "(k, v) \<in> set m \<longleftrightarrow> (k, v) \<in> set m'" for k v
    using map_of_eq_Some_iff [of m k v] map_of_eq_Some_iff [of m' k v] d assms(3) by simp
  then have eq: "set m = set m'" by auto
  show ?thesis
    by (rule map_sorted_distinct_set_unique [of fst])
      (use assms d eq in \<open>auto simp: map_sorted_def strict_sorted_iff distinct_map\<close>)
qed

lemma map_of_rev_sorted: "map_sorted m \<Longrightarrow> map_of (rev m) = map_of m"
  using map_of_inject_set [of "rev m" m] map_sorted_distinct [of m] by (simp add: rev_map [symmetric])

lemma map_of_mem_iff:
  "map_sorted m \<Longrightarrow> map_of m k = Some v \<longleftrightarrow> (k, v) \<in> set m"
  by (simp add: map_sorted_distinct)

section \<open>Rounding\<close>

lemma bit_length_0 [simp]: "bit_length 0 = 0"
  by (simp add: bit_length.simps)

lemma bit_length_bounds: "0 < n \<Longrightarrow> 2 ^ (bit_length n - 1) \<le> n \<and> n < 2 ^ bit_length n"
proof (induction n rule: bit_length.induct)
  case (1 n)
  show ?case
  proof (cases "n = 1")
    case True
    then show ?thesis by (simp add: bit_length.simps)
  next
    case False
    with 1 have IH: "2 ^ (bit_length (n div 2) - 1) \<le> n div 2 \<and> n div 2 < 2 ^ bit_length (n div 2)"
      by (cases "n = 0") auto
    define l where "l = bit_length (n div 2)"
    have l: "l \<noteq> 0" "bit_length n = Suc l"
      using False 1 by (auto simp: l_def bit_length.simps [of n] bit_length.simps [of "n div 2"])
    then obtain j where j: "l = Suc j" by (cases l) auto
    from IH have "2 ^ j \<le> n div 2" "n div 2 < 2 ^ Suc j" by (simp_all add: l_def [symmetric] j)
    then have "2 ^ Suc j \<le> n" "n < 2 ^ Suc (Suc j)" by auto
    then show ?thesis by (simp add: l j)
  qed
qed

lemma bit_length_le: "n < 2 ^ k \<Longrightarrow> bit_length n \<le> k"
proof (cases "n = 0")
  case False
  assume "n < 2 ^ k"
  with False bit_length_bounds [of n] have "(2::nat) ^ (bit_length n - 1) < 2 ^ k"
    by (meson bot_nat_0.not_eq_extremum le_less_trans)
  then show ?thesis by simp
qed simp

lemma round_half_even_bounds: "n div 2 ^ k \<le> round_half_even n k \<and> round_half_even n k \<le> Suc (n div 2 ^ k)"
  by (simp add: round_half_even_def Let_def)

lemma f64_of_bits_parts:
  assumes "m < 2047 * 2 ^ 52"
  shows "unat (f64_of_bits neg m) = (if neg then 2 ^ 63 else 0) + m"
    and "f64_negative (f64_of_bits neg m) = neg"
    and "f64_exponent (f64_of_bits neg m) = m div 2 ^ 52"
    and "f64_fraction (f64_of_bits neg m) = m mod 2 ^ 52"
proof -
  show u: "unat (f64_of_bits neg m) = (if neg then 2 ^ 63 else 0) + m"
  proof -
    have *: "unat (of_nat x :: f64) = x" if "x < 2 ^ 64" for x
      using that by (simp add: unat_of_nat)
    have "min m (2047 * 2 ^ 52) = m"
      using assms by simp
    moreover have "(if neg then 2 ^ 63 else 0) + m < 2 ^ 64"
      using assms by simp
    ultimately show ?thesis
      unfolding f64_of_bits_def by (simp only: *)
  qed
  show "f64_negative (f64_of_bits neg m) = neg"
    using assms by (simp add: f64_negative_def u)
  have p: "(2 :: nat) ^ 63 = 2 ^ 11 * 2 ^ 52" by simp
  have *: "(2 ^ 63 + m) div 2 ^ 52 = 2 ^ 11 + m div 2 ^ 52" "(2 ^ 63 + m) mod 2 ^ 52 = m mod 2 ^ 52"
    unfolding p by (rule div_mult_self3, simp) (rule mod_mult_self3)
  have "m div 2 ^ 52 < 2 ^ 11"
    using assms by simp
  then show "f64_exponent (f64_of_bits neg m) = m div 2 ^ 52"
    using * by (simp add: f64_exponent_def u)
  show "f64_fraction (f64_of_bits neg m) = m mod 2 ^ 52"
    using * by (simp add: f64_fraction_def u)
qed

text \<open>
  The bits that \<^const>\<open>f64_of_int\<close> computes for a non-zero integer of at most 64 bits stay
  below those of infinity.
\<close>

lemma f64_of_int_bits:
  fixes m :: nat
  defines "l \<equiv> bit_length m"
  assumes "0 < m" and "m < 2 ^ 64"
  defines "f \<equiv> if l \<le> 53 then m * 2 ^ (53 - l) else round_half_even m (l - 53)"
  shows "2 ^ 52 \<le> f" and "f \<le> 2 ^ 53" and "l \<le> 53 \<Longrightarrow> f < 2 ^ 53"
    and "(l + 1021) * 2 ^ 52 + f < 2047 * 2 ^ 52"
proof -
  have l: "0 < l" "l \<le> 64" "2 ^ (l - 1) \<le> m" "m < 2 ^ l"
    using assms bit_length_bounds [of m] bit_length_le [of m 64]
    by (auto simp: bit_length.simps [of m])
  have small: "2 ^ 52 \<le> f \<and> f < 2 ^ 53" if "l \<le> 53"
  proof -
    have "(2 :: nat) ^ 52 = 2 ^ (l - 1) * 2 ^ (53 - l)" "(2 :: nat) ^ 53 = 2 ^ l * 2 ^ (53 - l)"
      using that l(1) by (simp_all flip: power_add)
    moreover have "2 ^ (l - 1) * 2 ^ (53 - l) \<le> m * 2 ^ (53 - l)" "m * 2 ^ (53 - l) < 2 ^ l * 2 ^ (53 - l)"
      using l by (simp_all add: mult_le_mono1)
    ultimately show ?thesis
      using that unfolding f_def by (simp only: if_True)
  qed
  have large: "2 ^ 52 \<le> f \<and> f \<le> 2 ^ 53" if "\<not> l \<le> 53"
  proof -
    define k where "k = l - 53"
    have "l - 1 = 52 + k" "l = 53 + k"
      using that by (simp_all add: k_def)
    then have "(2 :: nat) ^ (l - 1) = 2 ^ 52 * 2 ^ k" "(2 :: nat) ^ l = 2 ^ 53 * 2 ^ k"
      by (simp_all only: power_add)
    with l have "2 ^ 52 \<le> m div 2 ^ k" "m div 2 ^ k < 2 ^ 53"
      by (simp_all only: less_mult_imp_div_less less_eq_div_iff_mult_less_eq zero_less_power zero_less_numeral)
    then show ?thesis
      using round_half_even_bounds [of m k] that by (simp add: f_def k_def)
  qed
  show "2 ^ 52 \<le> f" "f \<le> 2 ^ 53" "l \<le> 53 \<Longrightarrow> f < 2 ^ 53"
    using small large by (cases "l \<le> 53"; simp)+
  then show "(l + 1021) * 2 ^ 52 + f < 2047 * 2 ^ 52"
    using l(2) by simp
qed

text \<open>Integers up to \<open>2 ^ 53\<close> in magnitude are represented exactly.\<close>

lemma bit_length_pow2_53: "bit_length (2 ^ 53) = 54"
  by (simp add: bit_length.simps)

lemma f64_magnitude_of_bits:
  assumes "2 ^ 52 \<le> f" and "f < 2 ^ 53" and "k < 2045"
  shows "f64_magnitude (f64_of_bits neg (k * 2 ^ 52 + f)) = f * 2 ^ k"
proof -
  define g where "g = f - 2 ^ 52"
  have f: "k * 2 ^ 52 + f = Suc k * 2 ^ 52 + g" "g < 2 ^ 52"
    using assms by (auto simp: g_def)
  have b: "Suc k * 2 ^ 52 + g < 2047 * 2 ^ 52"
    using f assms(3) by simp
  have "(Suc k * 2 ^ 52 + g) div 2 ^ 52 = Suc k" "(Suc k * 2 ^ 52 + g) mod 2 ^ 52 = g"
    using f(2) by (simp_all only: div_mult_self3 mod_mult_self3 div_less mod_less power_not_zero) simp_all
  then have "f64_exponent (f64_of_bits neg (Suc k * 2 ^ 52 + g)) = Suc k"
    "f64_fraction (f64_of_bits neg (Suc k * 2 ^ 52 + g)) = g"
    by (simp_all only: f64_of_bits_parts [OF b])
  moreover have "2 ^ 52 + g = f"
    using assms(1) by (simp add: g_def)
  ultimately show ?thesis
    unfolding f(1) f64_magnitude_def by (simp only: nat.distinct if_False diff_Suc_1)
qed

lemma f64_of_bits_finite: "m < 2047 * 2 ^ 52 \<Longrightarrow> f64_is_finite (f64_of_bits neg m)"
  using less_mult_imp_div_less [of m 2047 "2 ^ 52"]
  by (simp add: f64_is_finite_def f64_of_bits_parts)

lemma f64_scaled_of_int:
  assumes "\<bar>n\<bar> \<le> 2 ^ 53"
  shows "f64_scaled (f64_of_int n) = n * 2 ^ 1074"
proof (cases "n = 0")
  case True
  then show ?thesis
    by (simp add: f64_of_int_def f64_scaled_def f64_magnitude_def f64_exponent_def f64_fraction_def)
next
  case False
  define m l where "m = nat \<bar>n\<bar>" and "l = bit_length m"
  define f where "f = (if l \<le> 53 then m * 2 ^ (53 - l) else round_half_even m (l - 53))"
  have m: "0 < m" "m \<le> 2 ^ 53" "int m = \<bar>n\<bar>"
    using False assms by (auto simp: m_def)
  note bits = f64_of_int_bits [of m, folded l_def, folded f_def]
  have eq: "f64_of_int n = f64_of_bits (n < 0) ((l + 1021) * 2 ^ 52 + f)"
    using m(1) by (simp add: f64_of_int_def Let_def f_def flip: l_def m_def)
  have exact: "f < 2 ^ 53 \<and> f * 2 ^ (l + 1021) = m * 2 ^ 1074"
  proof (cases "m = 2 ^ 53")
    case True
    then have "l = 54" by (simp only: l_def bit_length_pow2_53)
    with True show ?thesis
      by (simp add: f_def round_half_even_def Let_def)
  next
    case False
    with m have "l \<le> 53" by (simp add: l_def bit_length_le)
    moreover have "l > 0" using m(1) by (simp add: l_def bit_length.simps [of m])
    ultimately have "f * 2 ^ (l + 1021) = m * 2 ^ (53 - l + (l + 1021))"
      by (simp only: f_def if_True power_add mult.assoc)
    with \<open>l \<le> 53\<close> show ?thesis using bits m by simp
  qed
  have "l \<le> 64" using m by (simp add: l_def bit_length_le)
  with exact bits m have "f64_magnitude (f64_of_int n) = m * 2 ^ 1074"
    by (simp only: eq) (subst f64_magnitude_of_bits, simp_all)
  moreover have "f64_negative (f64_of_int n) = (n < 0)"
    using bits m by (simp add: eq f64_of_bits_parts)
  ultimately show ?thesis
    using m(3) by (auto simp: f64_scaled_def)
qed

lemma f64_of_int_finite: "\<bar>n\<bar> < 2 ^ 64 \<Longrightarrow> f64_is_finite (f64_of_int n)"
proof (cases "n = 0")
  case True
  then show ?thesis
    by (simp add: f64_of_int_def f64_is_finite_def f64_exponent_def)
next
  case False
  assume "\<bar>n\<bar> < 2 ^ 64"
  with False have m: "0 < nat \<bar>n\<bar>" "nat \<bar>n\<bar> < 2 ^ 64" by auto
  show ?thesis
    using f64_of_int_bits(4) [OF m] m(1)
    unfolding f64_of_int_def Let_def by (subst if_not_P) (simp, rule f64_of_bits_finite)
qed

lemma f64_finite_not_nan: "f64_is_finite f \<Longrightarrow> \<not> f64_is_nan f"
  by (simp add: f64_is_finite_def f64_is_nan_def)

lemma as_f64_not_nan: "number_wf n \<Longrightarrow> \<not> f64_is_nan (as_f64 n)"
proof (cases n)
  case (PosInt w)
  have "\<bar>uint w\<bar> < 2 ^ 64"
    using uint_bounded [of w] by simp
  then show ?thesis using PosInt by (simp add: f64_finite_not_nan f64_of_int_finite)
next
  case (NegInt w)
  have "\<bar>sint w\<bar> < 2 ^ 64"
    using sint_i64_range [of w] by auto
  then show ?thesis using NegInt by (simp add: f64_finite_not_nan f64_of_int_finite)
qed (simp add: f64_finite_not_nan)

end
