(* ===== verification/Filter_Path.thy ===== *)
theory Filter_Path
  imports Json
begin

text \<open>
  The paths of the observer filter language (\<open>crates/iii-filter/src/path.rs\<close>), the errors of
  the crate (\<open>error.rs\<close>), its limits and the document a filter is evaluated against
  (\<open>lib.rs\<close>).  The lemmas show that parsing and printing a path are inverse to each other, in
  both directions, and that resolution follows segments one after the other.
\<close>

section \<open>Errors and limits\<close>

datatype error_code = InvalidFilter | InvalidFilterPath

fun error_code_as_str :: "error_code \<Rightarrow> string" where
  "error_code_as_str InvalidFilter = ''INVALID_FILTER''"
| "error_code_as_str InvalidFilterPath = ''INVALID_FILTER_PATH''"

text \<open>
  The message of an error: one constructor per message of the crate, holding what the text
  is formatted from.
\<close>

datatype message =
    EmptyPath
  | EmptySegment string
  | InvalidEscape string char
  | DanglingEscape string
  | AtOutsideAny string
  | AtRequiredInAny string
  | UnknownRoot string string
  | TooManySegments string nat
  | TooManyNodes
  | NestedTooDeep
  | FilterNotObject string
  | OperatorNeedsPath string
  | UnknownFilterOperator string
  | NotTakesFilter string
  | EmptyFilterList string
  | FilterListNotArray string string
  | LiteralShorthand string
  | EmptyOperatorObject string
  | WrongOperand string string string string
  | TooManySetItems string string nat
  | NotAValueOperator string string
  | UnknownOperator string string
  | AnyOperandNotObject string string
  | LiteralTooDeep string string
  | NumberOutOfRange string string number
  | EncodedTooLarge
  | JsonTooDeep
  | NotInSchemaFormat string string

record filter_error =
  code :: error_code
  message :: message

definition invalid :: "message \<Rightarrow> filter_error" where
  "invalid m = \<lparr>code = InvalidFilter, message = m\<rparr>"

definition invalid_path :: "message \<Rightarrow> filter_error" where
  "invalid_path m = \<lparr>code = InvalidFilterPath, message = m\<rparr>"

abbreviation MAX_DEPTH :: nat where "MAX_DEPTH \<equiv> 8"
abbreviation MAX_NODES :: nat where "MAX_NODES \<equiv> 64"
abbreviation MAX_SET_ITEMS :: nat where "MAX_SET_ITEMS \<equiv> 256"
abbreviation MAX_PATH_SEGMENTS :: nat where "MAX_PATH_SEGMENTS \<equiv> 16"
abbreviation MAX_ENCODED_BYTES :: nat where "MAX_ENCODED_BYTES \<equiv> 8 * 1024"
abbreviation MAX_LITERAL_DEPTH :: nat where "MAX_LITERAL_DEPTH \<equiv> 32"
abbreviation MAX_JSON_DEPTH :: nat where "MAX_JSON_DEPTH \<equiv> 120"
abbreviation MAX_SAFE_INTEGER :: nat where "MAX_SAFE_INTEGER \<equiv> 2 ^ 53"

section \<open>Documents\<close>

record doc =
  doc_input :: "json option"
  doc_output :: "json option"
  doc_error :: "json option"
  doc_caller :: "json option"
  doc_metadata :: "json option"

definition doc_default :: doc where
  "doc_default =
     \<lparr>doc_input = None, doc_output = None, doc_error = None, doc_caller = None,
      doc_metadata = None\<rparr>"

fun doc_from_value :: "json \<Rightarrow> doc" where
  "doc_from_value (Object m) =
     \<lparr>doc_input = map_of m ''input'', doc_output = map_of m ''output'',
      doc_error = map_of m ''error'', doc_caller = map_of m ''caller'',
      doc_metadata = map_of m ''metadata''\<rparr>"
| "doc_from_value _ = doc_default"

section \<open>Paths\<close>

datatype root = Input | Output | Error | Caller | Metadata | Element

definition root_from_segment :: "string \<Rightarrow> root option" where
  "root_from_segment s =
     (if s = ''input'' then Some Input
      else if s = ''output'' then Some Output
      else if s = ''error'' then Some Error
      else if s = ''caller'' then Some Caller
      else if s = ''metadata'' then Some Metadata
      else if s = ''@'' then Some Element
      else None)"

record segment =
  seg_key :: string
  seg_index :: "nat option"

record path =
  path_root :: root
  path_segments :: "segment list"

abbreviation backslash :: char where "backslash \<equiv> CHR 0x5C"
abbreviation dot :: char where "dot \<equiv> CHR ''.''"

definition is_digit :: "char \<Rightarrow> bool" where
  "is_digit c \<longleftrightarrow> CHR ''0'' \<le> c \<and> c \<le> CHR ''9''"

definition digit_value :: "char \<Rightarrow> nat" where
  "digit_value c = of_char c - 48"

definition decimal :: "string \<Rightarrow> nat" where
  "decimal s = foldl (\<lambda>n c. 10 * n + digit_value c) 0 s"

text \<open>\<open>str::parse::<usize>\<close> fails beyond 64 bits.\<close>

definition canonical_index :: "string \<Rightarrow> nat option" where
  "canonical_index s =
     (let canonical =
            (case s of [] \<Rightarrow> False
             | c # rest \<Rightarrow> (c = CHR ''0'' \<and> rest = []) \<or>
                 (CHR ''1'' \<le> c \<and> c \<le> CHR ''9'' \<and> list_all is_digit rest))
      in if canonical \<and> decimal s < 2 ^ 64 then Some (decimal s) else None)"

definition empty_segment :: "string \<Rightarrow> filter_error" where
  "empty_segment raw = (if raw = [] then invalid EmptyPath else invalid (EmptySegment raw))"

text \<open>The loop over the characters of the path: \<open>current\<close> is the segment being read.\<close>

fun split_path :: "string \<Rightarrow> string \<Rightarrow> string \<Rightarrow> string list \<Rightarrow> (filter_error, string list) result"
where
  "split_path raw [] current parts =
     (if current = [] then Err (empty_segment raw) else Ok (parts @ [current]))"
| "split_path raw (c # chars) current parts =
     (if c = backslash then
        (case chars of
           [] \<Rightarrow> Err (invalid (DanglingEscape raw))
         | escaped # rest \<Rightarrow>
             if escaped = dot \<or> escaped = backslash
             then split_path raw rest (current @ [escaped]) parts
             else Err (invalid (InvalidEscape raw escaped)))
      else if c = dot then
        (if current = [] then Err (empty_segment raw)
         else split_path raw chars [] (parts @ [current]))
      else split_path raw chars (current @ [c]) parts)"

definition root_of_path :: "string \<Rightarrow> bool \<Rightarrow> string \<Rightarrow> (filter_error, root) result" where
  "root_of_path raw in_any first =
     (case root_from_segment first of
        Some r \<Rightarrow>
          if r = Element \<and> \<not> in_any then Err (invalid (AtOutsideAny raw))
          else if in_any \<and> r \<noteq> Element then Err (invalid (AtRequiredInAny raw))
          else Ok r
      | None \<Rightarrow>
          if in_any then Err (invalid (AtRequiredInAny raw))
          else Err (invalid (UnknownRoot raw first)))"

definition segment_of :: "string \<Rightarrow> segment" where
  "segment_of k = \<lparr>seg_key = k, seg_index = canonical_index k\<rparr>"

definition path_parse :: "string \<Rightarrow> bool \<Rightarrow> (filter_error, path) result" where
  "path_parse raw in_any =
     (case split_path raw raw [] [] of
        Err e \<Rightarrow> Err e
      | Ok parts \<Rightarrow>
          (case root_of_path raw in_any (hd parts) of
             Err e \<Rightarrow> Err e
           | Ok r \<Rightarrow>
               let segments = map segment_of (tl parts)
               in if MAX_PATH_SEGMENTS < length segments
                  then Err (invalid (TooManySegments raw (length segments)))
                  else Ok \<lparr>path_root = r, path_segments = segments\<rparr>))"

fun resolve_segments :: "json \<Rightarrow> segment list \<Rightarrow> json option" where
  "resolve_segments current [] = Some current"
| "resolve_segments current (segment # segments) =
     (case current of
        Object m \<Rightarrow>
          (case map_of m (seg_key segment) of
             None \<Rightarrow> None
           | Some v \<Rightarrow> resolve_segments v segments)
      | Array items \<Rightarrow>
          (case seg_index segment of
             None \<Rightarrow> None
           | Some i \<Rightarrow> if i < length items then resolve_segments (items ! i) segments else None)
      | _ \<Rightarrow> None)"

fun root_value :: "root \<Rightarrow> doc \<Rightarrow> json option \<Rightarrow> json option" where
  "root_value Input d element = doc_input d"
| "root_value Output d element = doc_output d"
| "root_value Error d element = doc_error d"
| "root_value Caller d element = doc_caller d"
| "root_value Metadata d element = doc_metadata d"
| "root_value Element d element = element"

definition path_resolve :: "path \<Rightarrow> doc \<Rightarrow> json option \<Rightarrow> json option" where
  "path_resolve p d element =
     (case root_value (path_root p) d element of
        None \<Rightarrow> None
      | Some v \<Rightarrow> resolve_segments v (path_segments p))"

section \<open>Printing a path\<close>

text \<open>
  \<open>push_escaped\<close> (\<open>schema.rs\<close>) writes a key with its dots and backslashes escaped; a path is
  displayed as its root and its escaped keys, joined by dots.
\<close>

definition push_escaped :: "string \<Rightarrow> string \<Rightarrow> string" where
  "push_escaped out k =
     out @ concat (map (\<lambda>c. if c = dot \<or> c = backslash then [backslash, c] else [c]) k)"

fun root_name :: "root \<Rightarrow> string" where
  "root_name Input = ''input''"
| "root_name Output = ''output''"
| "root_name Error = ''error''"
| "root_name Caller = ''caller''"
| "root_name Metadata = ''metadata''"
| "root_name Element = ''@''"

definition display_segments :: "string \<Rightarrow> segment list \<Rightarrow> string" where
  "display_segments start segments =
     foldl (\<lambda>display s. push_escaped (display @ [dot]) (seg_key s)) start segments"

definition path_display :: "path \<Rightarrow> string" where
  "path_display p = display_segments (root_name (path_root p)) (path_segments p)"

section \<open>Parsing and printing\<close>

text \<open>\<open>dotted ks\<close> is what the display appends for the keys \<open>ks\<close>: a dot and the escaped key each.\<close>

definition dotted :: "string list \<Rightarrow> string" where
  "dotted ks = concat (map (\<lambda>k. dot # push_escaped [] k) ks)"

lemma dotted_simps [simp]:
  "dotted [] = []"
  "dotted (k # ks) = dot # push_escaped [] k @ dotted ks"
  "dotted (ks @ ls) = dotted ks @ dotted ls"
  by (simp_all add: dotted_def)

lemma push_escaped_simps [simp]:
  "push_escaped [] [] = []"
  "push_escaped [] (c # k) =
     (if c = dot \<or> c = backslash then [backslash, c] else [c]) @ push_escaped [] k"
  "push_escaped [] (k @ l) = push_escaped [] k @ push_escaped [] l"
  by (simp_all add: push_escaped_def)

lemma push_escaped_append: "push_escaped out k = out @ push_escaped [] k"
  by (simp add: push_escaped_def)

lemma display_segments_eq: "display_segments start segs = start @ dotted (map seg_key segs)"
  unfolding display_segments_def
  by (induction segs arbitrary: start) (simp_all add: push_escaped_append [of "_ @ _"])

lemma split_path_escaped:
  "split_path raw (push_escaped [] k @ rest) current parts = split_path raw rest (current @ k) parts"
  by (induction k arbitrary: current) auto

lemma split_path_dotted:
  "current \<noteq> [] \<Longrightarrow> [] \<notin> set ks \<Longrightarrow>
   split_path raw (dotted ks) current parts = Ok (parts @ current # ks)"
  by (induction ks arbitrary: current parts) (auto simp: split_path_escaped)

lemma split_path_inverse:
  "split_path raw chars current parts = Ok ps \<Longrightarrow>
   dotted ps = dotted (parts @ [current]) @ chars \<and> ([] \<notin> set parts \<longrightarrow> [] \<notin> set ps)"
proof (induction raw chars current parts rule: split_path.induct)
  case (1 raw current parts)
  then show ?case by (auto split: if_splits)
next
  case (2 raw c chars current parts)
  then show ?case by (auto split: if_splits list.splits)
qed

lemma split_path_nonempty: "split_path raw chars current parts = Ok ps \<Longrightarrow> ps \<noteq> []"
  using split_path_inverse [of raw chars current parts ps] by (auto simp: dotted_def)

text \<open>
  The paths a parse can return: \<open>@\<close> is the root exactly inside \<open>$any\<close>, keys are not empty,
  indices are those of the keys, and the number of segments is within the limit.
\<close>

definition path_ok :: "bool \<Rightarrow> path \<Rightarrow> bool" where
  "path_ok in_any p \<longleftrightarrow>
     (path_root p = Element \<longleftrightarrow> in_any) \<and>
     list_all (\<lambda>s. seg_key s \<noteq> [] \<and> s = segment_of (seg_key s)) (path_segments p) \<and>
     length (path_segments p) \<le> MAX_PATH_SEGMENTS"

lemma root_from_segment_name [simp]: "root_from_segment (root_name r) = Some r"
  by (cases r) (simp_all add: root_from_segment_def)

lemma root_from_segment_SomeD: "root_from_segment s = Some r \<Longrightarrow> s = root_name r"
  by (auto simp: root_from_segment_def split: if_splits)

lemma escaped_root_name [simp]: "push_escaped [] (root_name r) = root_name r" "root_name r \<noteq> []"
  by (cases r; simp)+

lemma root_of_path_OkD:
  "root_of_path raw in_any first = Ok r \<Longrightarrow> first = root_name r \<and> (r = Element \<longleftrightarrow> in_any)"
  by (auto simp: root_of_path_def root_from_segment_SomeD split: option.splits if_splits)

lemma map_seg_key_segment_of [simp]: "map (seg_key \<circ> segment_of) ks = ks"
  by (induction ks) (simp_all add: segment_of_def)

lemma path_parse_OkE:
  assumes "path_parse raw in_any = Ok p"
  obtains ps where "split_path raw raw [] [] = Ok (root_name (path_root p) # ps)"
    and "path_segments p = map segment_of ps" and "length ps \<le> MAX_PATH_SEGMENTS"
    and "path_root p = Element \<longleftrightarrow> in_any"
proof -
  from assms obtain ps r where ps: "split_path raw raw [] [] = Ok ps"
    and r: "root_of_path raw in_any (hd ps) = Ok r" and len: "length (tl ps) \<le> MAX_PATH_SEGMENTS"
    and p: "p = \<lparr>path_root = r, path_segments = map segment_of (tl ps)\<rparr>"
    by (auto simp: path_parse_def Let_def not_less split: sum.splits if_splits)
  from split_path_nonempty [OF ps] root_of_path_OkD [OF r]
  have "ps = root_name r # tl ps" by (cases ps) auto
  with ps r len p show thesis
    using that [of "tl ps"] root_of_path_OkD [OF r] by simp
qed

lemma path_parse_ok: "path_parse raw in_any = Ok p \<Longrightarrow> path_ok in_any p"
proof (elim path_parse_OkE)
  fix ps
  assume "split_path raw raw [] [] = Ok (root_name (path_root p) # ps)"
  from split_path_inverse [OF this] have "[] \<notin> set ps" by simp
  moreover assume "path_segments p = map segment_of ps" "length ps \<le> MAX_PATH_SEGMENTS"
    "path_root p = Element \<longleftrightarrow> in_any"
  ultimately show ?thesis
    by (auto simp: path_ok_def list_all_iff segment_of_def)
qed

lemma path_display_parse: "path_parse raw in_any = Ok p \<Longrightarrow> path_display p = raw"
proof (elim path_parse_OkE)
  fix ps
  assume "split_path raw raw [] [] = Ok (root_name (path_root p) # ps)"
  from split_path_inverse [OF this] have "raw = root_name (path_root p) @ dotted ps" by simp
  moreover assume "path_segments p = map segment_of ps"
  ultimately show ?thesis
    by (simp add: path_display_def display_segments_eq)
qed

lemma path_parse_display:
  assumes "path_ok in_any p"
  shows "path_parse (path_display p) in_any = Ok p"
proof -
  define ks where "ks = map seg_key (path_segments p)"
  have ks: "[] \<notin> set ks" "map segment_of ks = path_segments p"
    "length (path_segments p) \<le> MAX_PATH_SEGMENTS"
    using assms by (auto simp: ks_def path_ok_def list_all_iff intro!: map_idI)
  let ?raw = "path_display p"
  have raw: "?raw = push_escaped [] (root_name (path_root p)) @ dotted ks"
    by (simp add: path_display_def display_segments_eq ks_def)
  have "split_path ?raw ?raw [] [] = Ok (root_name (path_root p) # ks)"
    using ks(1) by (subst (2) raw) (subst split_path_escaped, simp add: split_path_dotted)
  moreover have "root_of_path ?raw in_any (root_name (path_root p)) = Ok (path_root p)"
    using assms by (auto simp: root_of_path_def path_ok_def)
  ultimately show ?thesis
    using ks by (simp add: path_parse_def Let_def)
qed

text \<open>Resolution goes through the segments one after the other.\<close>

lemma resolve_segments_append:
  "resolve_segments v (ss @ ts) = Option.bind (resolve_segments v ss) (\<lambda>w. resolve_segments w ts)"
  by (induction v ss rule: resolve_segments.induct) (auto split: json.splits option.splits)

end
