(* ===== verification/Filter_Eval.thy ===== *)
theory Filter_Eval
  imports Filter_Path
begin

text \<open>
  The compiled filter tree and its evaluation (\<open>crates/iii-filter/src/eval.rs\<close>): JSON deep
  equality, ordering within one type, the operators, and the roots a filter reads.  The
  lemmas show that deep equality is an equivalence on well-formed values, how the operators
  treat an absent value, and that evaluation reads the referenced roots only.
\<close>

section \<open>The compiled tree\<close>

text \<open>The operand of \<open>$gt\<close>, \<open>$gte\<close>, \<open>$lt\<close> and \<open>$lte\<close>.\<close>

datatype bound = BNum f64 | BStr string

text \<open>
  \<open>Node::Path\<close> holds the fields of its \<open>PathClause\<close>: the path and the operators on it.
\<close>

datatype node =
    AndN "node list"
  | OrN "node list"
  | NotN node
  | PathN path "op list"
and op =
    OpEq json
  | OpNe json
  | OpIn "json list"
  | OpNin "json list"
  | OpGt bound
  | OpGte bound
  | OpLt bound
  | OpLte bound
  | OpExists bool
  | OpPrefix string
  | OpAny any_operand
and any_operand =
    AnyOps "op list"
  | AnyFilter node

section \<open>Comparison\<close>

definition number_as_f64 :: "number \<Rightarrow> f64" where
  "number_as_f64 n = as_f64 n"

definition str_cmp :: "string \<Rightarrow> string \<Rightarrow> ordering" where
  "str_cmp a b = (if a < b then Less else if a = b then Equal else Greater)"

fun compare :: "json option \<Rightarrow> bound \<Rightarrow> ordering option" where
  "compare (Some (Number n)) (BNum b) = f64_partial_cmp (number_as_f64 n) b"
| "compare (Some (String s)) (BStr b) = Some (str_cmp s b)"
| "compare _ _ = None"

function json_eq :: "json \<Rightarrow> json \<Rightarrow> bool" where
  "json_eq a b =
     (case (a, b) of
        (Null, Null) \<Rightarrow> True
      | (Bool x, Bool y) \<Rightarrow> x = y
      | (Number x, Number y) \<Rightarrow> f64_eq (number_as_f64 x) (number_as_f64 y)
      | (String x, String y) \<Rightarrow> x = y
      | (Array x, Array y) \<Rightarrow>
          length x = length y \<and> list_all (\<lambda>(v, w). json_eq v w) (zip x y)
      | (Object x, Object y) \<Rightarrow>
          length x = length y \<and>
          list_all (\<lambda>(k, v). case map_of y k of None \<Rightarrow> False | Some w \<Rightarrow> json_eq v w) x
      | _ \<Rightarrow> False)"
  by pat_completeness auto
termination
  by (relation "measure (size \<circ> fst)")
    (auto dest!: set_zip_leftD simp: size_array_member size_object_member)

declare json_eq.simps [simp del]

text \<open>The equations of \<^const>\<open>json_eq\<close> by the shape of its first argument.\<close>

lemma json_eq_simps [simp]:
  "json_eq Null b \<longleftrightarrow> b = Null"
  "json_eq (Bool x) b \<longleftrightarrow> b = Bool x"
  "json_eq (Number n) b \<longleftrightarrow> (\<exists>n'. b = Number n' \<and> f64_eq (number_as_f64 n) (number_as_f64 n'))"
  "json_eq (String s) b \<longleftrightarrow> b = String s"
  "json_eq (Array vs) b \<longleftrightarrow> (\<exists>ws. b = Array ws \<and> list_all2 json_eq vs ws)"
  "json_eq (Object m) b \<longleftrightarrow>
     (\<exists>m'. b = Object m' \<and> length m = length m' \<and>
       (\<forall>(k, v) \<in> set m. \<exists>w. map_of m' k = Some w \<and> json_eq v w))"
  by (subst json_eq.simps; auto simp: list_all2_iff list_all_iff split: json.splits option.splits)+

section \<open>Evaluation\<close>

definition starts_with :: "string \<Rightarrow> string \<Rightarrow> bool" where
  "starts_with s pre \<longleftrightarrow> prefix pre s"

fun node_matches :: "node \<Rightarrow> doc \<Rightarrow> json option \<Rightarrow> bool"
and op_matches :: "op \<Rightarrow> json option \<Rightarrow> doc \<Rightarrow> bool"
and any_matches :: "any_operand \<Rightarrow> json list \<Rightarrow> doc \<Rightarrow> bool" where
  "node_matches (AndN nodes) d element = list_all (\<lambda>n. node_matches n d element) nodes"
| "node_matches (OrN nodes) d element = list_ex (\<lambda>n. node_matches n d element) nodes"
| "node_matches (NotN n) d element = (\<not> node_matches n d element)"
| "node_matches (PathN p ops) d element =
     (let v = path_resolve p d element in list_all (\<lambda>op. op_matches op v d) ops)"
| "op_matches (OpEq l) v d = (case v of Some x \<Rightarrow> json_eq x l | None \<Rightarrow> False)"
| "op_matches (OpNe l) v d = (\<not> (case v of Some x \<Rightarrow> json_eq x l | None \<Rightarrow> False))"
| "op_matches (OpIn ls) v d = (case v of Some x \<Rightarrow> list_ex (json_eq x) ls | None \<Rightarrow> False)"
| "op_matches (OpNin ls) v d = (\<not> (case v of Some x \<Rightarrow> list_ex (json_eq x) ls | None \<Rightarrow> False))"
| "op_matches (OpGt b) v d = (compare v b = Some Greater)"
| "op_matches (OpGte b) v d = (compare v b \<in> {Some Greater, Some Equal})"
| "op_matches (OpLt b) v d = (compare v b = Some Less)"
| "op_matches (OpLte b) v d = (compare v b \<in> {Some Less, Some Equal})"
| "op_matches (OpExists expected) v d = ((v \<noteq> None) = expected)"
| "op_matches (OpPrefix pre) v d = (case v of Some (String s) \<Rightarrow> starts_with s pre | _ \<Rightarrow> False)"
| "op_matches (OpAny operand) v d =
     (case v of Some (Array items) \<Rightarrow> any_matches operand items d | _ \<Rightarrow> False)"
| "any_matches (AnyOps ops) items d =
     list_ex (\<lambda>item. list_all (\<lambda>op. op_matches op (Some item) d) ops) items"
| "any_matches (AnyFilter n) items d = list_ex (\<lambda>item. node_matches n d (Some item)) items"

definition is_match_all_node :: "node \<Rightarrow> bool" where
  "is_match_all_node n = (case n of AndN nodes \<Rightarrow> nodes = [] | _ \<Rightarrow> False)"

section \<open>Roots\<close>

record roots =
  roots_input :: bool
  roots_output :: bool
  roots_error :: bool
  roots_caller :: bool
  roots_metadata :: bool

definition roots_default :: roots where
  "roots_default =
     \<lparr>roots_input = False, roots_output = False, roots_error = False, roots_caller = False,
      roots_metadata = False\<rparr>"

definition roots_is_empty :: "roots \<Rightarrow> bool" where
  "roots_is_empty r \<longleftrightarrow>
     \<not> (roots_input r \<or> roots_output r \<or> roots_error r \<or> roots_caller r \<or> roots_metadata r)"

fun mark_root :: "root \<Rightarrow> roots \<Rightarrow> roots" where
  "mark_root Input r = r\<lparr>roots_input := True\<rparr>"
| "mark_root Output r = r\<lparr>roots_output := True\<rparr>"
| "mark_root Error r = r\<lparr>roots_error := True\<rparr>"
| "mark_root Caller r = r\<lparr>roots_caller := True\<rparr>"
| "mark_root Metadata r = r\<lparr>roots_metadata := True\<rparr>"
| "mark_root Element r = r"

fun collect_roots :: "node \<Rightarrow> roots \<Rightarrow> roots" where
  "collect_roots (AndN nodes) r = fold collect_roots nodes r"
| "collect_roots (OrN nodes) r = fold collect_roots nodes r"
| "collect_roots (NotN n) r = collect_roots n r"
| "collect_roots (PathN p ops) r = mark_root (path_root p) r"

section \<open>Deep equality is an equivalence\<close>

lemma json_induct [case_names Null Bool Number String Array Object]:
  assumes "P Null" and "\<And>b. P (Bool b)" and "\<And>n. P (Number n)" and "\<And>s. P (String s)"
    and "\<And>vs. (\<And>v. v \<in> set vs \<Longrightarrow> P v) \<Longrightarrow> P (Array vs)"
    and "\<And>m. (\<And>k v. (k, v) \<in> set m \<Longrightarrow> P v) \<Longrightarrow> P (Object m)"
  shows "P v"
proof (induction v rule: measure_induct_rule [of size])
  case (less v)
  then show ?case
    by (cases v) (auto intro!: assms simp: size_array_member size_object_member)
qed

lemma json_eq_refl: "json_wf v \<Longrightarrow> json_eq v v"
proof (induction v rule: json_induct)
  case (Number n)
  then show ?case by (simp add: f64_eq_def number_as_f64_def as_f64_not_nan)
next
  case (Array vs)
  then show ?case by (auto simp: list_all_iff intro!: list.rel_refl_strong)
next
  case (Object m)
  then show ?case by (fastforce simp: list_all_iff map_of_mem_iff)
qed simp_all

lemma same_keys:
  assumes "map_sorted m" and "map_sorted m'" and "length m = length m'"
    and "\<And>k v. (k, v) \<in> set m \<Longrightarrow> map_of m' k \<noteq> None"
  shows "fst ` set m' = fst ` set m"
proof -
  have "fst ` set m \<subseteq> fst ` set m'"
    using assms(4) by (force simp: map_of_eq_None_iff)
  moreover have "card (fst ` set m) = card (fst ` set m')"
    using assms(1-3) map_sorted_distinct distinct_card length_map by (metis image_set)
  ultimately show ?thesis by (metis card_subset_eq finite_imageI finite_set)
qed

lemma json_eq_sym: "json_wf a \<Longrightarrow> json_wf b \<Longrightarrow> json_eq a b \<Longrightarrow> json_eq b a"
proof (induction a arbitrary: b rule: json_induct)
  case (Array vs)
  then obtain ws where b: "b = Array ws" and eq: "list_all2 json_eq vs ws" by auto
  from eq have "list_all2 json_eq ws vs"
    using Array b by (fastforce simp: list_all2_conv_all_nth list_all_iff)
  with b show ?case by simp
next
  case (Object m)
  then obtain m' where b: "b = Object m'" and len: "length m = length m'"
    and eq: "\<forall>(k, v) \<in> set m. \<exists>w. map_of m' k = Some w \<and> json_eq v w"
    by auto
  have s: "map_sorted m" "map_sorted m'" using Object.prems b by auto
  have keys: "fst ` set m' = fst ` set m"
    by (rule same_keys [OF s len]) (use eq in auto)
  have "\<exists>v. map_of m k = Some v \<and> json_eq w v" if kw: "(k, w) \<in> set m'" for k w
  proof -
    from kw keys obtain v where v: "(k, v) \<in> set m" by force
    from kw s have "map_of m' k = Some w" by (simp add: map_of_mem_iff)
    with eq v have "json_eq v w" by fastforce
    moreover have "json_wf v" "json_wf w"
      using Object.prems(1,2) b v kw by (auto simp: list_all_iff)
    ultimately have "json_eq w v" using v Object.IH by blast
    with v s show ?thesis by (auto simp: map_of_mem_iff)
  qed
  with b len show ?case by auto
qed (auto simp: f64_eq_def)

lemma json_eq_trans:
  "json_wf b \<Longrightarrow> json_eq a b \<Longrightarrow> json_eq b c \<Longrightarrow> json_eq a c"
proof (induction a arbitrary: b c rule: json_induct)
  case (Array vs)
  then obtain ws us where b: "b = Array ws" and c: "c = Array us"
    and eq: "list_all2 json_eq vs ws" "list_all2 json_eq ws us" by auto
  have "json_eq (vs ! i) (us ! i)" if i: "i < length vs" for i
  proof (rule Array.IH)
    have "i < length ws" using i eq by (simp add: list_all2_lengthD)
    with Array.prems(1) b show "json_wf (ws ! i)" by (simp add: list_all_length)
    show "vs ! i \<in> set vs" using i by simp
    show "json_eq (vs ! i) (ws ! i)" "json_eq (ws ! i) (us ! i)"
      using eq i \<open>i < length ws\<close> by (simp_all add: list_all2_nthD)
  qed
  with eq c show ?case by (simp add: list_all2_conv_all_nth)
next
  case (Object m)
  then obtain m' m'' where b: "b = Object m'" and c: "c = Object m''"
    and len: "length m = length m'" "length m' = length m''"
    and ab: "\<forall>(k, v) \<in> set m. \<exists>w. map_of m' k = Some w \<and> json_eq v w"
    and bc: "\<forall>(k, v) \<in> set m'. \<exists>w. map_of m'' k = Some w \<and> json_eq v w"
    by auto
  have "\<exists>w. map_of m'' k = Some w \<and> json_eq v w" if kv: "(k, v) \<in> set m" for k v
  proof -
    from kv ab obtain u where u: "map_of m' k = Some u" "json_eq v u" by blast
    then have mem: "(k, u) \<in> set m'" by (simp add: map_of_SomeD)
    with bc obtain w where w: "map_of m'' k = Some w" "json_eq u w" by blast
    have "json_wf u" using Object.prems(1) b mem by (force simp: list_all_iff)
    with kv u w Object.IH show ?thesis by blast
  qed
  with b c len show ?case by auto
qed (auto simp: f64_eq_def)

section \<open>Evaluation reads the referenced roots only\<close>

text \<open>The scope of the root \<open>@\<close>: exactly the paths inside the filter form of \<open>$any\<close> start there.\<close>

fun node_scoped :: "bool \<Rightarrow> node \<Rightarrow> bool" and op_scoped :: "op \<Rightarrow> bool" where
  "node_scoped in_any (AndN nodes) = list_all (node_scoped in_any) nodes"
| "node_scoped in_any (OrN nodes) = list_all (node_scoped in_any) nodes"
| "node_scoped in_any (NotN n) = node_scoped in_any n"
| "node_scoped in_any (PathN p ops) =
     ((path_root p = Element \<longleftrightarrow> in_any) \<and> list_all op_scoped ops)"
| "op_scoped (OpAny (AnyOps ops)) = list_all op_scoped ops"
| "op_scoped (OpAny (AnyFilter n)) = node_scoped True n"
| "op_scoped _ = True"

fun has_root :: "roots \<Rightarrow> root \<Rightarrow> bool" where
  "has_root r Input = roots_input r"
| "has_root r Output = roots_output r"
| "has_root r Error = roots_error r"
| "has_root r Caller = roots_caller r"
| "has_root r Metadata = roots_metadata r"
| "has_root r Element = False"

definition agree_on :: "roots \<Rightarrow> doc \<Rightarrow> doc \<Rightarrow> bool" where
  "agree_on r d d' \<longleftrightarrow> (\<forall>x. has_root r x \<longrightarrow> root_value x d None = root_value x d' None)"

lemma has_root_mark: "has_root (mark_root x r) y \<longleftrightarrow> (y = x \<and> x \<noteq> Element) \<or> has_root r y"
  by (cases x; cases y) auto

fun node_roots :: "node \<Rightarrow> root set" where
  "node_roots (AndN nodes) = (\<Union>n \<in> set nodes. node_roots n)"
| "node_roots (OrN nodes) = (\<Union>n \<in> set nodes. node_roots n)"
| "node_roots (NotN n) = node_roots n"
| "node_roots (PathN p ops) = {path_root p} - {Element}"

lemma has_root_fold:
  "(\<And>n r. n \<in> set nodes \<Longrightarrow> has_root (collect_roots n r) x \<longleftrightarrow> x \<in> node_roots n \<or> has_root r x) \<Longrightarrow>
   has_root (fold collect_roots nodes r) x \<longleftrightarrow> (\<exists>n \<in> set nodes. x \<in> node_roots n) \<or> has_root r x"
  by (induction nodes arbitrary: r) auto

lemma has_root_collect: "has_root (collect_roots n r) x \<longleftrightarrow> x \<in> node_roots n \<or> has_root r x"
  by (induction n r rule: collect_roots.induct) (auto simp: has_root_mark has_root_fold)

lemma has_root_default [simp]: "\<not> has_root roots_default x"
  by (cases x) (simp_all add: roots_default_def)

lemma scoped_reads_element:
  "node_scoped True n \<Longrightarrow> node_matches n d element = node_matches n d' element"
  "op_scoped op \<Longrightarrow> op_matches op v d = op_matches op v d'"
  "op_scoped (OpAny a) \<Longrightarrow> any_matches a items d = any_matches a items d'"
proof (induction n d element and op v d and a items d
    rule: node_matches_op_matches_any_matches.induct)
  case (1 nodes d element)
  then show ?case by (simp add: list_all_iff)
next
  case (2 nodes d element)
  then show ?case by (simp add: list_all_iff list_ex_iff)
next
  case (4 p ops d element)
  then have "path_resolve p d element = path_resolve p d' element"
    by (simp add: path_resolve_def)
  with 4 show ?case by (simp add: list_all_iff)
next
  case (15 operand v d)
  then show ?case by (auto split: option.splits json.splits)
next
  case (16 ops items d)
  then show ?case by (auto simp: list_all_iff list_ex_iff)
next
  case (17 n items d)
  then show ?case by (auto simp: list_ex_iff)
qed simp_all

lemma scoped_reads_roots:
  "node_scoped False n \<Longrightarrow> \<forall>x \<in> node_roots n. root_value x d None = root_value x d' None \<Longrightarrow>
   node_matches n d element = node_matches n d' element"
proof (induction n rule: node_roots.induct)
  case (1 nodes)
  then show ?case by (auto simp: list_all_iff)
next
  case (2 nodes)
  then show ?case by (auto simp: list_all_iff list_ex_iff)
next
  case (4 p ops)
  have "root_value (path_root p) d element = root_value (path_root p) d' element"
    using 4 by (cases "path_root p") auto
  then have "path_resolve p d element = path_resolve p d' element"
    by (simp add: path_resolve_def)
  moreover have "\<forall>op \<in> set ops. \<forall>v. op_matches op v d = op_matches op v d'"
    using 4 scoped_reads_element(2) by (simp add: list_all_iff)
  ultimately show ?case by (simp add: list_all_iff)
qed simp

lemma matches_agree_on:
  assumes "node_scoped False n" and "agree_on (collect_roots n roots_default) d d'"
  shows "node_matches n d None = node_matches n d' None"
  using assms by (intro scoped_reads_roots) (auto simp: agree_on_def has_root_collect)

end
