(* ===== verification/Filter_Parse.thy ===== *)
theory Filter_Parse
  imports Filter_Eval
begin

text \<open>
  Validation, normalization and compilation of a filter (\<open>crates/iii-filter/src/parse.rs\<close>),
  in one pass as the code does it.  The text that \<open>serde_json\<close> writes for a string, a
  number, a boolean or null is the parameter \<open>leaf\<close> of the definitions that use it.
\<close>

section \<open>Size and nesting of the value as written\<close>

text \<open>
  \<open>ensure_encoded_size\<close>: the budget loop over an explicit stack, whose top is the head of
  the list.  Containers cost their punctuation, keys and leaves the length of their text.
\<close>

definition spend :: "nat \<Rightarrow> nat \<Rightarrow> nat option" where
  "spend budget bytes = (if bytes \<le> budget then Some (budget - bytes) else None)"

fun spend_keys :: "(json \<Rightarrow> string) \<Rightarrow> object \<Rightarrow> nat \<Rightarrow> nat option" where
  "spend_keys leaf [] budget = Some budget"
| "spend_keys leaf (e # m) budget =
     (case spend budget (length (leaf (String (fst e)))) of
        None \<Rightarrow> None
      | Some left \<Rightarrow> spend_keys leaf m left)"

function measure_loop :: "(json \<Rightarrow> string) \<Rightarrow> json list \<Rightarrow> nat \<Rightarrow> bool" where
  "measure_loop leaf [] budget = True"
| "measure_loop leaf (v # pending) budget =
     (case v of
        Array items \<Rightarrow>
          (case spend budget (2 + (length items - 1)) of
             None \<Rightarrow> False
           | Some left \<Rightarrow> measure_loop leaf (rev items @ pending) left)
      | Object m \<Rightarrow>
          (case spend budget (2 + (length m - 1) + length m) of
             None \<Rightarrow> False
           | Some left \<Rightarrow>
               (case spend_keys leaf m left of
                  None \<Rightarrow> False
                | Some left' \<Rightarrow> measure_loop leaf (rev (map snd m) @ pending) left'))
      | _ \<Rightarrow>
          (case spend budget (length (leaf v)) of
             None \<Rightarrow> False
           | Some left \<Rightarrow> measure_loop leaf pending left))"
  by pat_completeness auto

lemma size_list_values:
  "size_list (size \<circ> snd) m \<le> size_list (size_prod (\<lambda>_. 0) size) m"
  "size_list (\<lambda>e. size (snd e)) m \<le> size_list (size_prod (\<lambda>_. 0) size) m"
  by (induction m) auto

lemma size_list_rev [simp]: "size_list f (rev xs) = size_list f xs"
  by (induction xs) auto

termination measure_loop
  by (relation "measure (\<lambda>(leaf, pending, budget). size_list size pending)")
    (auto simp: less_Suc_eq_le le_SucI size_list_values)

definition ensure_encoded_size :: "(json \<Rightarrow> string) \<Rightarrow> json \<Rightarrow> (filter_error, unit) result" where
  "ensure_encoded_size leaf v =
     (if measure_loop leaf [v] MAX_ENCODED_BYTES then Ok () else Err (invalid EncodedTooLarge))"

fun members :: "json \<Rightarrow> json list" where
  "members (Array items) = items"
| "members (Object m) = map snd m"
| "members _ = []"

function json_depth_loop :: "(json \<times> nat) list \<Rightarrow> bool" where
  "json_depth_loop [] = True"
| "json_depth_loop ((v, level) # pending) =
     (if \<not> is_container v then json_depth_loop pending
      else if MAX_JSON_DEPTH < level then False
      else json_depth_loop (rev (map (\<lambda>member. (member, level + 1)) (members v)) @ pending))"
  by pat_completeness auto

termination json_depth_loop
  by (relation "measure (size_list (size \<circ> fst))")
    (auto simp: comp_def less_Suc_eq_le le_SucI size_list_values elim!: is_container.elims)

definition ensure_json_depth :: "json \<Rightarrow> (filter_error, unit) result" where
  "ensure_json_depth v =
     (if json_depth_loop [(v, 1)] then Ok () else Err (invalid JsonTooDeep))"

section \<open>Literals\<close>

fun kind :: "json \<Rightarrow> string" where
  "kind Null = ''null''"
| "kind (Bool _) = ''a boolean''"
| "kind (Number _) = ''a number''"
| "kind (String _) = ''a string''"
| "kind (Array _) = ''an array''"
| "kind (Object _) = ''an object''"

definition number_in_range :: "number \<Rightarrow> bool" where
  "number_in_range n =
     (case number_as_u64 n of
        Some u \<Rightarrow> unat u \<le> MAX_SAFE_INTEGER
      | None \<Rightarrow>
          (case number_as_i64 n of
             Some i \<Rightarrow> unat (unsigned_abs i) \<le> MAX_SAFE_INTEGER
           | None \<Rightarrow> \<bar>f64_scaled (as_f64 n)\<bar> \<le> f64_scaled (f64_of_int (2 ^ 53))))"

definition check_number :: "string \<Rightarrow> string \<Rightarrow> number \<Rightarrow> (filter_error, unit) result" where
  "check_number path name n =
     (if number_in_range n then Ok () else Err (invalid (NumberOutOfRange path name n)))"

fun check_literal_walk :: "string \<Rightarrow> string \<Rightarrow> json \<Rightarrow> nat \<Rightarrow> (filter_error, unit) result"
and check_literals_walk :: "string \<Rightarrow> string \<Rightarrow> json list \<Rightarrow> nat \<Rightarrow> (filter_error, unit) result"
and check_members_walk :: "string \<Rightarrow> string \<Rightarrow> object \<Rightarrow> nat \<Rightarrow> (filter_error, unit) result" where
  "check_literal_walk path name (Number n) level = check_number path name n"
| "check_literal_walk path name (Array items) level =
     (if MAX_LITERAL_DEPTH < level then Err (invalid (LiteralTooDeep path name))
      else check_literals_walk path name items (level + 1))"
| "check_literal_walk path name (Object m) level =
     (if MAX_LITERAL_DEPTH < level then Err (invalid (LiteralTooDeep path name))
      else check_members_walk path name m (level + 1))"
| "check_literal_walk path name _ level = Ok ()"
| "check_literals_walk path name [] level = Ok ()"
| "check_literals_walk path name (v # vs) level =
     (case check_literal_walk path name v level of
        Err e \<Rightarrow> Err e
      | Ok _ \<Rightarrow> check_literals_walk path name vs level)"
| "check_members_walk path name [] level = Ok ()"
| "check_members_walk path name (e # m) level =
     (case check_literal_walk path name (snd e) level of
        Err e \<Rightarrow> Err e
      | Ok _ \<Rightarrow> check_members_walk path name m level)"

definition check_literal :: "string \<Rightarrow> string \<Rightarrow> json \<Rightarrow> (filter_error, unit) result" where
  "check_literal path name v = check_literal_walk path name v 1"

definition bound_of :: "string \<Rightarrow> string \<Rightarrow> json \<Rightarrow> (filter_error, bound) result" where
  "bound_of path name operand =
     (case operand of
        Number n \<Rightarrow>
          (case check_number path name n of
             Err e \<Rightarrow> Err e
           | Ok _ \<Rightarrow> Ok (BNum (number_as_f64 n)))
      | String s \<Rightarrow> Ok (BStr s)
      | _ \<Rightarrow> Err (invalid (WrongOperand path name ''a number or a string'' (kind operand))))"

text \<open>\<open>parse_operator\<close> on every operator but \<open>$any\<close>, whose operand is a filter or an operator object.\<close>

definition parse_scalar_operator :: "string \<Rightarrow> string \<Rightarrow> json \<Rightarrow> (filter_error, op) result" where
  "parse_scalar_operator path name operand =
     (if name = ''$eq'' \<or> name = ''$ne'' then
        (case check_literal path name operand of
           Err e \<Rightarrow> Err e
         | Ok _ \<Rightarrow> Ok (if name = ''$eq'' then OpEq operand else OpNe operand))
      else if name = ''$in'' \<or> name = ''$nin'' then
        (case operand of
           Array items \<Rightarrow>
             if MAX_SET_ITEMS < length items
             then Err (invalid (TooManySetItems path name (length items)))
             else
               (case check_literals_walk path name items 1 of
                  Err e \<Rightarrow> Err e
                | Ok _ \<Rightarrow> Ok (if name = ''$in'' then OpIn items else OpNin items))
         | _ \<Rightarrow> Err (invalid (WrongOperand path name ''an array'' (kind operand))))
      else if name = ''$gt'' \<or> name = ''$gte'' \<or> name = ''$lt'' \<or> name = ''$lte'' then
        (case bound_of path name operand of
           Err e \<Rightarrow> Err e
         | Ok b \<Rightarrow>
             Ok (if name = ''$gt'' then OpGt b else if name = ''$gte'' then OpGte b
                 else if name = ''$lt'' then OpLt b else OpLte b))
      else if name = ''$exists'' then
        (case operand of
           Bool b \<Rightarrow> Ok (OpExists b)
         | _ \<Rightarrow> Err (invalid (WrongOperand path name ''a boolean'' (kind operand))))
      else if name = ''$prefix'' then
        (case operand of
           String s \<Rightarrow> Ok (OpPrefix s)
         | _ \<Rightarrow> Err (invalid (WrongOperand path name ''a string'' (kind operand))))
      else if name = ''$and'' \<or> name = ''$or'' \<or> name = ''$not'' then
        Err (invalid (NotAValueOperator path name))
      else Err (invalid (UnknownOperator path name)))"

definition is_value_operator :: "string \<Rightarrow> bool" where
  "is_value_operator name \<longleftrightarrow>
     name \<in> {''$eq'', ''$ne'', ''$in'', ''$nin'', ''$gt'', ''$gte'', ''$lt'', ''$lte'',
             ''$exists'', ''$prefix'', ''$any''}"

definition filter_list :: "string \<Rightarrow> json \<Rightarrow> (filter_error, json list) result" where
  "filter_list name v =
     (case v of
        Array items \<Rightarrow> if items = [] then Err (invalid (EmptyFilterList name)) else Ok items
      | _ \<Rightarrow> Err (invalid (FilterListNotArray name (kind v))))"

section \<open>Clauses\<close>

fun join_with :: "string \<Rightarrow> string list \<Rightarrow> string" where
  "join_with sep [] = []"
| "join_with sep [s] = s"
| "join_with sep (s # t # ts) = s @ sep @ join_with sep (t # ts)"

fun write_canonical :: "(json \<Rightarrow> string) \<Rightarrow> json \<Rightarrow> string" where
  "write_canonical leaf (Array items) =
     ''['' @ join_with '','' (map (write_canonical leaf) items) @ '']''"
| "write_canonical leaf (Object m) =
     ''{'' @
     join_with '',''
       (map (\<lambda>(k, text). leaf (String k) @ '':'' @ text)
         (sort_key fst (map (\<lambda>(k, v). (k, write_canonical leaf v)) m))) @
     ''}''"
| "write_canonical leaf v = leaf v"

record clause =
  cl_key :: string
  cl_operand :: json
  cl_operand_json :: string
  cl_node :: node

definition clause_new :: "(json \<Rightarrow> string) \<Rightarrow> string \<Rightarrow> json \<Rightarrow> node \<Rightarrow> clause" where
  "clause_new leaf k operand n =
     \<lparr>cl_key = k, cl_operand = operand, cl_operand_json = write_canonical leaf operand,
      cl_node = n\<rparr>"

abbreviation clause_order :: "clause \<Rightarrow> string \<times> string" where
  "clause_order c \<equiv> (cl_key c, cl_operand_json c)"

definition finish :: "clause list \<Rightarrow> node \<times> json" where
  "finish clauses =
     (let cs = dedup_by (\<lambda>a b. cl_key a = cl_key b \<and> cl_operand_json a = cl_operand_json b)
                 (sort_key clause_order clauses)
      in if cs = [] then (AndN [], Object [])
         else (AndN (map cl_node cs),
               Object [(''$and'', Array (map (\<lambda>c. Object [(cl_key c, cl_operand c)]) cs))]))"

definition take_node :: "nat \<Rightarrow> (filter_error, nat) result" where
  "take_node nodes = (if MAX_NODES < nodes + 1 then Err (invalid TooManyNodes) else Ok (nodes + 1))"

section \<open>Filters and operators\<close>

text \<open>
  The mutual recursion of the parser.  \<open>collect_clauses\<close> is the loop over the stack
  \<open>pending\<close> (its top is the head of the list) and, inside it, over the \<open>entries\<close> of the
  object taken from it; \<open>parse_filters\<close> and \<open>parse_each_operator\<close> are the loops over the
  members of a \<open>$or\<close> and over the entries of an operator object.  The node budget is
  threaded through every call.
\<close>

function parse_filter ::
    "(json \<Rightarrow> string) \<Rightarrow> json \<Rightarrow> nat \<Rightarrow> bool \<Rightarrow> nat \<Rightarrow> (filter_error, (node \<times> json) \<times> nat) result"
and collect_clauses ::
    "(json \<Rightarrow> string) \<Rightarrow> json list \<Rightarrow> object \<Rightarrow> nat \<Rightarrow> bool \<Rightarrow> nat \<Rightarrow> clause list \<Rightarrow>
     (filter_error, clause list \<times> nat) result"
and parse_filters ::
    "(json \<Rightarrow> string) \<Rightarrow> json list \<Rightarrow> nat \<Rightarrow> bool \<Rightarrow> nat \<Rightarrow>
     (filter_error, (node \<times> json) list \<times> nat) result"
and parse_operator_object ::
    "(json \<Rightarrow> string) \<Rightarrow> string \<Rightarrow> json \<Rightarrow> nat \<Rightarrow> nat \<Rightarrow> (filter_error, (op list \<times> json) \<times> nat) result"
and parse_operators ::
    "(json \<Rightarrow> string) \<Rightarrow> string \<Rightarrow> object \<Rightarrow> nat \<Rightarrow> nat \<Rightarrow> (filter_error, (op list \<times> json) \<times> nat) result"
and parse_each_operator ::
    "(json \<Rightarrow> string) \<Rightarrow> string \<Rightarrow> object \<Rightarrow> nat \<Rightarrow> nat \<Rightarrow>
     (filter_error, (string \<times> op \<times> json) list \<times> nat) result"
and parse_operator ::
    "(json \<Rightarrow> string) \<Rightarrow> string \<Rightarrow> string \<Rightarrow> json \<Rightarrow> nat \<Rightarrow> nat \<Rightarrow>
     (filter_error, (op \<times> json) \<times> nat) result"
and parse_any ::
    "(json \<Rightarrow> string) \<Rightarrow> string \<Rightarrow> json \<Rightarrow> nat \<Rightarrow> nat \<Rightarrow> (filter_error, (op \<times> json) \<times> nat) result"
where
  "parse_filter leaf src depth in_any nodes =
     (if MAX_DEPTH < depth then Err (invalid NestedTooDeep)
      else
        (case collect_clauses leaf [src] [] depth in_any nodes [] of
           Err e \<Rightarrow> Err e
         | Ok (clauses, nodes) \<Rightarrow> Ok (finish clauses, nodes)))"
| "collect_clauses leaf [] [] depth in_any nodes out = Ok (out, nodes)"
| "collect_clauses leaf (src # pending) [] depth in_any nodes out =
     (case src of
        Object m \<Rightarrow> collect_clauses leaf pending m depth in_any nodes out
      | _ \<Rightarrow> Err (invalid (FilterNotObject (kind src))))"
| "collect_clauses leaf pending ((k, v) # entries) depth in_any nodes out =
     (if k = ''$and'' then
        (case filter_list ''$and'' v of
           Err e \<Rightarrow> Err e
         | Ok items \<Rightarrow> collect_clauses leaf (items @ pending) entries depth in_any nodes out)
      else if k = ''$or'' then
        (case take_node nodes of
           Err e \<Rightarrow> Err e
         | Ok nodes \<Rightarrow>
             (case filter_list ''$or'' v of
                Err e \<Rightarrow> Err e
              | Ok items \<Rightarrow>
                  (case parse_filters leaf items (depth + 1) in_any nodes of
                     Err e \<Rightarrow> Err e
                   | Ok (parsed, nodes) \<Rightarrow>
                       collect_clauses leaf pending entries depth in_any nodes
                         (out @ [clause_new leaf ''$or'' (Array (map snd parsed)) (OrN (map fst parsed))]))))
      else if k = ''$not'' then
        (case take_node nodes of
           Err e \<Rightarrow> Err e
         | Ok nodes \<Rightarrow>
             if \<not> is_object v then Err (invalid (NotTakesFilter (kind v)))
             else
               (case parse_filter leaf v (depth + 1) in_any nodes of
                  Err e \<Rightarrow> Err e
                | Ok ((n, normalized), nodes) \<Rightarrow>
                    collect_clauses leaf pending entries depth in_any nodes
                      (out @ [clause_new leaf ''$not'' normalized (NotN n)])))
      else if is_value_operator k then Err (invalid (OperatorNeedsPath k))
      else if starts_with k ''$'' then Err (invalid (UnknownFilterOperator k))
      else
        (case path_parse k in_any of
           Err e \<Rightarrow> Err e
         | Ok p \<Rightarrow>
             (case parse_operator_object leaf k v depth nodes of
                Err e \<Rightarrow> Err e
              | Ok ((ops, operand), nodes) \<Rightarrow>
                  collect_clauses leaf pending entries depth in_any nodes
                    (out @ [clause_new leaf k operand (PathN p ops)]))))"
| "parse_filters leaf [] depth in_any nodes = Ok ([], nodes)"
| "parse_filters leaf (item # items) depth in_any nodes =
     (case parse_filter leaf item depth in_any nodes of
        Err e \<Rightarrow> Err e
      | Ok (parsed, nodes) \<Rightarrow>
          (case parse_filters leaf items depth in_any nodes of
             Err e \<Rightarrow> Err e
           | Ok (rest, nodes) \<Rightarrow> Ok (parsed # rest, nodes)))"
| "parse_operator_object leaf path v depth nodes =
     (case v of
        Object m \<Rightarrow>
          if m = [] then Err (invalid (EmptyOperatorObject path))
          else if list_ex (\<lambda>k. \<not> starts_with k ''$'') (map_keys m)
          then Err (invalid (LiteralShorthand path))
          else parse_operators leaf path m depth nodes
      | _ \<Rightarrow> Err (invalid (LiteralShorthand path)))"
| "parse_operators leaf path m depth nodes =
     (case parse_each_operator leaf path m depth nodes of
        Err e \<Rightarrow> Err e
      | Ok (parsed, nodes) \<Rightarrow>
          let parsed = sort_key fst parsed
          in Ok ((map (\<lambda>(name, op, normalized). op) parsed,
                  Object (fold (\<lambda>(name, op, normalized). map_insert name normalized) parsed [])),
                 nodes))"
| "parse_each_operator leaf path [] depth nodes = Ok ([], nodes)"
| "parse_each_operator leaf path ((name, operand) # m) depth nodes =
     (case take_node nodes of
        Err e \<Rightarrow> Err e
      | Ok nodes \<Rightarrow>
          (case parse_operator leaf path name operand depth nodes of
             Err e \<Rightarrow> Err e
           | Ok ((op, normalized), nodes) \<Rightarrow>
               (case parse_each_operator leaf path m depth nodes of
                  Err e \<Rightarrow> Err e
                | Ok (rest, nodes) \<Rightarrow> Ok ((name, op, normalized) # rest, nodes))))"
| "parse_operator leaf path name operand depth nodes =
     (if name = ''$any'' then parse_any leaf path operand depth nodes
      else
        (case parse_scalar_operator path name operand of
           Err e \<Rightarrow> Err e
         | Ok op \<Rightarrow> Ok ((op, operand), nodes)))"
| "parse_any leaf path operand depth nodes =
     (case operand of
        Object m \<Rightarrow>
          if MAX_DEPTH < depth + 1 then Err (invalid NestedTooDeep)
          else if m \<noteq> [] \<and> list_all is_value_operator (map_keys m) then
            (case parse_operators leaf path m (depth + 1) nodes of
               Err e \<Rightarrow> Err e
             | Ok ((ops, normalized), nodes) \<Rightarrow> Ok ((OpAny (AnyOps ops), normalized), nodes))
          else
            (case parse_filter leaf operand (depth + 1) True nodes of
               Err e \<Rightarrow> Err e
             | Ok ((n, normalized), nodes) \<Rightarrow> Ok ((OpAny (AnyFilter n), normalized), nodes))
      | _ \<Rightarrow> Err (invalid (AnyOperandNotObject path (kind operand))))"
  by pat_completeness auto

abbreviation entries_size :: "object \<Rightarrow> nat" where
  "entries_size m \<equiv> size_list (size_prod (\<lambda>_. 0) size) m"

lemma sum_list_size_less: "4 * sum_list (map size vs) < 12 + 4 * size_list size vs"
  by (induction vs) auto

termination parse_filter
  by (relation "measure
     (case_sum
       (case_sum
         (case_sum (\<lambda>(leaf, src, depth, in_any, nodes). 4 * size src + 1)
           (\<lambda>(leaf, pending, entries, depth, in_any, nodes, out).
              4 * sum_list (map size pending) + 4 * entries_size entries))
         (case_sum (\<lambda>(leaf, items, depth, in_any, nodes). 4 * size_list size items)
           (\<lambda>(leaf, path, v, depth, nodes). 4 * size v + 1)))
       (case_sum
         (case_sum (\<lambda>(leaf, path, m, depth, nodes). 4 * entries_size m + 2)
           (\<lambda>(leaf, path, m, depth, nodes). 4 * entries_size m + 1))
         (case_sum (\<lambda>(leaf, path, name, operand, depth, nodes). 4 * size operand + 3)
           (\<lambda>(leaf, path, operand, depth, nodes). 4 * size operand + 2))))")
    (auto simp: filter_list_def sum_list_size_less split: json.splits if_splits)

declare parse_filter.simps [simp del] parse_operator_object.simps [simp del]
  parse_operators.simps [simp del] parse_operator.simps [simp del] parse_any.simps [simp del]

subsection \<open>What a successful step has done\<close>

lemma parse_filter_OkE:
  assumes "parse_filter leaf src depth in_any nodes = Ok (r, nodes')"
  obtains cs where "depth \<le> MAX_DEPTH" "r = finish cs"
    "collect_clauses leaf [src] [] depth in_any nodes [] = Ok (cs, nodes')"
  using assms by (auto simp: parse_filter.simps split: if_splits sum.splits)

lemma filter_list_Ok: "filter_list name v = Ok items \<longleftrightarrow> v = Array items \<and> items \<noteq> []"
  by (auto simp: filter_list_def split: json.splits)

lemma collect_object_OkE:
  assumes "collect_clauses leaf (src # pending) [] depth in_any nodes out = Ok r"
  obtains m where "src = Object m" "collect_clauses leaf pending m depth in_any nodes out = Ok r"
  using assms by (auto split: json.splits)

lemma collect_entry_OkE:
  assumes "collect_clauses leaf pending ((k, v) # entries) depth in_any nodes out = Ok r"
  obtains
    (and_list) items where "k = ''$and''" "v = Array items" "items \<noteq> []"
      "collect_clauses leaf (items @ pending) entries depth in_any nodes out = Ok r"
  | (or_list) b items ps b' where "k = ''$or''" "take_node nodes = Ok b" "v = Array items" "items \<noteq> []"
      "parse_filters leaf items (depth + 1) in_any b = Ok (ps, b')"
      "collect_clauses leaf pending entries depth in_any b'
         (out @ [clause_new leaf ''$or'' (Array (map snd ps)) (OrN (map fst ps))]) = Ok r"
  | (negated) b n norm b' where "k = ''$not''" "take_node nodes = Ok b" "is_object v"
      "parse_filter leaf v (depth + 1) in_any b = Ok ((n, norm), b')"
      "collect_clauses leaf pending entries depth in_any b'
         (out @ [clause_new leaf ''$not'' norm (NotN n)]) = Ok r"
  | (at_path) p ops operand b' where "k \<noteq> ''$and''" "k \<noteq> ''$or''" "k \<noteq> ''$not''"
      "\<not> is_value_operator k" "\<not> starts_with k ''$''" "path_parse k in_any = Ok p"
      "parse_operator_object leaf k v depth nodes = Ok ((ops, operand), b')"
      "collect_clauses leaf pending entries depth in_any b'
         (out @ [clause_new leaf k operand (PathN p ops)]) = Ok r"
  using assms
  by (simp add: filter_list_Ok split: if_splits sum.splits prod.splits)

lemma parse_filters_OkE:
  assumes "parse_filters leaf (item # items) depth in_any nodes = Ok (ps, nodes')"
  obtains r b rs where "ps = r # rs" "parse_filter leaf item depth in_any nodes = Ok (r, b)"
    "parse_filters leaf items depth in_any b = Ok (rs, nodes')"
  using assms by (auto split: sum.splits)

lemma parse_operator_object_OkE:
  assumes "parse_operator_object leaf path v depth nodes = Ok r"
  obtains m where "v = Object m" "m \<noteq> []" "list_all (\<lambda>k. starts_with k ''$'') (map_keys m)"
    "parse_operators leaf path m depth nodes = Ok r"
  using assms
  by (auto simp: parse_operator_object.simps list_all_iff list_ex_iff split: json.splits if_splits)

lemma parse_operators_OkE:
  assumes "parse_operators leaf path m depth nodes = Ok (q, nodes')"
  obtains parsed where "parse_each_operator leaf path m depth nodes = Ok (parsed, nodes')"
    "q = (map (\<lambda>(name, op, normalized). op) (sort_key fst parsed),
          Object (fold (\<lambda>(name, op, normalized). map_insert name normalized) (sort_key fst parsed) []))"
  using assms by (auto simp: parse_operators.simps Let_def split: sum.splits)

lemma parse_each_operator_OkE:
  assumes "parse_each_operator leaf path ((name, operand) # m) depth nodes = Ok (parsed, nodes')"
  obtains b op norm b' rest where "parsed = (name, op, norm) # rest" "take_node nodes = Ok b"
    "parse_operator leaf path name operand depth b = Ok ((op, norm), b')"
    "parse_each_operator leaf path m depth b' = Ok (rest, nodes')"
  using assms by (auto split: sum.splits)

lemma parse_operator_OkE:
  assumes "parse_operator leaf path name operand depth nodes = Ok (r, nodes')"
  obtains
    (any) "name = ''$any''" "parse_any leaf path operand depth nodes = Ok (r, nodes')"
  | (scalar) op where "name \<noteq> ''$any''" "parse_scalar_operator path name operand = Ok op"
      "r = (op, operand)" "nodes' = nodes"
  using assms by (auto simp: parse_operator.simps split: if_splits sum.splits)

lemma parse_any_OkE:
  assumes "parse_any leaf path operand depth nodes = Ok (r, nodes')"
  obtains
    (ops) m ops norm where "operand = Object m" "depth < MAX_DEPTH" "m \<noteq> []"
      "list_all is_value_operator (map_keys m)"
      "parse_operators leaf path m (depth + 1) nodes = Ok ((ops, norm), nodes')"
      "r = (OpAny (AnyOps ops), norm)"
  | (filter) m n norm where "operand = Object m" "depth < MAX_DEPTH"
      "\<not> (m \<noteq> [] \<and> list_all is_value_operator (map_keys m))"
      "parse_filter leaf operand (depth + 1) True nodes = Ok ((n, norm), nodes')"
      "r = (OpAny (AnyFilter n), norm)"
  using assms by (auto simp: parse_any.simps split: json.splits if_splits sum.splits)

lemmas parser_induct =
  parse_filter_collect_clauses_parse_filters_parse_operator_object_parse_operators_parse_each_operator_parse_operator_parse_any.induct

section \<open>The whole parse\<close>

record parsed =
  parsed_node :: node
  parsed_normalized :: json

datatype size_limit = Enforce | Skip

definition parse :: "(json \<Rightarrow> string) \<Rightarrow> json \<Rightarrow> size_limit \<Rightarrow> (filter_error, parsed) result" where
  "parse leaf src size_limit =
     (case (if size_limit = Enforce then ensure_encoded_size leaf src else Ok ()) of
        Err e \<Rightarrow> Err e
      | Ok _ \<Rightarrow>
          (case ensure_json_depth src of
             Err e \<Rightarrow> Err e
           | Ok _ \<Rightarrow>
               (case parse_filter leaf src 1 False 0 of
                  Err e \<Rightarrow> Err e
                | Ok ((n, normalized), nodes) \<Rightarrow>
                    Ok \<lparr>parsed_node = n, parsed_normalized = normalized\<rparr>)))"

end
