(* ===== verification/Filter_Limits.thy ===== *)
theory Filter_Limits
  imports Filter_Parse
begin

text \<open>
  What the two loops over an explicit stack decide (\<open>ensure_encoded_size\<close> and
  \<open>ensure_json_depth\<close> of \<open>crates/iii-filter/src/parse.rs\<close>): the length of the compact
  text, which neither of them writes, and the nesting of containers.
\<close>

section \<open>Encoded size\<close>

text \<open>The number of bytes of the compact text of a value, by its punctuation, keys and leaves.\<close>

fun encoded_length :: "(json \<Rightarrow> string) \<Rightarrow> json \<Rightarrow> nat" where
  "encoded_length leaf (Array items) =
     2 + (length items - 1) + sum_list (map (encoded_length leaf) items)"
| "encoded_length leaf (Object m) =
     2 + (length m - 1) + length m + sum_list (map (\<lambda>e. length (leaf (String (fst e)))) m) +
     sum_list (map (\<lambda>e. encoded_length leaf (snd e)) m)"
| "encoded_length leaf v = length (leaf v)"

lemma spend_eq: "spend b n = Some left \<longleftrightarrow> n \<le> b \<and> left = b - n" "spend b n = None \<longleftrightarrow> b < n"
  by (auto simp: spend_def)

lemma spend_keys_eq:
  "spend_keys leaf m b =
     (let n = sum_list (map (\<lambda>e. length (leaf (String (fst e)))) m)
      in if n \<le> b then Some (b - n) else None)"
  by (induction m arbitrary: b) (auto simp: spend_def Let_def)

lemma measure_loop_eq:
  "measure_loop leaf pending b \<longleftrightarrow> sum_list (map (encoded_length leaf) pending) \<le> b"
proof (induction leaf pending b rule: measure_loop.induct)
  case (1 leaf b)
  then show ?case by simp
next
  case (2 leaf v pending b)
  show ?case
  proof (cases v)
    case (Array items)
    show ?thesis
    proof (cases "2 + (length items - 1) \<le> b")
      case True
      with 2(5) [OF Array, of "b - (2 + (length items - 1))"] show ?thesis
        by (auto simp: Array spend_def rev_map [symmetric] sum_list_rev)
    qed (simp add: Array spend_def)
  next
    case (Object m)
    let ?p = "2 + (length m - 1) + length m"
    let ?k = "sum_list (map (\<lambda>e. length (leaf (String (fst e)))) m)"
    show ?thesis
    proof (cases "?p \<le> b \<and> ?k \<le> b - ?p")
      case True
      with 2(6) [OF Object, of "b - ?p" "b - ?p - ?k"] show ?thesis
        by (auto simp: Object spend_def spend_keys_eq Let_def rev_map [symmetric] sum_list_rev comp_def)
    qed (auto simp: Object spend_def spend_keys_eq Let_def)
  qed (use 2 in \<open>auto simp: spend_def\<close>)
qed

lemma length_join_with:
  "length (join_with '','' ts) = sum_list (map length ts) + (length ts - 1)"
  by (induction "'',''" ts rule: join_with.induct) auto

lemma length_write_canonical: "length (write_canonical leaf v) = encoded_length leaf v"
proof (induction v rule: json_induct)
  case (Array vs)
  have "sum_list (map (\<lambda>v. length (write_canonical leaf v)) vs) = sum_list (map (encoded_length leaf) vs)"
    by (intro arg_cong [where f = sum_list] map_cong) (simp_all add: Array)
  then show ?case by (simp add: length_join_with comp_def)
next
  case (Object m)
  have "sum_list (map (\<lambda>e. length (write_canonical leaf (snd e))) m) =
      sum_list (map (\<lambda>e. encoded_length leaf (snd e)) m)"
    by (intro arg_cong [where f = sum_list] map_cong) (auto simp: Object.IH)
  then show ?case
    by (simp add: length_join_with comp_def split_def sum_list_sort_key sum_list_addf sum_list_Suc)
qed simp_all

section \<open>Nesting\<close>

text \<open>At most \<open>n\<close> arrays and objects lie one inside the other.\<close>

fun nested_within :: "nat \<Rightarrow> json \<Rightarrow> bool" where
  "nested_within n (Array items) = (0 < n \<and> list_all (nested_within (n - 1)) items)"
| "nested_within n (Object m) = (0 < n \<and> list_all (\<lambda>e. nested_within (n - 1) (snd e)) m)"
| "nested_within n v = True"

lemma nested_within_mono: "nested_within n v \<Longrightarrow> n \<le> k \<Longrightarrow> nested_within k v"
proof (induction n v arbitrary: k rule: nested_within.induct)
  case (1 n items)
  then show ?case by (auto simp: list_all_iff intro: 1(1) diff_le_mono)
next
  case (2 n m)
  then show ?case by (auto simp: list_all_iff intro: 2(1) diff_le_mono)
qed simp_all

lemma nested_within_container:
  "is_container v \<Longrightarrow> nested_within n v \<longleftrightarrow> 0 < n \<and> list_all (nested_within (n - 1)) (members v)"
  by (cases v) (auto simp: list_all_iff)

lemma nested_within_leaf: "\<not> is_container v \<Longrightarrow> nested_within n v"
  by (cases v) auto

lemma json_depth_loop_eq:
  "json_depth_loop pending \<longleftrightarrow>
   list_all (\<lambda>(v, level). nested_within (Suc MAX_JSON_DEPTH - level) v) pending"
proof (induction pending rule: json_depth_loop.induct)
  case (2 v level pending)
  show ?case
  proof (cases "is_container v \<and> level \<le> MAX_JSON_DEPTH")
    case True
    with 2 show ?thesis
      by (simp add: nested_within_container list.pred_map comp_def)
  qed (use 2 in \<open>auto simp: nested_within_leaf nested_within_container\<close>)
qed simp

lemma ensure_json_depth_Ok: "ensure_json_depth v = Ok () \<longleftrightarrow> nested_within MAX_JSON_DEPTH v"
  by (simp add: ensure_json_depth_def json_depth_loop_eq)

lemma check_literal_walk_depth:
  "check_literal_walk path name v level = Ok u \<Longrightarrow> level \<le> Suc MAX_LITERAL_DEPTH \<Longrightarrow>
     nested_within (Suc MAX_LITERAL_DEPTH - level) v"
  "check_literals_walk path name vs level = Ok u \<Longrightarrow> level \<le> Suc MAX_LITERAL_DEPTH \<Longrightarrow>
     list_all (nested_within (Suc MAX_LITERAL_DEPTH - level)) vs"
  "check_members_walk path name m level = Ok u \<Longrightarrow> level \<le> Suc MAX_LITERAL_DEPTH \<Longrightarrow>
     list_all (\<lambda>e. nested_within (Suc MAX_LITERAL_DEPTH - level) (snd e)) m"
  by (induction path name v level and path name vs level and path name m level
      rule: check_literal_walk_check_literals_walk_check_members_walk.induct)
    (auto split: if_splits sum.splits simp: less_Suc_eq_le Suc_diff_le)

end
