(* ===== verification/Filter_Normal.thy ===== *)
theory Filter_Normal
  imports Filter_Limits
begin

text \<open>
  The normal form: parsing it again gives the same tree and the same normal form, with no
  more nodes than the source, at the same depth and for any map order of its text.
\<close>

section \<open>Nodes of a compiled filter\<close>

fun node_cost :: "node \<Rightarrow> nat" and op_cost :: "op \<Rightarrow> nat" where
  "node_cost (AndN nodes) = sum_list (map node_cost nodes)"
| "node_cost (OrN nodes) = 1 + sum_list (map node_cost nodes)"
| "node_cost (NotN n) = 1 + node_cost n"
| "node_cost (PathN p ops) = sum_list (map op_cost ops)"
| "op_cost (OpAny (AnyOps ops)) = 1 + sum_list (map op_cost ops)"
| "op_cost (OpAny (AnyFilter n)) = 1 + node_cost n"
| "op_cost _ = 1"

abbreviation clause_cost :: "clause \<Rightarrow> nat" where
  "clause_cost c \<equiv> node_cost (cl_node c)"

section \<open>The clauses of a normal form\<close>

definition normal_clauses :: "clause list \<Rightarrow> clause list" where
  "normal_clauses cs =
     dedup_by (\<lambda>a b. clause_order a = clause_order b) (sort_key clause_order cs)"

lemma finish_eq:
  "finish cs =
     (AndN (map cl_node (normal_clauses cs)),
      if cs = [] then Object []
      else Object [(''$and'',
             Array (map (\<lambda>c. Object [(cl_key c, cl_operand c)]) (normal_clauses cs)))])"
  by (auto simp: finish_def normal_clauses_def Let_def)

lemma normal_clauses_strict: "sorted_wrt (<) (map clause_order (normal_clauses cs))"
  unfolding normal_clauses_def by (rule dedup_by_sorted) simp

lemma normal_clauses_idem: "normal_clauses (normal_clauses cs) = normal_clauses cs"
  using normal_clauses_strict [of cs] dedup_by_strict [of clause_order "normal_clauses cs"]
  by (simp only: normal_clauses_def [of "normal_clauses cs"] sort_key_strict)

lemma set_normal_clauses: "set (normal_clauses cs) \<subseteq> set cs"
  using set_dedup_by [of _ "sort_key clause_order cs"] by (simp add: normal_clauses_def)

lemma normal_clauses_Nil [simp]: "normal_clauses cs = [] \<longleftrightarrow> cs = []"
  by (simp add: normal_clauses_def)

lemma normal_clauses_empty [simp]: "normal_clauses [] = []"
  by simp

lemma normal_clauses_cost:
  "sum_list (map clause_cost (normal_clauses cs)) \<le> sum_list (map clause_cost cs)"
  unfolding normal_clauses_def
  by (rule order_trans [OF sum_list_dedup_by_le]) (simp add: sum_list_sort_key)

section \<open>What parsing the normal form again gives\<close>

definition budget_ok :: "nat \<Rightarrow> nat \<Rightarrow> nat \<Rightarrow> bool" where
  "budget_ok nodes cost nodes' \<longleftrightarrow> nodes + cost \<le> nodes' \<and> nodes' \<le> max nodes MAX_NODES"

text \<open>
  A filter nests four containers per filter level (itself, its clause list, a clause and the
  operand), and at most 33 in an operand: the items of a set are literals.
\<close>

definition normal_depth :: "nat \<Rightarrow> nat" where
  "normal_depth depth = 4 * (MAX_DEPTH - depth) + 5 + MAX_LITERAL_DEPTH"

definition filter_stable :: "(json \<Rightarrow> string) \<Rightarrow> nat \<Rightarrow> bool \<Rightarrow> node \<times> json \<Rightarrow> bool" where
  "filter_stable leaf depth in_any = (\<lambda>(n, norm).
     depth \<le> MAX_DEPTH \<and> json_wf norm \<and> nested_within (normal_depth depth) norm \<and>
     node_scoped in_any n \<and> (norm = Object [] \<or> (\<exists>v. norm = Object [(''$and'', v)])) \<and>
     (\<forall>b. b + node_cost n \<le> MAX_NODES \<longrightarrow>
        parse_filter leaf norm depth in_any b = Ok ((n, norm), b + node_cost n)))"

definition clause_stable :: "(json \<Rightarrow> string) \<Rightarrow> nat \<Rightarrow> bool \<Rightarrow> clause \<Rightarrow> bool" where
  "clause_stable leaf depth in_any c \<longleftrightarrow>
     json_wf (cl_operand c) \<and> nested_within (normal_depth depth - 3) (cl_operand c) \<and>
     node_scoped in_any (cl_node c) \<and> cl_operand_json c = write_canonical leaf (cl_operand c) \<and>
     (\<forall>b pending entries out. b + clause_cost c \<le> MAX_NODES \<longrightarrow>
        collect_clauses leaf pending ((cl_key c, cl_operand c) # entries) depth in_any b out =
        collect_clauses leaf pending entries depth in_any (b + clause_cost c) (out @ [c]))"

definition ops_stable ::
    "(json \<Rightarrow> string) \<Rightarrow> string \<Rightarrow> nat \<Rightarrow> object \<Rightarrow> op list \<times> json \<Rightarrow> bool" where
  "ops_stable leaf path depth m = (\<lambda>(ops, norm).
     json_wf norm \<and> nested_within (normal_depth depth - 3) norm \<and> list_all op_scoped ops \<and>
     (\<exists>enc. norm = Object enc \<and> map_keys enc = map_keys m \<and>
        (\<forall>b. b + sum_list (map op_cost ops) \<le> MAX_NODES \<longrightarrow>
           parse_operators leaf path enc depth b = Ok ((ops, norm), b + sum_list (map op_cost ops)))))"

definition each_stable ::
    "(json \<Rightarrow> string) \<Rightarrow> string \<Rightarrow> nat \<Rightarrow> object \<Rightarrow> (string \<times> op \<times> json) list \<Rightarrow> bool" where
  "each_stable leaf path depth m parsed \<longleftrightarrow>
     map fst parsed = map_keys m \<and> 
     list_all (\<lambda>(name, op, norm).
       json_wf norm \<and> nested_within (normal_depth depth - 4) norm \<and> op_scoped op) parsed \<and>
     (\<forall>b. b + sum_list (map (\<lambda>(name, op, norm). op_cost op) parsed) \<le> MAX_NODES \<longrightarrow>
        parse_each_operator leaf path (map (\<lambda>(name, op, norm). (name, norm)) parsed) depth b =
        Ok (parsed, b + sum_list (map (\<lambda>(name, op, norm). op_cost op) parsed)))"

definition op_stable ::
    "(json \<Rightarrow> string) \<Rightarrow> string \<Rightarrow> string \<Rightarrow> nat \<Rightarrow> op \<times> json \<Rightarrow> bool" where
  "op_stable leaf path name depth = (\<lambda>(op, norm).
     json_wf norm \<and> nested_within (normal_depth depth - 4) norm \<and> op_scoped op \<and>
     (\<forall>b. b + op_cost op \<le> Suc MAX_NODES \<longrightarrow>
        parse_operator leaf path name norm depth b = Ok ((op, norm), b + op_cost op - 1)))"

lemma op_cost_pos: "0 < op_cost op"
  by (cases op rule: op_cost.cases) auto

lemma scalar_cost: "parse_scalar_operator path name operand = Ok op \<Longrightarrow> op_cost op = 1"
  by (auto simp: parse_scalar_operator_def split: if_splits sum.splits json.splits)

lemma scalar_scoped: "parse_scalar_operator path name operand = Ok op \<Longrightarrow> op_scoped op"
  by (auto simp: parse_scalar_operator_def split: if_splits sum.splits json.splits)

lemma bound_of_depth: "bound_of path name operand = Ok b \<Longrightarrow> nested_within n operand"
  by (auto simp: bound_of_def split: json.splits)

lemma scalar_depth:
  assumes "parse_scalar_operator path name operand = Ok op"
  shows "nested_within (Suc MAX_LITERAL_DEPTH) operand"
proof -
  have "nested_within (Suc MAX_LITERAL_DEPTH) operand" if "check_literal path name operand = Ok u" for u
    using check_literal_walk_depth(1) [of path name operand 1] that nested_within_mono
    by (fastforce simp: check_literal_def)
  moreover have "list_all (nested_within MAX_LITERAL_DEPTH) vs" if "check_literals_walk path name vs 1 = Ok u" for vs u
    using check_literal_walk_depth(2) [OF that] by simp
  ultimately show ?thesis
    using assms
    by (auto simp: parse_scalar_operator_def bound_of_depth split: if_splits sum.splits json.splits)
qed

lemma normal_depth_gt: "4 + MAX_LITERAL_DEPTH < normal_depth depth"
  by (simp add: normal_depth_def)

lemma normal_depth_Suc:
  "depth < MAX_DEPTH \<Longrightarrow> normal_depth depth = normal_depth (Suc depth) + 4"
  by (simp add: normal_depth_def)

lemma nested_within_sub: "nested_within (n - a) v \<Longrightarrow> nested_within n v"
  by (erule nested_within_mono) simp

text \<open>One step: the loop over a list of single-clause objects collects those clauses.\<close>

lemma collect_stable:
  "list_all (clause_stable leaf depth in_any) cs \<Longrightarrow>
   b + sum_list (map clause_cost cs) \<le> MAX_NODES \<Longrightarrow>
   collect_clauses leaf (map (\<lambda>c. Object [(cl_key c, cl_operand c)]) cs) [] depth in_any b out =
   Ok (out @ cs, b + sum_list (map clause_cost cs))"
  by (induction cs arbitrary: b out) (auto simp: clause_stable_def)

lemma filter_stable_finish:
  assumes "depth \<le> MAX_DEPTH" and "list_all (clause_stable leaf depth in_any) cs"
  shows "filter_stable leaf depth in_any (finish cs)"
proof -
  define ns where "ns = normal_clauses cs"
  have st: "list_all (clause_stable leaf depth in_any) ns"
    using assms(2) set_normal_clauses [of cs] by (auto simp: list_all_iff ns_def)
  have fin: "finish ns = finish cs"
    by (simp add: finish_eq ns_def normal_clauses_idem)
  have wf: "json_wf (snd (finish cs))"
    using st by (auto simp: finish_eq ns_def [symmetric] list_all_iff clause_stable_def map_sorted_Cons)
  have "parse_filter leaf (snd (finish cs)) depth in_any b =
        Ok (finish cs, b + sum_list (map clause_cost ns))"
    if b: "b + sum_list (map clause_cost ns) \<le> MAX_NODES" for b
  proof (cases "cs = []")
    case True
    then show ?thesis using assms(1) by (simp add: parse_filter.simps finish_eq ns_def)
  next
    case False
    have "collect_clauses leaf [snd (finish cs)] [] depth in_any b [] =
          Ok (ns, b + sum_list (map clause_cost ns))"
      using collect_stable [OF st b, of "[]"] False
      by (simp add: finish_eq ns_def [symmetric] filter_list_def) (simp add: ns_def)
    then show ?thesis using assms(1) by (simp add: parse_filter.simps fin)
  qed
  moreover have "nested_within (normal_depth depth) (snd (finish cs))"
    "node_scoped in_any (fst (finish cs))"
    using st normal_depth_gt [of depth]
    by (auto simp: finish_eq ns_def [symmetric] list_all_iff clause_stable_def numeral_3_eq_3
        simp del: collect_clauses.simps)
  ultimately show ?thesis
    using wf assms(1)
    by (auto simp: filter_stable_def finish_eq ns_def [symmetric] comp_def split: if_splits)
qed

lemma take_node_Ok [simp]: "b < MAX_NODES \<Longrightarrow> take_node b = Ok (Suc b)"
  by (simp add: take_node_def)

lemma take_node_OkD: "take_node b = Ok b' \<Longrightarrow> b' = Suc b \<and> b < MAX_NODES"
  by (auto simp: take_node_def split: if_splits)

lemma filters_stable:
  "list_all (filter_stable leaf depth in_any) ps \<Longrightarrow>
   b + sum_list (map (node_cost \<circ> fst) ps) \<le> MAX_NODES \<Longrightarrow>
   parse_filters leaf (map snd ps) depth in_any b = Ok (ps, b + sum_list (map (node_cost \<circ> fst) ps))"
  by (induction ps arbitrary: b) (auto simp: filter_stable_def)

lemma clause_stable_or:
  assumes "ps \<noteq> []" and "list_all (filter_stable leaf (depth + 1) in_any) ps"
  shows "clause_stable leaf depth in_any
           (clause_new leaf ''$or'' (Array (map snd ps)) (OrN (map fst ps)))"
proof -
  have d: "depth < MAX_DEPTH"
    using assms by (cases ps) (auto simp: filter_stable_def)
  have "list_all json_wf (map snd ps)" "list_all (nested_within (normal_depth depth - 4)) (map snd ps)"
    "list_all (node_scoped in_any) (map fst ps)"
    using assms(2) normal_depth_Suc [OF d] by (auto simp: list_all_iff filter_stable_def)
  then show ?thesis
    using assms normal_depth_gt [of depth] filters_stable [OF assms(2)]
    by (simp add: clause_stable_def clause_new_def filter_list_def)
qed

lemma clause_stable_not:
  assumes "filter_stable leaf (depth + 1) in_any (n, norm)"
  shows "clause_stable leaf depth in_any (clause_new leaf ''$not'' norm (NotN n))"
proof -
  have "depth < MAX_DEPTH" using assms by (simp add: filter_stable_def)
  then have "nested_within (normal_depth depth - 3) norm"
    using assms normal_depth_Suc [of depth] nested_within_mono by (fastforce simp: filter_stable_def)
  then show ?thesis
    using assms by (auto simp: clause_stable_def clause_new_def filter_stable_def)
qed

lemma clause_stable_path:
  assumes "k \<notin> {''$and'', ''$or'', ''$not''}" and "\<not> is_value_operator k" and "\<not> starts_with k ''$''"
    and "path_parse k in_any = Ok p" and "m \<noteq> []" and "list_all (\<lambda>k. starts_with k ''$'') (map_keys m)"
    and "ops_stable leaf k depth m (ops, operand)"
  shows "clause_stable leaf depth in_any (clause_new leaf k operand (PathN p ops))"
proof -
  from assms(7) obtain enc where operand: "operand = Object enc" "json_wf operand"
    "nested_within (normal_depth depth - 3) operand" "list_all op_scoped ops"
    and keys: "map_keys enc = map_keys m"
    and re: "\<And>b. b + sum_list (map op_cost ops) \<le> MAX_NODES \<Longrightarrow>
      parse_operators leaf k enc depth b = Ok ((ops, operand), b + sum_list (map op_cost ops))"
    by (auto simp: ops_stable_def)
  have "enc \<noteq> []" "\<not> list_ex (\<lambda>k. \<not> starts_with k ''$'') (map_keys enc)"
    using assms(5,6) keys by (auto simp: list_all_iff list_ex_iff)
  moreover have "path_root p = Element \<longleftrightarrow> in_any"
    using path_parse_ok [OF assms(4)] by (simp add: path_ok_def)
  ultimately show ?thesis using assms operand re
    by (simp add: clause_stable_def clause_new_def parse_operator_object.simps)
qed

lemma fold_map_insert_sorted:
  "map_sorted (acc @ es) \<Longrightarrow> fold (\<lambda>(k, v). map_insert k v) es acc = acc @ es"
proof (induction es arbitrary: acc)
  case (Cons e es)
  have "map_insert (fst e) (snd e) acc = acc @ [e]" if "map_sorted (acc @ [e])"
    using that by (induction acc) (auto simp: map_sorted_Cons)
  moreover have "map_sorted (acc @ [e])"
    using Cons.prems by (simp add: map_sorted_def sorted_wrt_append)
  ultimately show ?case using Cons by (simp add: case_prod_beta)
qed simp

lemma ops_stable_each:
  assumes "each_stable leaf path depth m parsed" and "map_sorted m"
  shows "ops_stable leaf path depth m
    (map (\<lambda>(name, op, normalized). op) (sort_key fst parsed),
     Object (fold (\<lambda>(name, op, normalized). map_insert name normalized) (sort_key fst parsed) []))"
proof -
  define enc where "enc = map (\<lambda>(name, op, norm). (name, norm)) parsed"
  have keys: "map fst parsed = map_keys m" "map_keys enc = map_keys m"
    using assms(1) by (auto simp: each_stable_def enc_def comp_def case_prod_beta)
  then have sorted: "sort_key fst parsed = parsed" "map_sorted enc"
    using assms(2) by (simp_all add: sort_key_strict map_sorted_def)
  have fold: "fold (\<lambda>(name, op, normalized). map_insert name normalized) parsed [] = enc"
    using fold_map_insert_sorted [of "[]" enc] sorted(2)
    by (simp add: enc_def fold_map comp_def split_def)
  have wf: "json_wf (Object enc)" "nested_within (normal_depth depth - 3) (Object enc)"
    "list_all op_scoped (map (\<lambda>(name, op, norm). op) parsed)"
    using assms(1) sorted(2) normal_depth_gt [of depth] by (auto simp: each_stable_def enc_def list_all_iff case_prod_beta)
  have cost: "sum_list (map op_cost (map (\<lambda>(name, op, norm). op) parsed)) =
      sum_list (map (\<lambda>(name, op, norm). op_cost op) parsed)"
    by (simp add: comp_def split_def)
  have "parse_operators leaf path enc depth b = Ok ((map (\<lambda>(name, op, norm). op) parsed, Object enc),
          b + sum_list (map op_cost (map (\<lambda>(name, op, norm). op) parsed)))"
    if "b + sum_list (map op_cost (map (\<lambda>(name, op, norm). op) parsed)) \<le> MAX_NODES" for b
  proof -
    have "parse_each_operator leaf path enc depth b =
        Ok (parsed, b + sum_list (map (\<lambda>(name, op, norm). op_cost op) parsed))"
      using that assms(1) unfolding each_stable_def enc_def cost by blast
    then show ?thesis
      unfolding parse_operators.simps cost by (simp add: sorted(1) fold)
  qed
  with wf keys show ?thesis
    by (simp add: ops_stable_def sorted(1) fold)
qed

lemma each_stable_Nil: "each_stable leaf path depth [] []"
  by (simp add: each_stable_def)

lemma each_stable_Cons:
  assumes "op_stable leaf path name depth (op, norm)" and "each_stable leaf path depth m parsed"
  shows "each_stable leaf path depth ((name, operand) # m) ((name, op, norm) # parsed)"
  using assms op_cost_pos [of op] by (auto simp: each_stable_def op_stable_def)

lemma op_stable_scalar:
  "name \<noteq> ''$any'' \<Longrightarrow> parse_scalar_operator path name operand = Ok op \<Longrightarrow> json_wf operand \<Longrightarrow>
   op_stable leaf path name depth (op, operand)"
  using nested_within_mono [OF scalar_depth, of path name operand op "normal_depth depth - 4"]
    normal_depth_gt [of depth]
  by (simp add: op_stable_def parse_operator.simps scalar_cost scalar_scoped)

lemma op_stable_any_ops:
  assumes "depth < MAX_DEPTH" and "m \<noteq> []" and "list_all is_value_operator (map_keys m)"
    and "ops_stable leaf path (depth + 1) m (ops, norm)"
  shows "op_stable leaf path ''$any'' depth (OpAny (AnyOps ops), norm)"
proof -
  from assms(4) obtain enc where norm: "norm = Object enc" "json_wf norm"
    "nested_within (normal_depth (depth + 1) - 3) norm" "list_all op_scoped ops"
    and keys: "map_keys enc = map_keys m"
    and re: "\<And>b. b + sum_list (map op_cost ops) \<le> MAX_NODES \<Longrightarrow>
      parse_operators leaf path enc (depth + 1) b = Ok ((ops, norm), b + sum_list (map op_cost ops))"
    by (auto simp: ops_stable_def)
  have "enc \<noteq> []" "list_all is_value_operator (map_keys enc)" using assms(2,3) keys by auto
  moreover have "nested_within (normal_depth depth - 4) norm"
    using norm(3) normal_depth_Suc [OF assms(1)] nested_within_sub by simp
  ultimately show ?thesis using assms(1) norm re
    by (simp add: op_stable_def parse_operator.simps parse_any.simps)
qed

lemma op_stable_any_filter:
  assumes "depth < MAX_DEPTH" and "filter_stable leaf (depth + 1) True (n, norm)"
  shows "op_stable leaf path ''$any'' depth (OpAny (AnyFilter n), norm)"
  using assms normal_depth_Suc [OF assms(1)]
  by (auto simp: op_stable_def parse_operator.simps parse_any.simps filter_stable_def
      is_value_operator_def)

section \<open>Parsing is idempotent on its normal form\<close>

lemma budget_ok_refl [simp]: "budget_ok b 0 b"
  by (simp add: budget_ok_def)

lemma budget_ok_add:
  "budget_ok a x b \<Longrightarrow> budget_ok b y c \<Longrightarrow> budget_ok a (x + y) c"
  by (auto simp: budget_ok_def max_def split: if_splits)

lemma budget_ok_take: "take_node b = Ok b' \<Longrightarrow> budget_ok b' x c \<Longrightarrow> budget_ok b (Suc x) c"
  by (auto simp: budget_ok_def dest!: take_node_OkD)

lemma budget_ok_le: "budget_ok a x b \<Longrightarrow> y \<le> x \<Longrightarrow> budget_ok a y b"
  by (simp add: budget_ok_def)

lemma clause_collected:
  assumes "clause_stable leaf depth in_any c" and "budget_ok nodes (clause_cost c) b'"
    and "\<exists>new. cs = (out @ [c]) @ new \<and> list_all (clause_stable leaf depth in_any) new \<and>
           budget_ok b' (sum_list (map clause_cost new)) nodes'"
  shows "\<exists>new. cs = out @ new \<and> list_all (clause_stable leaf depth in_any) new \<and>
           budget_ok nodes (sum_list (map clause_cost new)) nodes'"
proof -
  from assms(3) obtain new where "cs = out @ c # new" "list_all (clause_stable leaf depth in_any) new"
    "budget_ok b' (sum_list (map clause_cost new)) nodes'" by auto
  with assms(1,2) show ?thesis
    by (intro exI [of _ "c # new"]) (auto intro: budget_ok_add)
qed

lemma reparse:
  "parse_filter leaf src depth in_any nodes = Ok (r, nodes') \<Longrightarrow> json_wf src \<Longrightarrow>
   filter_stable leaf depth in_any r \<and> budget_ok nodes (node_cost (fst r)) nodes'"
  "collect_clauses leaf pending entries depth in_any nodes out = Ok (cs, nodes') \<Longrightarrow>
   depth \<le> MAX_DEPTH \<Longrightarrow> list_all json_wf pending \<Longrightarrow> list_all (json_wf \<circ> snd) entries \<Longrightarrow>
   \<exists>new. cs = out @ new \<and> list_all (clause_stable leaf depth in_any) new \<and>
     budget_ok nodes (sum_list (map clause_cost new)) nodes'"
  "parse_filters leaf items depth in_any nodes = Ok (ps, nodes') \<Longrightarrow> list_all json_wf items \<Longrightarrow>
   length ps = length items \<and> list_all (filter_stable leaf depth in_any) ps \<and>
   budget_ok nodes (sum_list (map (node_cost \<circ> fst) ps)) nodes'"
  "parse_operator_object leaf path v depth nodes = Ok (q, nodes') \<Longrightarrow> json_wf v \<Longrightarrow>
   \<exists>m. v = Object m \<and> m \<noteq> [] \<and> list_all (\<lambda>k. starts_with k ''$'') (map_keys m) \<and>
     ops_stable leaf path depth m q \<and> budget_ok nodes (sum_list (map op_cost (fst q))) nodes'"
  "parse_operators leaf path m depth nodes = Ok (q, nodes') \<Longrightarrow> json_wf (Object m) \<Longrightarrow>
   ops_stable leaf path depth m q \<and> budget_ok nodes (sum_list (map op_cost (fst q))) nodes'"
  "parse_each_operator leaf path m depth nodes = Ok (parsed, nodes') \<Longrightarrow>
   list_all (json_wf \<circ> snd) m \<Longrightarrow>
   each_stable leaf path depth m parsed \<and>
   budget_ok nodes (sum_list (map (\<lambda>(name, op, norm). op_cost op) parsed)) nodes'"
  "parse_operator leaf path name operand depth nodes = Ok (o1, nodes') \<Longrightarrow> json_wf operand \<Longrightarrow>
   op_stable leaf path name depth o1 \<and> budget_ok nodes (op_cost (fst o1) - 1) nodes'"
  "parse_any leaf path operand depth nodes = Ok (o1, nodes') \<Longrightarrow> json_wf operand \<Longrightarrow>
   op_stable leaf path ''$any'' depth o1 \<and> budget_ok nodes (op_cost (fst o1) - 1) nodes'"
proof (induction leaf src depth in_any nodes and leaf pending entries depth in_any nodes out
    and leaf items depth in_any nodes and leaf path v depth nodes and leaf path m depth nodes
    and leaf path m depth nodes and leaf path name operand depth nodes
    and leaf path operand depth nodes
    arbitrary: r nodes' and cs nodes' and ps nodes' and q nodes' and q nodes' and parsed nodes'
      and o1 nodes' and o1 nodes'
    rule: parser_induct)
  case (1 leaf src depth in_any nodes)
  from 1(2) obtain cs where d: "depth \<le> MAX_DEPTH" and r: "r = finish cs"
    and cs: "collect_clauses leaf [src] [] depth in_any nodes [] = Ok (cs, nodes')"
    by (rule parse_filter_OkE)
  from 1(1) [OF _ cs] 1(3) d have st: "list_all (clause_stable leaf depth in_any) cs"
    and b: "budget_ok nodes (sum_list (map clause_cost cs)) nodes'"
    by simp_all
  have "filter_stable leaf depth in_any r"
    unfolding r using d st by (rule filter_stable_finish)
  moreover have "node_cost (fst r) \<le> sum_list (map clause_cost cs)"
    using normal_clauses_cost [of cs] by (simp add: r finish_eq comp_def)
  ultimately show ?case using b by (blast intro: budget_ok_le)
next
  case (2 leaf depth in_any nodes out)
  then show ?case by simp
next
  case (3 leaf src pending depth in_any nodes out)
  from 3(2) show ?case
    by (rule collect_object_OkE) (use 3 in \<open>simp add: comp_def\<close>)
next
  case (4 leaf pending k v entries depth in_any nodes out)
  note collected = clause_collected
  from 4(8) show ?case
  proof (cases rule: collect_entry_OkE)
    case (and_list items)
    with 4(1) [of items] 4(9-) show ?thesis by (simp add: filter_list_Ok)
  next
    case (or_list b items ps b')
    from 4(2) [OF _ _ or_list(2) _ or_list(5)] or_list 4(11)
    have ps: "length ps = length items" "list_all (filter_stable leaf (depth + 1) in_any) ps"
      "budget_ok b (sum_list (map (node_cost \<circ> fst) ps)) b'"
      by (simp_all add: filter_list_Ok comp_def)
    from 4(3) [OF _ _ or_list(2) _ or_list(5) refl or_list(6)] or_list 4(9-) ps
    show ?thesis
      by (intro collected [OF clause_stable_or]) (auto simp: filter_list_Ok clause_new_def comp_def intro: budget_ok_take)
  next
    case (negated b n norm b')
    from 4(4) [OF _ _ _ negated(2) _ negated(4)] negated 4(11)
    have n: "filter_stable leaf (depth + 1) in_any (n, norm)" "budget_ok b (node_cost n) b'"
      by simp_all
    from 4(5) [OF _ _ _ negated(2) _ negated(4) refl refl negated(5)] negated 4(9-) n
    show ?thesis
      by (intro collected [OF clause_stable_not]) (auto simp: clause_new_def intro: budget_ok_take)
  next
    case (at_path p ops operand b')
    from 4(6) [OF at_path(1-7)] 4(11)
    obtain m where m: "v = Object m" "m \<noteq> []" "list_all (\<lambda>k. starts_with k ''$'') (map_keys m)"
      "ops_stable leaf k depth m (ops, operand)"
      and b: "budget_ok nodes (sum_list (map op_cost ops)) b'"
      by auto
    have "clause_stable leaf depth in_any (clause_new leaf k operand (PathN p ops))"
      using at_path m by (intro clause_stable_path) simp_all
    with 4(7) [OF at_path(1-7) refl refl at_path(8)] 4(9-) b show ?thesis
      by (intro collected) (auto simp: clause_new_def)
  qed
next
  case (5 leaf depth in_any nodes)
  then show ?case by simp
next
  case (6 leaf item items depth in_any nodes)
  from 6(3) show ?case
  proof (rule parse_filters_OkE)
    fix r b rs
    assume *: "ps = r # rs" "parse_filter leaf item depth in_any nodes = Ok (r, b)"
      "parse_filters leaf items depth in_any b = Ok (rs, nodes')"
    from 6(1) [OF *(2)] 6(2) [OF *(2) refl *(3)] 6(4) *(1) show ?case
      by (auto intro: budget_ok_add)
  qed
next
  case (7 leaf path v depth nodes)
  from 7(2) show ?case
    by (rule parse_operator_object_OkE) (use 7(1,3) in \<open>auto simp: list_all_iff list_ex_iff\<close>)
next
  case (8 leaf path m depth nodes)
  from 8(2) obtain parsed where *: "parse_each_operator leaf path m depth nodes = Ok (parsed, nodes')"
    "q = (map (\<lambda>(name, op, normalized). op) (sort_key fst parsed),
          Object (fold (\<lambda>(name, op, normalized). map_insert name normalized) (sort_key fst parsed) []))"
    by (rule parse_operators_OkE)
  from 8(1) [OF *(1)] 8(3) have st: "each_stable leaf path depth m parsed"
    and b: "budget_ok nodes (sum_list (map (\<lambda>(name, op, norm). op_cost op) parsed)) nodes'"
    by (simp_all add: comp_def)
  have "sort_key fst parsed = parsed"
    using st 8(3) by (simp add: each_stable_def sort_key_strict map_sorted_def)
  moreover have "ops_stable leaf path depth m q"
    unfolding *(2) using st 8(3) by (intro ops_stable_each) simp_all
  ultimately show ?case
    using b by (simp add: *(2) comp_def split_def)
next
  case (9 leaf path depth nodes)
  then show ?case by (simp add: each_stable_Nil)
next
  case (10 leaf path name operand m depth nodes)
  from 10(3) show ?case
  proof (rule parse_each_operator_OkE)
    fix b op norm b' rest
    assume *: "parsed = (name, op, norm) # rest" "take_node nodes = Ok b"
      "parse_operator leaf path name operand depth b = Ok ((op, norm), b')"
      "parse_each_operator leaf path m depth b' = Ok (rest, nodes')"
    from 10(1) [OF *(2,3)] 10(2) [OF *(2,3) refl refl *(4)] 10(4)
    have s: "op_stable leaf path name depth (op, norm)" "each_stable leaf path depth m rest"
      and b: "budget_ok b (op_cost op - 1) b'"
        "budget_ok b' (sum_list (map (\<lambda>(name, op, norm). op_cost op) rest)) nodes'"
      by simp_all
    have "budget_ok nodes (Suc (op_cost op - 1)) b'"
      using *(2) b(1) by (rule budget_ok_take)
    with b(2) s op_cost_pos [of op] show ?case
      by (simp add: *(1) each_stable_Cons budget_ok_add)
  qed
next
  case (11 leaf path name operand depth nodes)
  from 11(2) show ?case
    by (cases rule: parse_operator_OkE) (use 11(1,3) in \<open>auto simp: op_stable_scalar scalar_cost\<close>)
next
  case (12 leaf path operand depth nodes)
  from 12(3) show ?case
  proof (cases rule: parse_any_OkE)
    case (ops m ops norm)
    with 12(1) [of m] 12(4) show ?thesis by (auto intro: op_stable_any_ops)
  next
    case (filter m n norm)
    with 12(2) [of m] 12(4) show ?thesis by (auto intro: op_stable_any_filter)
  qed
qed

end
