(* ===== verification/Filter_Semantics.thy ===== *)
theory Filter_Semantics
  imports Filter_Normal
begin

text \<open>
  What a filter means, read off the filter as written, and that the compiled tree computes
  it: flattening \<open>$and\<close>, sorting the clauses and dropping the ones whose canonical text is
  repeated change nothing.
\<close>

section \<open>The meaning of a filter\<close>

text \<open>
  The operators of \<open>filters.md\<close> on a value that may be absent.  \<open>ordered\<close> holds when both
  are numbers or both are strings and the comparison gives one of the listed results.
\<close>

definition ordered :: "ordering set \<Rightarrow> json option \<Rightarrow> json \<Rightarrow> bool" where
  "ordered S v operand =
     (case (v, operand) of
        (Some (Number a), Number b) \<Rightarrow> \<exists>c \<in> S. f64_partial_cmp (as_f64 a) (as_f64 b) = Some c
      | (Some (String a), String b) \<Rightarrow> str_cmp a b \<in> S
      | _ \<Rightarrow> False)"

definition equal_to :: "json option \<Rightarrow> json \<Rightarrow> bool" where
  "equal_to v l = (case v of None \<Rightarrow> False | Some x \<Rightarrow> json_eq x l)"

definition one_of :: "json option \<Rightarrow> json \<Rightarrow> bool" where
  "one_of v operand = (case operand of Array ls \<Rightarrow> \<exists>l \<in> set ls. equal_to v l | _ \<Rightarrow> False)"

definition scalar_meaning :: "string \<Rightarrow> json \<Rightarrow> json option \<Rightarrow> bool" where
  "scalar_meaning name operand v =
     (if name = ''$eq'' then equal_to v operand
      else if name = ''$ne'' then \<not> equal_to v operand
      else if name = ''$in'' then one_of v operand
      else if name = ''$nin'' then \<not> one_of v operand
      else if name = ''$gt'' then ordered {Greater} v operand
      else if name = ''$gte'' then ordered {Greater, Equal} v operand
      else if name = ''$lt'' then ordered {Less} v operand
      else if name = ''$lte'' then ordered {Less, Equal} v operand
      else if name = ''$exists'' then operand = Bool (v \<noteq> None)
      else (\<exists>pre s. operand = String pre \<and> v = Some (String s) \<and> prefix pre s))"

function filter_meaning :: "json \<Rightarrow> doc \<Rightarrow> json option \<Rightarrow> bool"
and clause_meaning :: "string \<Rightarrow> json \<Rightarrow> doc \<Rightarrow> json option \<Rightarrow> bool"
and op_meaning :: "string \<Rightarrow> json \<Rightarrow> json option \<Rightarrow> doc \<Rightarrow> bool" where
  "filter_meaning src d element =
     (case src of Object m \<Rightarrow> \<forall>(k, v) \<in> set m. clause_meaning k v d element | _ \<Rightarrow> False)"
| "clause_meaning k v d element =
     (if k = ''$and'' then
        (case v of Array items \<Rightarrow> \<forall>item \<in> set items. filter_meaning item d element | _ \<Rightarrow> False)
      else if k = ''$or'' then
        (case v of Array items \<Rightarrow> \<exists>item \<in> set items. filter_meaning item d element | _ \<Rightarrow> False)
      else if k = ''$not'' then \<not> filter_meaning v d element
      else
        (case (path_parse k (element \<noteq> None), v) of
           (Ok p, Object m) \<Rightarrow>
             \<forall>(name, operand) \<in> set m. op_meaning name operand (path_resolve p d element) d
         | _ \<Rightarrow> False))"
| "op_meaning name operand v d =
     (if name = ''$any'' then
        (case (v, operand) of
           (Some (Array items), Object m) \<Rightarrow>
             \<exists>item \<in> set items.
               if m \<noteq> [] \<and> list_all is_value_operator (map_keys m)
               then \<forall>(name, operand) \<in> set m. op_meaning name operand (Some item) d
               else filter_meaning operand d (Some item)
         | _ \<Rightarrow> False)
      else scalar_meaning name operand v)"
  by pat_completeness auto

termination
  by (relation "measure (case_sum (\<lambda>(src, d, element). 2 * size src)
        (case_sum (\<lambda>(k, v, d, element). 2 * size v + 1) (\<lambda>(name, operand, v, d). 2 * size operand + 1)))")
    (auto dest: size_array_member size_object_member)

declare filter_meaning.simps [simp del] clause_meaning.simps [simp del] op_meaning.simps [simp del]

lemma bound_of_meaning:
  assumes "bound_of path name operand = Ok b"
  shows "(\<exists>c \<in> S. compare v b = Some c) \<longleftrightarrow> ordered S v operand"
  using assms
  by (auto simp: bound_of_def ordered_def number_as_f64_def split: json.splits sum.splits option.splits)

lemma ordered_pair: "ordered {a, b} v operand \<longleftrightarrow> ordered {a} v operand \<or> ordered {b} v operand"
  by (auto simp: ordered_def split: option.splits json.splits)

lemma scalar_matches:
  assumes "parse_scalar_operator path name operand = Ok op"
  shows "op_matches op v d \<longleftrightarrow> scalar_meaning name operand v"
proof -
  have ord: "compare v b = Some c \<longleftrightarrow> ordered {c} v operand"
    if "bound_of path name operand = Ok b" for b c
    using bound_of_meaning [OF that, of "{c}" v] by auto
  show ?thesis
    using assms unfolding parse_scalar_operator_def
    by (auto simp: scalar_meaning_def equal_to_def one_of_def list_ex_iff starts_with_def ord ordered_pair
        split: if_splits sum.splits json.splits option.splits)
qed

section \<open>The canonical text determines the value\<close>

text \<open>
  What the deduplication relies on from the text of strings, numbers, booleans and null: it
  does not start like a container, and two such texts followed by the end of the input or by
  punctuation are equal only when the values and the remaining texts are.
\<close>

definition delimited :: "string \<Rightarrow> bool" where
  "delimited r \<longleftrightarrow> r = [] \<or> hd r \<in> set '',:]}''"

definition leaf_ok :: "(json \<Rightarrow> string) \<Rightarrow> bool" where
  "leaf_ok leaf \<longleftrightarrow>
     (\<forall>v. \<not> is_container v \<longrightarrow> leaf v \<noteq> [] \<and> hd (leaf v) \<notin> set ''[{]},:'') \<and>
     (\<forall>a b r s. \<not> is_container a \<and> \<not> is_container b \<and> json_wf a \<and> json_wf b \<and>
        delimited r \<and> delimited s \<and> leaf a @ r = leaf b @ s \<longrightarrow> a = b \<and> r = s)"

lemma join_with_Cons: "join_with sep (s # ts) = s @ concat (map ((@) sep) ts)"
  by (induction ts arbitrary: s) auto

definition inj_text :: "('a \<Rightarrow> string) \<Rightarrow> 'a \<Rightarrow> 'a \<Rightarrow> bool" where
  "inj_text f x y \<longleftrightarrow>
     (\<forall>r s. delimited r \<and> delimited s \<and> f x @ r = f y @ s \<longrightarrow> x = y \<and> r = s)"

lemma inj_textD: "inj_text f x y \<Longrightarrow> delimited r \<Longrightarrow> delimited s \<Longrightarrow> f x @ r = f y @ s \<Longrightarrow> x = y \<and> r = s"
  by (auto simp: inj_text_def)

lemma concat_inj_text:
  assumes "\<And>x y. x \<in> set xs \<Longrightarrow> y \<in> set ys \<Longrightarrow> inj_text f x y" and "c \<in> set '']}''"
    and "concat (map (\<lambda>x. '','' @ f x) xs) @ c # r = concat (map (\<lambda>x. '','' @ f x) ys) @ c # s"
  shows "xs = ys \<and> r = s"
  using assms
proof (induction xs arbitrary: ys)
  case Nil
  then show ?case by (cases ys) auto
next
  case (Cons x xs)
  then obtain y ys' where ys: "ys = y # ys'" by (cases ys) auto
  let ?t = "\<lambda>zs u. concat (map (\<lambda>x. '','' @ f x) zs) @ c # u"
  have delim: "delimited (?t zs u)" for zs u
    using Cons.prems(2) by (cases zs) (auto simp: delimited_def)
  have "f x @ ?t xs r = f y @ ?t ys' s" using Cons.prems(3) ys by simp
  then have "x = y" "?t xs r = ?t ys' s"
    using inj_textD [OF Cons.prems(1) [of x y] delim delim] ys by auto
  moreover from this(2) have "xs = ys' \<and> r = s"
    using Cons.prems(1,2) ys by (intro Cons.IH) auto
  ultimately show ?case using ys by simp
qed

lemma join_inj_text:
  assumes inj: "\<And>x y. x \<in> set xs \<Longrightarrow> y \<in> set ys \<Longrightarrow> inj_text f x y" and c: "c \<in> set '']}''"
    and ne: "\<And>x. x \<in> set xs \<union> set ys \<Longrightarrow> f x \<noteq> [] \<and> hd (f x) \<noteq> c"
    and eq: "join_with '','' (map f xs) @ c # r = join_with '','' (map f ys) @ c # s"
  shows "xs = ys \<and> r = s"
proof (cases xs; cases ys)
  fix x xs' y ys' assume xs: "xs = x # xs'" and ys: "ys = y # ys'"
  let ?t = "\<lambda>zs u. concat (map (\<lambda>x. '','' @ f x) zs) @ c # u"
  have delim: "delimited (?t zs u)" for zs u
    using c by (cases zs) (auto simp: delimited_def)
  have "f x @ ?t xs' r = f y @ ?t ys' s"
    using eq by (simp add: xs ys join_with_Cons comp_def)
  then have "x = y" "?t xs' r = ?t ys' s"
    using inj_textD [OF inj [of x y] delim delim] xs ys by auto
  moreover from concat_inj_text [OF inj c this(2)] have "xs' = ys' \<and> r = s"
    by (simp add: xs ys)
  ultimately show ?thesis by (simp add: xs ys)
next
  fix y ys' assume "xs = []" "ys = y # ys'"
  then show ?thesis using eq ne [of y] by (cases "f y") (auto simp: join_with_Cons)
next
  fix x xs' assume "xs = x # xs'" "ys = []"
  then show ?thesis using eq ne [of x] by (cases "f x") (auto simp: join_with_Cons)
qed (use eq in simp)

lemma write_canonical_sorted:
  "map_sorted m \<Longrightarrow> write_canonical leaf (Object m) =
     ''{'' @ join_with '','' (map (\<lambda>e. leaf (String (fst e)) @ '':'' @ write_canonical leaf (snd e)) m) @ ''}''"
  by (simp add: sort_key_strict map_sorted_def comp_def split_def)

lemma write_canonical_start:
  "leaf_ok leaf \<Longrightarrow> write_canonical leaf v \<noteq> [] \<and> hd (write_canonical leaf v) \<notin> set '']},:''"
  by (cases v) (auto simp: leaf_ok_def)

lemma leaf_inj_text:
  "leaf_ok leaf \<Longrightarrow> \<not> is_container a \<Longrightarrow> \<not> is_container b \<Longrightarrow> json_wf a \<Longrightarrow> json_wf b \<Longrightarrow> inj_text leaf a b"
  unfolding leaf_ok_def inj_text_def by blast

lemma leaf_text: "\<not> is_container v \<Longrightarrow> write_canonical leaf v = leaf v"
  by (cases v) auto

lemma leaf_okD:
  "leaf_ok leaf \<Longrightarrow> \<not> is_container v \<Longrightarrow> leaf v \<noteq> [] \<and> hd (leaf v) \<notin> set ''[{]},:''"
  unfolding leaf_ok_def by blast

lemma write_canonical_hd:
  assumes "leaf_ok leaf"
  shows "hd (write_canonical leaf v) = CHR ''['' \<longleftrightarrow> (\<exists>vs. v = Array vs)"
    and "hd (write_canonical leaf v) = CHR ''{'' \<longleftrightarrow> (\<exists>m. v = Object m)"
  using leaf_okD [OF assms, of v] by (cases v; simp)+

lemma write_canonical_same_shape:
  assumes "leaf_ok leaf" and "write_canonical leaf a @ r = write_canonical leaf b @ s"
  shows "(\<exists>vs. a = Array vs) \<longleftrightarrow> (\<exists>vs. b = Array vs)" and "(\<exists>m. a = Object m) \<longleftrightarrow> (\<exists>m. b = Object m)"
proof -
  have "hd (write_canonical leaf a) = hd (write_canonical leaf b)"
    using assms(2) write_canonical_start [OF assms(1)] by (metis hd_append2)
  then show "(\<exists>vs. a = Array vs) \<longleftrightarrow> (\<exists>vs. b = Array vs)" "(\<exists>m. a = Object m) \<longleftrightarrow> (\<exists>m. b = Object m)"
    using write_canonical_hd [OF assms(1)] by metis+
qed

lemma write_canonical_leaf_inj:
  assumes "leaf_ok leaf" and "\<not> is_container a" and "json_wf a" and "json_wf b"
  shows "inj_text (write_canonical leaf) a b"
proof (cases "is_container b")
  case True
  then have "write_canonical leaf a @ r \<noteq> write_canonical leaf b @ s" for r s
    using write_canonical_same_shape [OF assms(1), of a r b s] assms(2) by (cases a; cases b) auto
  then show ?thesis by (simp add: inj_text_def)
next
  case False
  with leaf_inj_text [OF assms(1,2) False assms(3,4)] assms(2) show ?thesis
    by (simp add: inj_text_def leaf_text)
qed

lemma entry_inj_text:
  assumes "leaf_ok leaf" and "inj_text (write_canonical leaf) (snd x) (snd y)"
  shows "inj_text (\<lambda>e. leaf (String (fst e)) @ '':'' @ write_canonical leaf (snd e)) x y"
  unfolding inj_text_def
proof (intro allI impI, elim conjE)
  fix r s
  assume *: "delimited r" "delimited s" "(leaf (String (fst x)) @ '':'' @ write_canonical leaf (snd x)) @ r =
    (leaf (String (fst y)) @ '':'' @ write_canonical leaf (snd y)) @ s"
  have "inj_text leaf (String (fst x)) (String (fst y))"
    using assms(1) by (intro leaf_inj_text) auto
  from inj_textD [OF this, of "'':'' @ write_canonical leaf (snd x) @ r"
      "'':'' @ write_canonical leaf (snd y) @ s"] *(3)
  have "fst x = fst y" "write_canonical leaf (snd x) @ r = write_canonical leaf (snd y) @ s"
    by (simp_all add: delimited_def)
  with inj_textD [OF assms(2) *(1,2)] show "x = y \<and> r = s" by (simp add: prod_eq_iff)
qed

lemma write_canonical_inj_text:
  assumes "leaf_ok leaf"
  shows "json_wf a \<Longrightarrow> json_wf b \<Longrightarrow> inj_text (write_canonical leaf) a b"
proof (induction a arbitrary: b rule: json_induct)
  case (Array vs)
  show ?case unfolding inj_text_def
  proof (intro allI impI, elim conjE)
    fix r s assume eq: "write_canonical leaf (Array vs) @ r = write_canonical leaf b @ s"
    then obtain ws where b: "b = Array ws"
      using write_canonical_same_shape(1) [OF assms eq] by auto
    have "vs = ws \<and> r = s"
      by (rule join_inj_text [where f = "write_canonical leaf" and c = "CHR '']''"])
        (use eq b Array write_canonical_start [OF assms] in \<open>auto simp: list_all_iff\<close>)
    then show "Array vs = b \<and> r = s" by (simp add: b)
  qed
next
  case (Object m)
  let ?f = "\<lambda>e. leaf (String (fst e)) @ '':'' @ write_canonical leaf (snd e)"
  show ?case unfolding inj_text_def
  proof (intro allI impI, elim conjE)
    fix r s assume eq: "write_canonical leaf (Object m) @ r = write_canonical leaf b @ s"
    then obtain m' where b: "b = Object m'"
      using write_canonical_same_shape(2) [OF assms eq] by auto
    have join: "join_with '','' (map ?f m) @ CHR ''}'' # r = join_with '','' (map ?f m') @ CHR ''}'' # s"
      using eq Object.prems unfolding b by (simp add: write_canonical_sorted del: write_canonical.simps)
    have "m = m' \<and> r = s"
    proof (rule join_inj_text [OF _ _ _ join])
      fix x y assume "x \<in> set m" "y \<in> set m'"
      then show "inj_text ?f x y"
        using Object b by (intro entry_inj_text [OF assms] Object.IH [of "fst x"]) (auto simp: list_all_iff)
    next
      show "?f x \<noteq> [] \<and> hd (?f x) \<noteq> CHR ''}''" for x
        using leaf_okD [OF assms, of "String (fst x)"] by auto
    qed simp
    then show "Object m = b \<and> r = s" by (simp add: b)
  qed
qed (simp_all add: write_canonical_leaf_inj [OF assms])

lemma write_canonical_inj:
  "leaf_ok leaf \<Longrightarrow> json_wf a \<Longrightarrow> json_wf b \<Longrightarrow> write_canonical leaf a = write_canonical leaf b \<Longrightarrow> a = b"
  using inj_textD [OF write_canonical_inj_text, of leaf a b "[]" "[]"] by (simp add: delimited_def)

section \<open>The compiled tree computes the meaning\<close>

text \<open>Clauses that compare equal carry the same node, so dropping one of them is harmless.\<close>

lemma clause_stable_unique:
  assumes "leaf_ok leaf" and "clause_stable leaf depth in_any a" and "clause_stable leaf depth in_any b"
    and "clause_order a = clause_order b" and "clause_cost a \<le> MAX_NODES" and "clause_cost b \<le> MAX_NODES"
  shows "a = b"
proof -
  have operand: "cl_operand a = cl_operand b"
    using assms by (intro write_canonical_inj [OF assms(1)]) (auto simp: clause_stable_def)
  have run: "collect_clauses leaf [] [(cl_key c, cl_operand c)] depth in_any 0 [] = Ok ([c], clause_cost c)"
    if "clause_stable leaf depth in_any c" "clause_cost c \<le> MAX_NODES" for c
    using that by (simp add: clause_stable_def del: collect_clauses.simps(3))
  have key: "cl_key a = cl_key b" using assms(4) by simp
  have "Ok ([a], clause_cost a) = (Ok ([b], clause_cost b) :: (filter_error, clause list \<times> nat) result)"
    using run [OF assms(2,5), unfolded key operand] run [OF assms(3,6)] by (rule trans [OF sym])
  then show ?thesis by simp
qed

definition means_in :: "bool \<Rightarrow> node \<Rightarrow> json \<Rightarrow> bool" where
  "means_in in_any n src \<longleftrightarrow>
     (\<forall>d element. (element \<noteq> None) = in_any \<longrightarrow> node_matches n d element = filter_meaning src d element)"

definition clauses_mean :: "bool \<Rightarrow> clause list \<Rightarrow> json list \<Rightarrow> object \<Rightarrow> bool" where
  "clauses_mean in_any cs pending entries \<longleftrightarrow>
     (\<forall>d element. (element \<noteq> None) = in_any \<longrightarrow>
        (\<forall>c \<in> set cs. node_matches (cl_node c) d element) =
        ((\<forall>src \<in> set pending. filter_meaning src d element) \<and>
         (\<forall>(k, v) \<in> set entries. clause_meaning k v d element)))"

definition ops_mean :: "op list \<Rightarrow> object \<Rightarrow> bool" where
  "ops_mean ops m \<longleftrightarrow>
     (\<forall>v d. list_all (\<lambda>op. op_matches op v d) ops = (\<forall>(name, operand) \<in> set m. op_meaning name operand v d))"

lemma clauses_mean_Cons:
  assumes "clauses_mean in_any cs pending entries"
    and "\<And>d element. (element \<noteq> None) = in_any \<Longrightarrow> node_matches (cl_node c) d element = clause_meaning k v d element"
  shows "clauses_mean in_any (c # cs) pending ((k, v) # entries)"
  using assms by (auto simp: clauses_mean_def)

lemma clause_new_node [simp]: "cl_node (clause_new leaf k operand n) = n"
  by (simp add: clause_new_def)

lemma clause_means_collected:
  assumes "\<exists>new. cs = (out @ [c]) @ new \<and> clauses_mean in_any new pending entries"
    and "\<And>d element. (element \<noteq> None) = in_any \<Longrightarrow> node_matches (cl_node c) d element = clause_meaning k v d element"
  shows "\<exists>new. cs = out @ new \<and> clauses_mean in_any new pending ((k, v) # entries)"
proof -
  from assms(1) obtain new where "cs = out @ c # new" "clauses_mean in_any new pending entries" by auto
  with clauses_mean_Cons [OF _ assms(2)] show ?thesis by (intro exI [of _ "c # new"]) auto
qed

lemma normal_clauses_mean:
  assumes "leaf_ok leaf" and "list_all (clause_stable leaf depth in_any) cs"
    and "\<forall>c \<in> set cs. clause_cost c \<le> MAX_NODES"
  shows "set (normal_clauses cs) = set cs"
proof
  show "set cs \<subseteq> set (normal_clauses cs)"
  proof
    fix c assume c: "c \<in> set cs"
    then have "c \<in> set (sort_key clause_order cs)" by simp
    from dedup_by_represents [OF this] obtain c' where c': "c' \<in> set (normal_clauses cs)"
      "clause_order c = clause_order c'"
      unfolding normal_clauses_def by blast
    then have "c' \<in> set cs" using set_normal_clauses by blast
    with c c' assms have "c = c'"
      by (intro clause_stable_unique [of leaf depth in_any]) (auto simp: list_all_iff)
    with c' show "c \<in> set (normal_clauses cs)" by simp
  qed
qed (rule set_normal_clauses)

lemma clause_cost_bound:
  "budget_ok nodes (sum_list (map clause_cost cs)) nodes' \<Longrightarrow> nodes \<le> MAX_NODES \<Longrightarrow> c \<in> set cs \<Longrightarrow>
   clause_cost c \<le> MAX_NODES"
  using member_le_sum_list [of "clause_cost c" "map clause_cost cs"] by (auto simp: budget_ok_def)

lemma budget_ok_bound: "budget_ok a x b \<Longrightarrow> a \<le> MAX_NODES \<Longrightarrow> b \<le> MAX_NODES"
  by (simp add: budget_ok_def max_def)

lemma take_node_bound: "take_node a = Ok b \<Longrightarrow> b \<le> MAX_NODES"
  by (auto dest: take_node_OkD)

lemma finish_means:
  assumes "leaf_ok leaf" and "list_all (clause_stable leaf depth in_any) cs"
    and "\<And>c. c \<in> set cs \<Longrightarrow> clause_cost c \<le> MAX_NODES" and "clauses_mean in_any cs [src] []"
  shows "means_in in_any (fst (finish cs)) src"
  using normal_clauses_mean [OF assms(1,2)] assms(3,4)
  by (simp add: means_in_def finish_eq clauses_mean_def list_all_iff)

lemma clauses_mean_object:
  "clauses_mean in_any new pending m \<Longrightarrow> clauses_mean in_any new (Object m # pending) []"
  by (auto simp: clauses_mean_def filter_meaning.simps)

lemma clauses_mean_and:
  "clauses_mean in_any new (items @ pending) entries \<Longrightarrow>
   clauses_mean in_any new pending ((''$and'', Array items) # entries)"
  by (auto simp: clauses_mean_def clause_meaning.simps [of "''$and''"])

lemma clause_means_or:
  assumes "list_all2 (\<lambda>p. means_in in_any (fst p)) ps items" and "(element \<noteq> None) = in_any"
  shows "node_matches (OrN (map fst ps)) d element = clause_meaning ''$or'' (Array items) d element"
proof -
  have "list_ex (\<lambda>p. node_matches (fst p) d element) ps \<longleftrightarrow> (\<exists>item \<in> set items. filter_meaning item d element)"
    using assms by (induction rule: list_all2_induct) (auto simp: means_in_def)
  then show ?thesis by (simp add: clause_meaning.simps list_ex_iff)
qed

lemma clause_means_path:
  assumes "k \<notin> {''$and'', ''$or'', ''$not''}" and "path_parse k in_any = Ok p" and "ops_mean ops m"
    and "(element \<noteq> None) = in_any"
  shows "node_matches (PathN p ops) d element = clause_meaning k (Object m) d element"
  using assms by (simp add: clause_meaning.simps ops_mean_def Let_def)

lemma op_means_any_ops:
  assumes "m \<noteq> []" and "list_all is_value_operator (map_keys m)" and "ops_mean ops m"
  shows "op_matches (OpAny (AnyOps ops)) v d = op_meaning ''$any'' (Object m) v d"
  using assms
  by (subst op_meaning.simps) (simp add: ops_mean_def list_ex_iff split: option.splits json.splits)

lemma op_means_any_filter:
  assumes "\<not> (m \<noteq> [] \<and> list_all is_value_operator (map_keys m))" and "means_in True n (Object m)"
  shows "op_matches (OpAny (AnyFilter n)) v d = op_meaning ''$any'' (Object m) v d"
  using assms
  by (subst op_meaning.simps) (auto simp: means_in_def list_ex_iff split: option.splits json.splits)

lemma parse_means:
  assumes ok: "leaf_ok leaf"
  shows
  "parse_filter leaf src depth in_any nodes = Ok (r, nodes') \<Longrightarrow> json_wf src \<Longrightarrow> nodes \<le> MAX_NODES \<Longrightarrow>
   means_in in_any (fst r) src"
  "collect_clauses leaf pending entries depth in_any nodes out = Ok (cs, nodes') \<Longrightarrow>
   depth \<le> MAX_DEPTH \<Longrightarrow> list_all json_wf pending \<Longrightarrow> list_all (json_wf \<circ> snd) entries \<Longrightarrow>
   nodes \<le> MAX_NODES \<Longrightarrow> \<exists>new. cs = out @ new \<and> clauses_mean in_any new pending entries"
  "parse_filters leaf items depth in_any nodes = Ok (ps, nodes') \<Longrightarrow> list_all json_wf items \<Longrightarrow>
   nodes \<le> MAX_NODES \<Longrightarrow> list_all2 (\<lambda>p. means_in in_any (fst p)) ps items"
  "parse_operator_object leaf path v depth nodes = Ok (q, nodes') \<Longrightarrow> json_wf v \<Longrightarrow>
   nodes \<le> MAX_NODES \<Longrightarrow> \<exists>m. v = Object m \<and> ops_mean (fst q) m"
  "parse_operators leaf path m depth nodes = Ok (q, nodes') \<Longrightarrow> json_wf (Object m) \<Longrightarrow>
   nodes \<le> MAX_NODES \<Longrightarrow> ops_mean (fst q) m"
  "parse_each_operator leaf path m depth nodes = Ok (parsed, nodes') \<Longrightarrow>
   list_all (json_wf \<circ> snd) m \<Longrightarrow> nodes \<le> MAX_NODES \<Longrightarrow> ops_mean (map (fst \<circ> snd) parsed) m"
  "parse_operator leaf path name operand depth nodes = Ok (o1, nodes') \<Longrightarrow> json_wf operand \<Longrightarrow>
   nodes \<le> MAX_NODES \<Longrightarrow> \<forall>v d. op_matches (fst o1) v d = op_meaning name operand v d"
  "parse_any leaf path operand depth nodes = Ok (o1, nodes') \<Longrightarrow> json_wf operand \<Longrightarrow>
   nodes \<le> MAX_NODES \<Longrightarrow> \<forall>v d. op_matches (fst o1) v d = op_meaning ''$any'' operand v d"
  using ok
proof (induction leaf src depth in_any nodes and leaf pending entries depth in_any nodes out
    and leaf items depth in_any nodes and leaf path v depth nodes and leaf path m depth nodes
    and leaf path m depth nodes and leaf path name operand depth nodes
    and leaf path operand depth nodes
    arbitrary: r nodes' and cs nodes' and ps nodes' and q nodes' and q nodes' and parsed nodes'
      and o1 nodes' and o1 nodes'
    rule: parser_induct)
  case (1 leaf src depth in_any nodes)
  from 1(2) obtain cs where d: "depth \<le> MAX_DEPTH" and r: "r = finish cs"
    and cs: "collect_clauses leaf [src] [] depth in_any nodes [] = Ok (cs, nodes')"
    by (rule parse_filter_OkE)
  from reparse(2) [OF cs d] 1(3) have "list_all (clause_stable leaf depth in_any) cs"
    and b: "budget_ok nodes (sum_list (map clause_cost cs)) nodes'" by simp_all
  moreover from 1(1) [OF _ cs d] 1(3-) d have "clauses_mean in_any cs [src] []" by simp
  ultimately show ?case
    unfolding r using 1(4,5) clause_cost_bound [OF b] by (intro finish_means) auto
next
  case (2 leaf depth in_any nodes out)
  then show ?case by (simp add: clauses_mean_def)
next
  case (3 leaf src pending depth in_any nodes out)
  from 3(2) show ?case
    by (rule collect_object_OkE) (use 3 in \<open>force simp: comp_def intro: clauses_mean_object\<close>)
next
  case (4 leaf pending k v entries depth in_any nodes out)
  from 4(8) show ?case
  proof (cases rule: collect_entry_OkE)
    case (and_list items)
    with 4(1) [of items] 4(9-) show ?thesis
      by (auto simp: filter_list_Ok intro: clauses_mean_and)
  next
    case (or_list b items ps b')
    have "budget_ok b (sum_list (map (node_cost \<circ> fst) ps)) b'"
      using reparse(3) [OF or_list(5)] 4(11) or_list by simp
    with or_list(2) have b': "b \<le> MAX_NODES" "b' \<le> MAX_NODES"
      by (auto dest: take_node_bound budget_ok_bound)
    from 4(2) [OF _ _ or_list(2) _ or_list(5)] or_list 4(11,13) b'
    have "list_all2 (\<lambda>p. means_in in_any (fst p)) ps items" by (simp add: filter_list_Ok)
    note means = clause_means_or [OF this]
    from 4(3) [OF _ _ or_list(2) _ or_list(5) refl or_list(6)] or_list 4(9-) b' show ?thesis
      by (intro clause_means_collected)
        (auto simp: filter_list_Ok means simp del: node_matches.simps)
  next
    case (negated b n norm b')
    have "budget_ok b (node_cost n) b'"
      using reparse(1) [OF negated(4)] 4(11) by simp
    with negated(2) have b': "b \<le> MAX_NODES" "b' \<le> MAX_NODES"
      by (auto dest: take_node_bound budget_ok_bound)
    from 4(4) [OF _ _ _ negated(2) _ negated(4)] negated 4(11,13) b'
    have "means_in in_any n v" by simp
    with 4(5) [OF _ _ _ negated(2) _ negated(4) refl refl negated(5)] negated 4(9-) b' show ?thesis
      by (intro clause_means_collected) (auto simp: means_in_def clause_meaning.simps)
  next
    case (at_path p ops operand b')
    have "budget_ok nodes (sum_list (map op_cost ops)) b'"
      using reparse(4) [OF at_path(7)] 4(11) by auto
    then have b': "b' \<le> MAX_NODES" using 4(12) by (rule budget_ok_bound)
    from 4(6) [OF at_path(1-7)] 4(11-) obtain m where m: "v = Object m" "ops_mean ops m" by auto
    note means = clause_means_path [OF _ at_path(6) m(2)]
    from 4(7) [OF at_path(1-7) refl refl at_path(8)] 4(9-) b' at_path(1-3) show ?thesis
      by (intro clause_means_collected) (auto simp: m(1) means simp del: node_matches.simps)
  qed
next
  case (5 leaf depth in_any nodes)
  then show ?case by simp
next
  case (6 leaf item items depth in_any nodes)
  from 6(3) show ?case
  proof (rule parse_filters_OkE)
    fix r b rs
    assume *: "ps = r # rs" "parse_filter leaf item depth in_any nodes = Ok (r, b)"
      "parse_filters leaf items depth in_any b = Ok (rs, nodes')"
    have "b \<le> MAX_NODES"
      using reparse(1) [OF *(2)] 6(4,5) by (auto dest: budget_ok_bound)
    with 6(1) [OF *(2)] 6(2) [OF *(2) refl *(3)] 6(4-) *(1) show ?case by simp
  qed
next
  case (7 leaf path v depth nodes)
  from 7(2) show ?case
    by (rule parse_operator_object_OkE) (use 7(1,3-) in \<open>auto simp: list_all_iff list_ex_iff\<close>)
next
  case (8 leaf path m depth nodes)
  from 8(2) show ?case
  proof (rule parse_operators_OkE)
    fix parsed
    assume *: "parse_each_operator leaf path m depth nodes = Ok (parsed, nodes')"
      "q = (map (\<lambda>(name, op, normalized). op) (sort_key fst parsed),
            Object (fold (\<lambda>(name, op, normalized). map_insert name normalized) (sort_key fst parsed) []))"
    from 8(1) [OF *(1)] 8(3-) show ?case
      by (simp add: *(2) ops_mean_def list_all_iff comp_def split_def)
  qed
next
  case (9 leaf path depth nodes)
  then show ?case by (simp add: ops_mean_def)
next
  case (10 leaf path name operand m depth nodes)
  from 10(3) show ?case
  proof (rule parse_each_operator_OkE)
    fix b op norm b' rest
    assume *: "parsed = (name, op, norm) # rest" "take_node nodes = Ok b"
      "parse_operator leaf path name operand depth b = Ok ((op, norm), b')"
      "parse_each_operator leaf path m depth b' = Ok (rest, nodes')"
    have b: "b \<le> MAX_NODES" using *(2) by (rule take_node_bound)
    moreover have "b' \<le> MAX_NODES"
      using reparse(7) [OF *(3)] b 10(4) by (auto dest: budget_ok_bound)
    ultimately show ?case
      using 10(1) [OF *(2,3)] 10(2) [OF *(2,3) refl refl *(4)] 10(4-)
      by (simp add: *(1) ops_mean_def)
  qed
next
  case (11 leaf path name operand depth nodes)
  from 11(2) show ?case
    by (cases rule: parse_operator_OkE)
      (use 11(1,3-) in \<open>auto simp: scalar_matches op_meaning.simps [of name]\<close>)
next
  case (12 leaf path operand depth nodes)
  from 12(3) show ?case
  proof (cases rule: parse_any_OkE)
    case (ops m ops norm)
    with 12(1) [of m] 12(4-) show ?thesis by (simp add: op_means_any_ops del: op_matches.simps)
  next
    case (filter m n norm)
    with 12(2) [of m] 12(4-) show ?thesis by (simp add: op_means_any_filter del: op_matches.simps)
  qed
qed

end
