(* ===== verification/Observer_Filter.thy ===== *)
theory Observer_Filter
  imports Filter_Semantics
begin

text \<open>
  The public interface of the filter crate (\<open>crates/iii-filter/src/lib.rs\<close>): a validated,
  normalized and compiled filter, and the properties a caller of it relies on.
\<close>

section \<open>Filters\<close>

record compiled_filter =
  filter_normalized :: json
  filter_node :: node
  filter_roots :: roots

definition from_parsed :: "parsed \<Rightarrow> compiled_filter" where
  "from_parsed p =
     \<lparr>filter_normalized = parsed_normalized p, filter_node = parsed_node p,
      filter_roots = collect_roots (parsed_node p) roots_default\<rparr>"

definition filter_parse :: "(json \<Rightarrow> string) \<Rightarrow> json \<Rightarrow> (filter_error, compiled_filter) result" where
  "filter_parse leaf src =
     (case parse leaf src Enforce of Err e \<Rightarrow> Err e | Ok p \<Rightarrow> Ok (from_parsed p))"

text \<open>Also what \<open>Deserialize\<close> does with the value it reads.\<close>

definition from_normalized :: "(json \<Rightarrow> string) \<Rightarrow> json \<Rightarrow> (filter_error, compiled_filter) result" where
  "from_normalized leaf src =
     (case parse leaf src Skip of Err e \<Rightarrow> Err e | Ok p \<Rightarrow> Ok (from_parsed p))"

definition match_all :: "(json \<Rightarrow> string) \<Rightarrow> (filter_error, compiled_filter) result" where
  "match_all leaf = filter_parse leaf (Object [])"

definition is_match_all :: "compiled_filter \<Rightarrow> bool" where
  "is_match_all f = is_match_all_node (filter_node f)"

definition matches :: "compiled_filter \<Rightarrow> doc \<Rightarrow> bool" where
  "matches f d = node_matches (filter_node f) d None"

definition matches_value :: "compiled_filter \<Rightarrow> json \<Rightarrow> bool" where
  "matches_value f v = matches f (doc_from_value v)"

definition normalize :: "(json \<Rightarrow> string) \<Rightarrow> json \<Rightarrow> (filter_error, json) result" where
  "normalize leaf src =
     (case filter_parse leaf src of Err e \<Rightarrow> Err e | Ok f \<Rightarrow> Ok (filter_normalized f))"

section \<open>What a successful parse gives\<close>

lemma parse_OkE:
  assumes "parse leaf src lim = Ok p"
  obtains nodes where "parse_filter leaf src 1 False 0 = Ok ((parsed_node p, parsed_normalized p), nodes)"
    "nested_within MAX_JSON_DEPTH src" "lim = Enforce \<Longrightarrow> ensure_encoded_size leaf src = Ok ()"
  using assms
  by (auto simp: parse_def ensure_json_depth_Ok [symmetric] split: sum.splits if_splits)

lemma filter_parse_OkE:
  assumes "filter_parse leaf src = Ok f"
  obtains p where "parse leaf src Enforce = Ok p" "f = from_parsed p"
  using assms by (auto simp: filter_parse_def split: sum.splits)

lemma parse_stable:
  assumes "parse leaf src lim = Ok p" and "json_wf src"
  shows "filter_stable leaf 1 False (parsed_node p, parsed_normalized p)"
    and "node_cost (parsed_node p) \<le> MAX_NODES"
proof -
  from assms(1) obtain nodes
    where "parse_filter leaf src 1 False 0 = Ok ((parsed_node p, parsed_normalized p), nodes)"
    by (rule parse_OkE)
  from reparse(1) [OF this assms(2)]
  show "filter_stable leaf 1 False (parsed_node p, parsed_normalized p)"
    "node_cost (parsed_node p) \<le> MAX_NODES"
    by (auto simp: budget_ok_def)
qed

lemma parse_normal_form:
  assumes "parse leaf src lim = Ok p" and "json_wf src"
  shows "parse leaf (parsed_normalized p) Skip = Ok p"
proof -
  note st = parse_stable [OF assms]
  have "nested_within (normal_depth 1) (parsed_normalized p)"
    using st(1) by (simp add: filter_stable_def)
  then have "ensure_json_depth (parsed_normalized p) = Ok ()"
    unfolding ensure_json_depth_Ok by (rule nested_within_mono) (simp add: normal_depth_def)
  with st show ?thesis
    by (simp add: parse_def filter_stable_def)
qed

lemma parse_meaning:
  assumes "parse leaf src lim = Ok p" and "json_wf src" and "leaf_ok leaf"
  shows "node_matches (parsed_node p) d None = filter_meaning src d None"
proof -
  from assms(1) obtain nodes
    where "parse_filter leaf src 1 False 0 = Ok ((parsed_node p, parsed_normalized p), nodes)"
    by (rule parse_OkE)
  from parse_means(1) [OF assms(3) this assms(2)] show ?thesis by (simp add: means_in_def)
qed

section \<open>A text for leaves\<close>

text \<open>
  An instance of what the parser needs from the text of a leaf: quoted strings with quotes
  and backslashes escaped, and tagged binary numbers.
\<close>

fun bits_text :: "nat \<Rightarrow> string" where
  "bits_text n = (if n = 0 then [] else (if odd n then CHR ''1'' else CHR ''0'') # bits_text (n div 2))"

declare bits_text.simps [simp del]

fun number_text :: "number \<Rightarrow> string" where
  "number_text (PosInt n) = CHR ''u'' # bits_text (unat n)"
| "number_text (NegInt n) = CHR ''i'' # bits_text (unat n)"
| "number_text (Float n) = CHR ''d'' # bits_text (unat n)"

fun quoted_text :: "string \<Rightarrow> string" where
  "quoted_text [] = [CHR 0x22]"
| "quoted_text (c # s) = (if c \<in> {CHR 0x22, backslash} then [backslash, c] else [c]) @ quoted_text s"

fun plain_leaf :: "json \<Rightarrow> string" where
  "plain_leaf Null = ''n''"
| "plain_leaf (Bool b) = (if b then ''t'' else ''f'')"
| "plain_leaf (Number n) = number_text n"
| "plain_leaf (String s) = CHR 0x22 # quoted_text s"
| "plain_leaf _ = []"

lemma set_bits_text: "set (bits_text n) \<subseteq> {CHR ''0'', CHR ''1''}"
  by (induction n rule: bits_text.induct) (subst bits_text.simps, auto)

lemma bits_text_Nil: "bits_text n = [] \<longleftrightarrow> n = 0"
  by (subst bits_text.simps) simp

lemma bits_text_inj: "bits_text m = bits_text n \<Longrightarrow> m = n"
proof (induction m arbitrary: n rule: bits_text.induct)
  case (1 m)
  show ?case
  proof (cases "m = 0 \<or> n = 0")
    case True
    with 1(2) show ?thesis using bits_text_Nil by (metis)
  next
    case False
    with 1(2) have "odd m = odd n" "bits_text (m div 2) = bits_text (n div 2)"
      by (subst (asm) (1 2) bits_text.simps, simp split: if_splits)+
    with 1(1) [of "n div 2"] False show ?thesis
      by (metis odd_two_times_div_two_succ even_two_times_div_two)
  qed
qed

lemma quoted_text_inj: "quoted_text s @ r = quoted_text t @ u \<Longrightarrow> s = t \<and> r = u"
proof (induction s arbitrary: t)
  case Nil
  then show ?case by (cases t) (auto split: if_splits)
next
  case (Cons c s)
  then show ?case by (cases t) (auto split: if_splits)
qed

lemma leaf_cases [consumes 1, case_names Null Bool PosInt NegInt Float String]:
  assumes "\<not> is_container v"
  obtains "v = Null" | b where "v = Bool b" | n where "v = Number (PosInt n)"
    | n where "v = Number (NegInt n)" | n where "v = Number (Float n)" | s where "v = String s"
  using assms number.exhaust by (cases v) (simp_all, blast)

lemma plain_leaf_chars:
  assumes "\<not> is_container v" and "\<forall>s. v \<noteq> String s"
  shows "set (plain_leaf v) \<inter> set '',:]}'' = {}"
proof -
  have "c \<notin> set (bits_text n)" if "c \<in> set '',:]}''" for c n
    using that set_bits_text [of n] by auto
  with assms(2) show ?thesis by (cases rule: leaf_cases [OF assms(1)]) auto
qed

lemma append_delimited:
  "set a \<inter> set '',:]}'' = {} \<Longrightarrow> set b \<inter> set '',:]}'' = {} \<Longrightarrow> delimited r \<Longrightarrow> delimited s \<Longrightarrow>
   a @ r = b @ s \<Longrightarrow> a = b \<and> r = s"
proof (induction a arbitrary: b)
  case Nil
  then show ?case by (cases b) (auto simp: delimited_def)
next
  case (Cons c a)
  then show ?case by (cases b) (auto simp: delimited_def)
qed

lemma plain_leaf_inj:
  assumes "\<not> is_container v" and "\<not> is_container w" and "plain_leaf v = plain_leaf w"
  shows "v = w"
  using assms(3)
  by (cases rule: leaf_cases [OF assms(1)]; cases rule: leaf_cases [OF assms(2)])
    (auto dest: bits_text_inj quoted_text_inj [of _ "[]" _ "[]", simplified] split: if_splits
      simp: unsigned_word_eqI)

lemma plain_leaf_start:
  "\<not> is_container v \<Longrightarrow> plain_leaf v \<noteq> [] \<and> hd (plain_leaf v) \<notin> set ''[{]},:'' \<and>
     (hd (plain_leaf v) = CHR 0x22 \<longleftrightarrow> (\<exists>s. v = String s))"
  by (cases v rule: leaf_cases) auto

lemma plain_leaf_ok: "leaf_ok plain_leaf"
proof -
  have "a = b \<and> r = s"
    if leaf: "\<not> is_container a" "\<not> is_container b" and delim: "delimited r" "delimited s"
      and eq: "plain_leaf a @ r = plain_leaf b @ s" for a b r s
  proof (cases "\<exists>x. a = String x")
    case True
    moreover have "hd (plain_leaf a) = hd (plain_leaf b)"
      using eq plain_leaf_start leaf by (metis hd_append2)
    ultimately obtain x y where "a = String x" "b = String y"
      using plain_leaf_start [OF leaf(1)] plain_leaf_start [OF leaf(2)] by auto
    then show ?thesis using eq quoted_text_inj [of x r y s] by simp
  next
    case False
    moreover have "hd (plain_leaf a) = hd (plain_leaf b)"
      using eq plain_leaf_start leaf by (metis hd_append2)
    ultimately have "\<forall>x. a \<noteq> String x" "\<forall>x. b \<noteq> String x"
      using plain_leaf_start [OF leaf(1)] plain_leaf_start [OF leaf(2)] by auto
    then have "plain_leaf a = plain_leaf b \<and> r = s"
      using leaf delim eq by (intro append_delimited plain_leaf_chars) auto
    with leaf show ?thesis using plain_leaf_inj by blast
  qed
  then show ?thesis
    using plain_leaf_start unfolding leaf_ok_def by blast
qed

section \<open>Every parse error is an invalid filter\<close>

lemma code_invalid [simp]: "code (invalid m) = InvalidFilter"
  by (simp add: invalid_def)

definition invalid_only :: "(filter_error, 'a) result \<Rightarrow> bool" where
  "invalid_only r \<longleftrightarrow> (\<forall>e. r = Err e \<longrightarrow> code e = InvalidFilter)"

lemma invalid_only_simps [simp]:
  "invalid_only (Ok x)" "invalid_only (Err e) \<longleftrightarrow> code e = InvalidFilter"
  by (auto simp: invalid_only_def)

lemma invalid_only_bind [intro!]:
  "invalid_only r \<Longrightarrow> (\<And>x. r = Ok x \<Longrightarrow> invalid_only (f x)) \<Longrightarrow> invalid_only (case r of Err e \<Rightarrow> Err e | Ok x \<Rightarrow> f x)"
  by (auto simp: invalid_only_def split: sum.splits)

lemma invalid_only_if [intro!]:
  "(c \<Longrightarrow> invalid_only r) \<Longrightarrow> (\<not> c \<Longrightarrow> invalid_only s) \<Longrightarrow> invalid_only (if c then r else s)"
  by simp

lemma invalid_only_prod [intro!]:
  "(\<And>x y. (x, y) = p \<Longrightarrow> invalid_only (f x y)) \<Longrightarrow> invalid_only (case p of (x, y) \<Rightarrow> f x y)"
  by (cases p) simp

lemma split_path_error: "invalid_only (split_path raw chars current parts)"
  by (induction raw chars current parts rule: split_path.induct)
    (auto simp: empty_segment_def split: list.splits)

lemma path_parse_error: "invalid_only (path_parse raw in_any)"
  unfolding path_parse_def root_of_path_def Let_def
  by (auto simp: split_path_error split: option.splits)

lemma check_walk_error:
  "invalid_only (check_literal_walk path name v level)"
  "invalid_only (check_literals_walk path name vs level)"
  "invalid_only (check_members_walk path name m level)"
  by (induction path name v level and path name vs level and path name m level
      rule: check_literal_walk_check_literals_walk_check_members_walk.induct)
    (auto simp: check_number_def)

lemma scalar_error: "invalid_only (parse_scalar_operator path name operand)"
  unfolding parse_scalar_operator_def
  by (intro invalid_only_if invalid_only_bind; cases operand)
    (auto simp: check_literal_def check_walk_error bound_of_def check_number_def)

lemma parser_error:
  "invalid_only (parse_filter leaf src depth in_any nodes)"
  "invalid_only (collect_clauses leaf pending entries depth in_any nodes out)"
  "invalid_only (parse_filters leaf items depth in_any nodes)"
  "invalid_only (parse_operator_object leaf path v depth nodes)"
  "invalid_only (parse_operators leaf path m depth nodes)"
  "invalid_only (parse_each_operator leaf path m depth nodes)"
  "invalid_only (parse_operator leaf path name operand depth nodes)"
  "invalid_only (parse_any leaf path operand depth nodes)"
proof (induction leaf src depth in_any nodes and leaf pending entries depth in_any nodes out
    and leaf items depth in_any nodes and leaf path v depth nodes and leaf path m depth nodes
    and leaf path m depth nodes and leaf path name operand depth nodes
    and leaf path operand depth nodes
    rule: parser_induct)
  case (1 leaf src depth in_any nodes)
  then show ?case unfolding parse_filter.simps by auto
next
  case (3 leaf src pending depth in_any nodes out)
  then show ?case by (auto split: json.splits)
next
  case (4 leaf pending k v entries depth in_any nodes out)
  then show ?case
    unfolding collect_clauses.simps
    by (intro invalid_only_if invalid_only_bind invalid_only_prod)
      (simp_all add: filter_list_def take_node_def path_parse_error split: json.splits)
next
  case (6 leaf item items depth in_any nodes)
  then show ?case by auto
next
  case (7 leaf path v depth nodes)
  then show ?case unfolding parse_operator_object.simps by (auto split: json.splits)
next
  case (8 leaf path m depth nodes)
  then show ?case unfolding parse_operators.simps by (auto simp: Let_def)
next
  case (10 leaf path name operand m depth nodes)
  then show ?case by (auto simp: take_node_def)
next
  case (11 leaf path name operand depth nodes)
  then show ?case unfolding parse_operator.simps by (auto simp: scalar_error)
next
  case (12 leaf path operand depth nodes)
  then show ?case unfolding parse_any.simps by (cases operand) auto
qed simp_all

section \<open>A filter to evaluate\<close>

definition sample_filter :: json where
  "sample_filter = Object
     [(''$and'', Array
        [Object [(''input.op'', Object [(''$in'', Array [String ''a'', Number (PosInt 2)])])],
         Object [(''input.op'', Object [(''$in'', Array [String ''a'', Number (PosInt 2)])])]]),
      (''caller.n'', Object [(''$ne'', String ''x'')])]"

definition sample_compiled :: compiled_filter where
  "sample_compiled =
     \<lparr>filter_normalized = Object
        [(''$and'', Array
           [Object [(''caller.n'', Object [(''$ne'', String ''x'')])],
            Object [(''input.op'', Object [(''$in'', Array [String ''a'', Number (PosInt 2)])])]])],
      filter_node = AndN
        [PathN \<lparr>path_root = Caller, path_segments = [\<lparr>seg_key = ''n'', seg_index = None\<rparr>]\<rparr>
           [OpNe (String ''x'')],
         PathN \<lparr>path_root = Input, path_segments = [\<lparr>seg_key = ''op'', seg_index = None\<rparr>]\<rparr>
           [OpIn [String ''a'', Number (PosInt 2)]]],
      filter_roots = roots_default\<lparr>roots_input := True, roots_caller := True\<rparr>\<rparr>"

lemmas filter_evaluation =
  parse_filter.simps spend_def bits_text.simps filter_list_def is_value_operator_def starts_with_def
  path_parse_def root_of_path_def root_from_segment_def segment_of_def canonical_index_def
  is_digit_def parse_operator_object.simps parse_operators.simps take_node_def parse_operator.simps
  parse_scalar_operator_def check_number_def number_in_range_def clause_new_def finish_def
  less_char_def check_literal_def

lemma sample_wf: "json_wf sample_filter"
  by (simp add: sample_filter_def map_sorted_def less_char_def)

lemma sample_parse_filter:
  "parse_filter plain_leaf sample_filter 1 False 0 =
     Ok ((filter_node sample_compiled, filter_normalized sample_compiled), 3)"
  by (simp add: sample_filter_def sample_compiled_def filter_evaluation)

lemma sample_parse: "filter_parse plain_leaf sample_filter = Ok sample_compiled"
proof -
  have "ensure_encoded_size plain_leaf sample_filter = Ok ()"
    by (simp add: ensure_encoded_size_def sample_filter_def spend_def bits_text.simps)
  moreover have "ensure_json_depth sample_filter = Ok ()"
    by (simp add: ensure_json_depth_def sample_filter_def)
  ultimately show ?thesis
    by (simp add: filter_parse_def parse_def sample_parse_filter [unfolded One_nat_def] from_parsed_def)
      (simp add: sample_compiled_def)
qed

section \<open>Properties\<close>

text \<open>C3: a compiled filter decides exactly what the filter as written means: flattening
  \<open>$and\<close>, sorting clauses by key and canonical text and dropping repeated ones change no
  decision, on any document.\<close>

theorem filter_compiles_meaning:
  assumes "filter_parse leaf src = Ok f" and "json_wf src" and "leaf_ok leaf"
  shows "matches f d = filter_meaning src d None"
  using assms(1)
proof (rule filter_parse_OkE)
  fix p assume "parse leaf src Enforce = Ok p" and "f = from_parsed p"
  with parse_meaning [OF _ assms(2,3)] show ?thesis by (simp add: matches_def from_parsed_def)
qed

theorem filter_compiles_meaning_witness:
  "filter_parse plain_leaf sample_filter = Ok sample_compiled \<and> json_wf sample_filter \<and>
   leaf_ok plain_leaf \<and>
   matches sample_compiled doc_default = filter_meaning sample_filter doc_default None"
  using filter_compiles_meaning [OF sample_parse sample_wf plain_leaf_ok] sample_parse sample_wf
    plain_leaf_ok by blast

text \<open>C11: normalizing is idempotent and the normal form round trips: compiling the normal form
  of an accepted filter gives back the same normal form, tree and roots.  It never hits the
  node, depth or nesting limit on the way.\<close>

theorem normal_form_round_trip:
  assumes "filter_parse leaf src = Ok f" and "json_wf src"
  shows "from_normalized leaf (filter_normalized f) = Ok f"
  using assms(1)
proof (rule filter_parse_OkE)
  fix p assume "parse leaf src Enforce = Ok p" and "f = from_parsed p"
  with parse_normal_form [OF _ assms(2)] show ?thesis
    by (simp add: from_normalized_def from_parsed_def)
qed

theorem normal_form_round_trip_witness:
  "filter_parse plain_leaf sample_filter = Ok sample_compiled \<and>
   from_normalized plain_leaf (filter_normalized sample_compiled) = Ok sample_compiled"
  using normal_form_round_trip [OF sample_parse sample_wf] sample_parse by blast

text \<open>the normal form means the same as the filter it was made from.\<close>

theorem normal_form_meaning:
  assumes "filter_parse leaf src = Ok f" and "json_wf src" and "leaf_ok leaf"
  shows "filter_meaning (filter_normalized f) d None = filter_meaning src d None"
  using assms(1)
proof (rule filter_parse_OkE)
  fix p assume p: "parse leaf src Enforce = Ok p" and "f = from_parsed p"
  then have f: "filter_normalized f = parsed_normalized p" by (simp add: from_parsed_def)
  have "json_wf (parsed_normalized p)"
    using parse_stable(1) [OF p assms(2)] by (simp add: filter_stable_def)
  from parse_meaning [OF parse_normal_form [OF p assms(2)] this assms(3)]
    parse_meaning [OF p assms(2,3)] show ?thesis by (simp add: f)
qed

theorem normal_form_meaning_witness:
  "filter_parse plain_leaf sample_filter = Ok sample_compiled \<and> json_wf sample_filter \<and>
   leaf_ok plain_leaf \<and>
   filter_meaning (filter_normalized sample_compiled) doc_default None =
   filter_meaning sample_filter doc_default None"
  using normal_form_meaning [OF sample_parse sample_wf plain_leaf_ok] sample_parse sample_wf
    plain_leaf_ok by blast

text \<open>C12: the limits an accepted filter keeps: its compact text has at most 8192 bytes, it
  nests at most 120 containers, its tree has at most 64 operators and combinators, and its
  normal form nests at most 65 containers, whatever the source nested.\<close>

theorem accepted_filter_limits:
  assumes "filter_parse leaf src = Ok f" and "json_wf src"
  shows "length (write_canonical leaf src) \<le> MAX_ENCODED_BYTES \<and> nested_within MAX_JSON_DEPTH src \<and>
    node_cost (filter_node f) \<le> MAX_NODES \<and> nested_within 65 (filter_normalized f)"
  using assms(1)
proof (rule filter_parse_OkE)
  fix p assume p: "parse leaf src Enforce = Ok p" and f: "f = from_parsed p"
  from p have "nested_within MAX_JSON_DEPTH src" "ensure_encoded_size leaf src = Ok ()"
    by (auto elim: parse_OkE)
  moreover have "nested_within (normal_depth 1) (parsed_normalized p)"
    using parse_stable(1) [OF p assms(2)] by (simp add: filter_stable_def)
  ultimately show ?thesis
    using parse_stable(2) [OF p assms(2)]
    by (simp add: f from_parsed_def ensure_encoded_size_def measure_loop_eq length_write_canonical
        normal_depth_def split: if_splits)
qed

theorem accepted_filter_limits_witness:
  "filter_parse plain_leaf sample_filter = Ok sample_compiled \<and>
   node_cost (filter_node sample_compiled) \<le> MAX_NODES \<and>
   nested_within 65 (filter_normalized sample_compiled)"
  using accepted_filter_limits [OF sample_parse sample_wf] sample_parse by blast

text \<open>the size check, which never writes the text, accepts a value exactly when its compact
  text has at most 8192 bytes, and the nesting check accepts it exactly when at most 120
  containers lie one inside the other.\<close>

theorem size_and_depth_checks_exact:
  "(ensure_encoded_size leaf v = Ok () \<longleftrightarrow> length (write_canonical leaf v) \<le> MAX_ENCODED_BYTES) \<and>
   (ensure_json_depth v = Ok () \<longleftrightarrow> nested_within MAX_JSON_DEPTH v)"
  by (simp add: ensure_encoded_size_def measure_loop_eq length_write_canonical ensure_json_depth_Ok)

text \<open>the roots of a filter are all it reads: two documents that agree on them get the same
  decision, so a filter whose roots are empty is constant.\<close>

theorem roots_determine_matches:
  assumes "filter_parse leaf src = Ok f" and "json_wf src" and "agree_on (filter_roots f) d d'"
  shows "matches f d = matches f d'"
  using assms(1)
proof (rule filter_parse_OkE)
  fix p assume p: "parse leaf src Enforce = Ok p" and f: "f = from_parsed p"
  have "node_scoped False (parsed_node p)"
    using parse_stable(1) [OF p assms(2)] by (simp add: filter_stable_def)
  with assms(3) show ?thesis
    by (simp add: f matches_def from_parsed_def matches_agree_on)
qed

theorem roots_determine_matches_witness:
  "filter_parse plain_leaf sample_filter = Ok sample_compiled \<and>
   matches sample_compiled doc_default =
   matches sample_compiled (doc_default\<lparr>doc_output := Some Null\<rparr>)"
proof -
  have "agree_on (filter_roots sample_compiled) doc_default (doc_default\<lparr>doc_output := Some Null\<rparr>)"
    unfolding agree_on_def
    by (intro allI, rename_tac x, case_tac x) (simp_all add: sample_compiled_def roots_default_def)
  from roots_determine_matches [OF sample_parse sample_wf this] sample_parse show ?thesis by blast
qed

text \<open>Whatever value is given, a rejected filter is rejected as \<open>INVALID_FILTER\<close>, also when
  the normal form is compiled.\<close>

theorem parse_error_is_invalid_filter:
  assumes "parse leaf src lim = Err e"
  shows "code e = InvalidFilter"
proof -
  have "invalid_only (parse leaf src lim)"
    unfolding parse_def ensure_encoded_size_def ensure_json_depth_def
    by (intro invalid_only_bind invalid_only_prod invalid_only_if) (simp_all add: parser_error)
  with assms show ?thesis by (simp add: invalid_only_def)
qed

theorem parse_error_is_invalid_filter_witness:
  "\<exists>e. parse plain_leaf Null Skip = Err e \<and> code e = InvalidFilter"
proof -
  have "parse plain_leaf Null Skip = Err (invalid (FilterNotObject ''null''))"
    by (simp add: parse_def ensure_json_depth_def parse_filter.simps)
  from parse_error_is_invalid_filter [OF this] this show ?thesis by blast
qed

end
