(* ===== verification/Update_Ops.thy ===== *)
theory Update_Ops
  imports Filter_Limits
begin

text \<open>
  Atomic updates of a JSON value (\<open>engine/src/update_ops.rs\<close>), the operations of
  \<open>sdk/packages/rust/helpers/src/stream.rs\<close>: validation of paths and merge values, the six
  operations, and the loop over the operations with its per-operation errors.
\<close>

section \<open>Operations and errors\<close>

datatype merge_path = Single string | Segments "string list"

datatype update_op =
    SetOp string "json option"
  | MergeOp "merge_path option" json
  | IncrementOp string i64
  | DecrementOp string i64
  | AppendOp "merge_path option" json
  | RemoveOp string

abbreviation MAX_PATH_DEPTH :: nat where "MAX_PATH_DEPTH \<equiv> 32"
abbreviation MAX_SEGMENT_BYTES :: nat where "MAX_SEGMENT_BYTES \<equiv> 256"
abbreviation MAX_VALUE_DEPTH :: nat where "MAX_VALUE_DEPTH \<equiv> 16"
abbreviation MAX_VALUE_KEYS :: nat where "MAX_VALUE_KEYS \<equiv> 1024"

definition PROTO_POLLUTION_KEYS :: "string list" where
  "PROTO_POLLUTION_KEYS = [''__proto__'', ''constructor'', ''prototype'']"

text \<open>The text of an error message, by what it is formatted from.\<close>

datatype update_message =
    PathDepthExceeds nat
  | PathEmptySegment
  | PathSegmentTooLong nat
  | PathProtoSegment string
  | MergeValueNotObject
  | MergeTooManyKeys nat
  | MergeProtoKey string
  | MergeTooDeep nat
  | TargetNotObject string string
  | ExpectedNumber string string
  | ExpectedStringAppend string string
  | CannotAppend string string

record update_error =
  op_index :: nat
  err_code :: string
  err_message :: update_message
  doc_url :: "string option"

definition update_err :: "nat \<Rightarrow> string \<Rightarrow> update_message \<Rightarrow> update_error" where
  "update_err i c m =
     \<lparr>op_index = i, err_code = c, err_message = m,
      doc_url = Some ''https://iii.dev/docs/workers/iii-state#error-codes''\<rparr>"

definition merge_path_segments :: "merge_path option \<Rightarrow> string list" where
  "merge_path_segments p =
     (case p of
        None \<Rightarrow> []
      | Some (Single s) \<Rightarrow> if s = [] then [] else [s]
      | Some (Segments v) \<Rightarrow> v)"

definition field_path_segments :: "string \<Rightarrow> string list" where
  "field_path_segments p = (if p = [] then [] else [p])"

definition path_error_code :: "string \<Rightarrow> string \<Rightarrow> string" where
  "path_error_code op_name reason = op_name @ ''.path.'' @ reason"

section \<open>Validation\<close>

text \<open>A validation returns the error it pushes, if any: \<open>None\<close> is the result \<open>true\<close>.\<close>

fun validate_segments :: "string \<Rightarrow> nat \<Rightarrow> string list \<Rightarrow> update_error option" where
  "validate_segments op_name i [] = None"
| "validate_segments op_name i (seg # segs) =
     (if seg = [] then
        Some (update_err i (path_error_code op_name ''empty_segment'') PathEmptySegment)
      else if MAX_SEGMENT_BYTES < length seg then
        Some (update_err i (path_error_code op_name ''segment_too_long'') (PathSegmentTooLong (length seg)))
      else if seg \<in> set PROTO_POLLUTION_KEYS then
        Some (update_err i (path_error_code op_name ''proto_polluted'') (PathProtoSegment seg))
      else validate_segments op_name i segs)"

definition validate_op_path :: "string \<Rightarrow> nat \<Rightarrow> string list \<Rightarrow> update_error option" where
  "validate_op_path op_name i segments =
     (if MAX_PATH_DEPTH < length segments then
        Some (update_err i (path_error_code op_name ''too_deep'') (PathDepthExceeds (length segments)))
      else validate_segments op_name i segments)"

definition validate_merge_path :: "nat \<Rightarrow> string list \<Rightarrow> update_error option" where
  "validate_merge_path i segments = validate_op_path ''merge'' i segments"

fun json_depth :: "json \<Rightarrow> nat" where
  "json_depth (Object m) = 1 + fold max (map (\<lambda>e. json_depth (snd e)) m) 0"
| "json_depth (Array items) = 1 + fold max (map json_depth items) 0"
| "json_depth _ = 0"

definition validate_merge_value :: "nat \<Rightarrow> json \<Rightarrow> update_error option" where
  "validate_merge_value i v =
     (case v of
        Object m \<Rightarrow>
          if MAX_VALUE_KEYS < length m then
            Some (update_err i ''merge.value.too_many_keys'' (MergeTooManyKeys (length m)))
          else
            (case find (\<lambda>k. k \<in> set PROTO_POLLUTION_KEYS) (map_keys m) of
               Some k \<Rightarrow> Some (update_err i ''merge.value.proto_polluted'' (MergeProtoKey k))
             | None \<Rightarrow>
                 if MAX_VALUE_DEPTH < json_depth v
                 then Some (update_err i ''merge.value.too_deep'' (MergeTooDeep (json_depth v)))
                 else None)
      | _ \<Rightarrow> Some (update_err i ''merge.value.not_an_object'' MergeValueNotObject))"

section \<open>The target of a path\<close>

text \<open>
  \<open>walk_or_create\<close> returns a mutable reference to the map at the end of the path: here the
  map itself and the function that puts a map in its place, creating or replacing the
  intermediate objects on the way.
\<close>

definition object_entry :: "object \<Rightarrow> string \<Rightarrow> json" where
  "object_entry m seg =
     (let entry = (case map_of m seg of None \<Rightarrow> Object [] | Some v \<Rightarrow> v)
      in if is_object entry then entry else Object [])"

fun walk_from :: "json \<Rightarrow> string list \<Rightarrow> (object \<times> (object \<Rightarrow> json)) option" where
  "walk_from (Object m) [] = Some (m, Object)"
| "walk_from (Object m) (seg # segs) =
     (case walk_from (object_entry m seg) segs of
        None \<Rightarrow> None
      | Some (target, put) \<Rightarrow> Some (target, \<lambda>m'. Object (map_insert seg (put m') m)))"
| "walk_from _ _ = None"

definition walk_or_create :: "json \<Rightarrow> string list \<Rightarrow> (object \<times> (object \<Rightarrow> json)) option" where
  "walk_or_create current segments =
     walk_from (if is_object current then current else Object []) segments"

fun json_type_name :: "json \<Rightarrow> string" where
  "json_type_name Null = ''null''"
| "json_type_name (Bool _) = ''boolean''"
| "json_type_name (Number _) = ''number''"
| "json_type_name (String _) = ''string''"
| "json_type_name (Array _) = ''array''"
| "json_type_name (Object _) = ''object''"

definition path_label :: "string \<Rightarrow> string" where
  "path_label p = (if p = [] then ''root'' else p)"

definition path_label_segments :: "string list \<Rightarrow> string" where
  "path_label_segments segments =
     (if segments = [] then ''root'' else ''['' @ join_with '', '' segments @ '']'')"

section \<open>Numbers\<close>

definition increment_number :: "json \<Rightarrow> i64 \<Rightarrow> json option" where
  "increment_number v by' =
     (case Option.bind (as_i64 v) (\<lambda>n. i64_checked_add n by') of
        Some added \<Rightarrow> Some (Number (number_of_i64 added))
      | None \<Rightarrow>
          (case as_u64 v of
             Some n \<Rightarrow>
               map_option (\<lambda>added. Number (number_of_u64 added))
                 (if 0 \<le> sint by' then u64_checked_add n by'
                  else u64_checked_sub n (unsigned_abs by'))
           | None \<Rightarrow>
               (case v of
                  Number (Float f) \<Rightarrow>
                    map_option Number (number_from_f64 (f64_add f (f64_of_int (sint by'))))
                | _ \<Rightarrow> None)))"

definition decrement_number :: "json \<Rightarrow> i64 \<Rightarrow> json option" where
  "decrement_number v by' =
     (case Option.bind (as_i64 v) (\<lambda>n. i64_checked_sub n by') of
        Some diff \<Rightarrow> Some (Number (number_of_i64 diff))
      | None \<Rightarrow>
          (case as_u64 v of
             Some n \<Rightarrow>
               map_option (\<lambda>diff. Number (number_of_u64 diff))
                 (if 0 \<le> sint by' then u64_checked_sub n by'
                  else u64_checked_add n (unsigned_abs by'))
           | None \<Rightarrow>
               (case v of
                  Number (Float f) \<Rightarrow>
                    map_option Number (number_from_f64 (f64_sub f (f64_of_int (sint by'))))
                | _ \<Rightarrow> None)))"

definition missing_decrement_value :: "i64 \<Rightarrow> json" where
  "missing_decrement_value by' =
     (case i64_checked_neg by' of
        Some negated \<Rightarrow> Number (number_of_i64 negated)
      | None \<Rightarrow> Number (number_of_u64 (unsigned_abs by')))"

section \<open>Appending\<close>

definition initial_append_value :: "json \<Rightarrow> json" where
  "initial_append_value v = (case v of String _ \<Rightarrow> v | _ \<Rightarrow> Array [v])"

text \<open>\<open>Ok\<close> is the target after a successful append; a failed one leaves the target as it is.\<close>

definition append_to_target :: "json \<Rightarrow> json \<Rightarrow> string \<Rightarrow> nat \<Rightarrow> (update_error, json) result" where
  "append_to_target target v path i =
     (case target of
        Array items \<Rightarrow> Ok (Array (items @ [v]))
      | String existing \<Rightarrow>
          (case as_str v of
             Some chunk \<Rightarrow> Ok (String (existing @ chunk))
           | None \<Rightarrow>
               Err (update_err i ''append.type_mismatch''
                      (ExpectedStringAppend (path_label path) (json_type_name v))))
      | Null \<Rightarrow> Ok (initial_append_value v)
      | _ \<Rightarrow>
          Err (update_err i ''append.type_mismatch''
                 (CannotAppend (path_label path) (json_type_name target))))"

section \<open>Applying operations\<close>

record update_state =
  using_missing_default :: bool
  current :: json
  errors :: "update_error list"

definition push_error :: "update_error \<Rightarrow> update_state \<Rightarrow> update_state" where
  "push_error e s = s\<lparr>errors := errors s @ [e]\<rparr>"

definition update_current :: "json \<Rightarrow> update_state \<Rightarrow> update_state" where
  "update_current v s = s\<lparr>current := v, using_missing_default := False\<rparr>"

definition target_not_object :: "string \<Rightarrow> nat \<Rightarrow> string \<Rightarrow> json \<Rightarrow> update_error" where
  "target_not_object op_name i label v =
     update_err i (op_name @ ''.target_not_object'') (TargetNotObject label (json_type_name v))"

definition apply_set :: "nat \<Rightarrow> string \<Rightarrow> json option \<Rightarrow> update_state \<Rightarrow> update_state" where
  "apply_set i path v s =
     (case validate_op_path ''set'' i (field_path_segments path) of
        Some e \<Rightarrow> push_error e s
      | None \<Rightarrow>
          let v = (case v of None \<Rightarrow> Null | Some v \<Rightarrow> v)
          in if path = [] then update_current v s
             else
               (case current s of
                  Object m \<Rightarrow> update_current (Object (map_insert path v m)) s
                | _ \<Rightarrow> push_error (target_not_object ''set'' i (path_label path) (current s)) s))"

definition insert_all :: "object \<Rightarrow> object \<Rightarrow> object" where
  "insert_all new m = fold (\<lambda>(k, v). map_insert k v) new m"

definition apply_merge :: "nat \<Rightarrow> merge_path option \<Rightarrow> json \<Rightarrow> update_state \<Rightarrow> update_state" where
  "apply_merge i path v s =
     (let segments = merge_path_segments path
      in case validate_merge_path i segments of
           Some e \<Rightarrow> push_error e s
         | None \<Rightarrow>
             (case validate_merge_value i v of
                Some e \<Rightarrow> push_error e s
              | None \<Rightarrow>
                  (case v of
                     Object new \<Rightarrow>
                       if segments = [] then
                         (case current s of
                            Object m \<Rightarrow> update_current (Object (insert_all new m)) s
                          | _ \<Rightarrow> s)
                       else
                         (case walk_or_create (current s) segments of
                            Some (target, put) \<Rightarrow> update_current (put (insert_all new target)) s
                          | None \<Rightarrow> s)
                   | _ \<Rightarrow> s)))"

text \<open>
  The arms of \<open>Increment\<close> and \<open>Decrement\<close> have the same shape: \<open>missing\<close> is the value for a
  missing target, \<open>step\<close> the change of a present one.
\<close>

definition apply_counter ::
    "string \<Rightarrow> json \<Rightarrow> (json \<Rightarrow> json option) \<Rightarrow> nat \<Rightarrow> string \<Rightarrow> update_state \<Rightarrow> update_state" where
  "apply_counter op_name missing step i path s =
     (case validate_op_path op_name i (field_path_segments path) of
        Some e \<Rightarrow> push_error e s
      | None \<Rightarrow>
          let not_number = (\<lambda>v. update_err i (op_name @ ''.not_number'')
                (ExpectedNumber (path_label path) (json_type_name v)))
          in if path = [] then
               (if using_missing_default s then update_current missing s
                else
                  (case step (current s) of
                     Some updated \<Rightarrow> update_current updated s
                   | None \<Rightarrow> push_error (not_number (current s)) s))
             else
               (case current s of
                  Object m \<Rightarrow>
                    (case map_of m path of
                       Some existing \<Rightarrow>
                         (case step existing of
                            Some updated \<Rightarrow> update_current (Object (map_insert path updated m)) s
                          | None \<Rightarrow> push_error (not_number existing) s)
                     | None \<Rightarrow> update_current (Object (map_insert path missing m)) s)
                | _ \<Rightarrow> push_error (target_not_object op_name i (path_label path) (current s)) s))"

definition apply_increment :: "nat \<Rightarrow> string \<Rightarrow> i64 \<Rightarrow> update_state \<Rightarrow> update_state" where
  "apply_increment i path by' s =
     apply_counter ''increment'' (Number (number_of_i64 by')) (\<lambda>v. increment_number v by') i path s"

definition apply_decrement :: "nat \<Rightarrow> string \<Rightarrow> i64 \<Rightarrow> update_state \<Rightarrow> update_state" where
  "apply_decrement i path by' s =
     apply_counter ''decrement'' (missing_decrement_value by') (\<lambda>v. decrement_number v by') i path s"

text \<open>Appending to the entry \<open>key\<close> of a map, with the value a missing entry gets.\<close>

definition append_entry ::
    "string \<Rightarrow> json \<Rightarrow> json \<Rightarrow> nat \<Rightarrow> object \<Rightarrow> (object \<Rightarrow> json) \<Rightarrow> update_state \<Rightarrow> update_state" where
  "append_entry key v missing i m put s =
     (case map_of m key of
        Some existing \<Rightarrow>
          (case append_to_target existing v key i of
             Ok updated \<Rightarrow> update_current (put (map_insert key updated m)) s
           | Err e \<Rightarrow> push_error e (update_current (put m) s))
      | None \<Rightarrow> update_current (put (map_insert key missing m)) s)"

definition apply_append :: "nat \<Rightarrow> merge_path option \<Rightarrow> json \<Rightarrow> update_state \<Rightarrow> update_state" where
  "apply_append i path v s =
     (let segments = merge_path_segments path
      in case validate_op_path ''append'' i segments of
           Some e \<Rightarrow> push_error e s
         | None \<Rightarrow>
             if segments = [] then
               (let s = (if using_missing_default s then s\<lparr>current := Null\<rparr> else s)
                in case append_to_target (current s) v ''root'' i of
                     Ok updated \<Rightarrow> update_current updated s
                   | Err e \<Rightarrow> push_error e s)
             else if \<not> is_object (current s) then
               push_error (target_not_object ''append'' i (path_label_segments segments) (current s)) s
             else if length segments = 1 then
               (case current s of
                  Object m \<Rightarrow> append_entry (hd segments) v (initial_append_value v) i m Object s
                | _ \<Rightarrow> s)
             else
               (case walk_or_create (current s) (butlast segments) of
                  Some (parent, put) \<Rightarrow> append_entry (last segments) v (Array [v]) i parent put s
                | None \<Rightarrow> s))"

definition apply_remove :: "nat \<Rightarrow> string \<Rightarrow> update_state \<Rightarrow> update_state" where
  "apply_remove i path s =
     (case validate_op_path ''remove'' i (field_path_segments path) of
        Some e \<Rightarrow> push_error e s
      | None \<Rightarrow>
          if path = [] then update_current Null s
          else
            (case current s of
               Object m \<Rightarrow> update_current (Object (map_remove path m)) s
             | _ \<Rightarrow> push_error (target_not_object ''remove'' i (path_label path) (current s)) s))"

fun apply_op :: "nat \<Rightarrow> update_op \<Rightarrow> update_state \<Rightarrow> update_state" where
  "apply_op i (SetOp path v) s = apply_set i path v s"
| "apply_op i (MergeOp path v) s = apply_merge i path v s"
| "apply_op i (IncrementOp path by') s = apply_increment i path by' s"
| "apply_op i (DecrementOp path by') s = apply_decrement i path by' s"
| "apply_op i (AppendOp path v) s = apply_append i path v s"
| "apply_op i (RemoveOp path) s = apply_remove i path s"

definition initial_state :: "json option \<Rightarrow> update_state" where
  "initial_state old_value =
     \<lparr>using_missing_default = old_value = None,
      current = (case old_value of None \<Rightarrow> Object [] | Some v \<Rightarrow> v), errors = []\<rparr>"

definition apply_ops :: "nat \<Rightarrow> update_op list \<Rightarrow> update_state \<Rightarrow> update_state" where
  "apply_ops start ops s = fold (\<lambda>(i, op). apply_op i op) (enumerate start ops) s"

definition apply_update_ops :: "json option \<Rightarrow> update_op list \<Rightarrow> json \<times> update_error list" where
  "apply_update_ops old_value ops =
     (let s = apply_ops 0 ops (initial_state old_value) in (current s, errors s))"

section \<open>Exact arithmetic\<close>

fun int_value :: "json \<Rightarrow> int option" where
  "int_value (Number (PosInt n)) = Some (uint n)"
| "int_value (Number (NegInt n)) = Some (sint n)"
| "int_value _ = None"

definition int_number :: "int \<Rightarrow> json" where
  "int_number n = Number (if n < 0 then NegInt (word_of_int n) else PosInt (word_of_int n))"

definition representable :: "int \<Rightarrow> bool" where
  "representable n \<longleftrightarrow> - (2 ^ 63) \<le> n \<and> n < 2 ^ 64"

lemma number_of_i64_int: "i64_in_range n \<Longrightarrow> Number (number_of_i64 (word_of_int n)) = int_number n"
  by (simp add: number_of_i64_def int_number_def i64_in_range_def)

lemma number_of_u64_int: "0 \<le> n \<Longrightarrow> Number (number_of_u64 (word_of_int n)) = int_number n"
  by (simp add: number_of_u64_def int_number_def)

lemma unat_less_63: "unat (w :: u64) < 2 ^ 63 \<longleftrightarrow> uint w < 2 ^ 63"
  by (simp only: uint_nat of_nat_less_numeral_power_cancel_iff)

lemma sint_of_small: "uint (w :: u64) < 2 ^ 63 \<Longrightarrow> sint w = uint w"
  using sint_word_of_int_i64 [of "uint w"] uint_ge_0 [of w] by simp

lemma uint_of_nonneg: "0 \<le> sint (w :: i64) \<Longrightarrow> uint w = sint w"
  using uint_word_of_int_u64 [of "sint w"] sint_i64_range [of w] by simp

lemma uint_unsigned_abs: "uint (unsigned_abs w) = \<bar>sint w\<bar>"
  unfolding unsigned_abs_def using sint_i64_range [of w] by (intro uint_word_of_int_u64) auto

lemma checked_u64_number:
  "map_option (\<lambda>x. Number (number_of_u64 x)) (checked_u64 n) =
     (if 0 \<le> n \<and> n < 2 ^ 64 then Some (int_number n) else None)"
  by (simp add: checked_u64_def number_of_u64_int)

lemma checked_i64_number:
  "(case checked_i64 n of Some x \<Rightarrow> Some (Number (number_of_i64 x)) | None \<Rightarrow> r) =
     (if i64_in_range n then Some (int_number n) else r)"
  by (simp add: checked_i64_def number_of_i64_int)

text \<open>What the unsigned branch computes, for either sign of the amount.\<close>

lemma u64_step:
  "(if 0 \<le> sint b then u64_checked_add w b else u64_checked_sub w (unsigned_abs b)) =
     checked_u64 (uint w + sint b)"
  "(if 0 \<le> sint b then u64_checked_sub w b else u64_checked_add w (unsigned_abs b)) =
     checked_u64 (uint w - sint b)"
  by (simp_all add: u64_checked_add_def u64_checked_sub_def uint_of_nonneg uint_unsigned_abs)

lemma increment_pos:
  "increment_number (Number (PosInt w)) b =
     (if uint w < 2 ^ 63 \<and> i64_in_range (uint w + sint b) then Some (int_number (uint w + sint b))
      else if 0 \<le> uint w + sint b \<and> uint w + sint b < 2 ^ 64 then Some (int_number (uint w + sint b))
      else None)"
  unfolding increment_number_def as_i64.simps number_as_i64.simps as_u64.simps number_as_u64.simps
    unat_less_63 option.case u64_step checked_u64_number
  by (auto simp: i64_checked_add_def sint_of_small checked_i64_number)

lemma decrement_pos:
  "decrement_number (Number (PosInt w)) b =
     (if uint w < 2 ^ 63 \<and> i64_in_range (uint w - sint b) then Some (int_number (uint w - sint b))
      else if 0 \<le> uint w - sint b \<and> uint w - sint b < 2 ^ 64 then Some (int_number (uint w - sint b))
      else None)"
  unfolding decrement_number_def as_i64.simps number_as_i64.simps as_u64.simps number_as_u64.simps
    unat_less_63 option.case u64_step checked_u64_number
  by (auto simp: i64_checked_sub_def sint_of_small checked_i64_number)

lemma step_neg:
  "increment_number (Number (NegInt w)) b =
     (if i64_in_range (sint w + sint b) then Some (int_number (sint w + sint b)) else None)"
  "decrement_number (Number (NegInt w)) b =
     (if i64_in_range (sint w - sint b) then Some (int_number (sint w - sint b)) else None)"
  by (simp_all add: increment_number_def decrement_number_def i64_checked_add_def i64_checked_sub_def
      checked_i64_number)

lemma increment_exact:
  assumes "int_value v = Some n" and "json_wf v"
  shows "increment_number v b = (if representable (n + sint b) then Some (int_number (n + sint b)) else None)"
  using assms sint_i64_range [of b]
proof (cases v rule: int_value.cases)
  case (1 w)
  then show ?thesis
    using assms sint_i64_range [of b] uint_ge_0 [of w] uint_lt2p [of w]
    unfolding 1 increment_pos by (auto simp: representable_def i64_in_range_def)
next
  case (2 w)
  then show ?thesis
    using assms sint_i64_range [of b] unfolding 2 step_neg
    by (auto simp: representable_def i64_in_range_def)
qed auto

lemma decrement_exact:
  assumes "int_value v = Some n" and "json_wf v"
  shows "decrement_number v b = (if representable (n - sint b) then Some (int_number (n - sint b)) else None)"
  using assms sint_i64_range [of b]
proof (cases v rule: int_value.cases)
  case (1 w)
  then show ?thesis
    using assms sint_i64_range [of b] uint_ge_0 [of w] uint_lt2p [of w]
    unfolding 1 decrement_pos by (auto simp: representable_def i64_in_range_def)
next
  case (2 w)
  then show ?thesis
    using assms sint_i64_range [of b] sint_i64_range [of w] unfolding 2 step_neg
    by (auto simp: representable_def i64_in_range_def)
qed auto

lemma int_value_number: "representable n \<Longrightarrow> int_value (int_number n) = Some n \<and> json_wf (int_number n)"
  by (simp add: int_number_def representable_def)

lemma int_number_value: "int_value v = Some n \<Longrightarrow> json_wf v \<Longrightarrow> representable n \<and> v = int_number n"
  using sint_i64_range uint_lt2p [where 'a = 64]
  by (cases v rule: int_value.cases) (auto simp: int_number_def representable_def not_less)

section \<open>The target of a path\<close>

fun get_path :: "json \<Rightarrow> string list \<Rightarrow> json option" where
  "get_path v [] = Some v"
| "get_path v (seg # segs) = Option.bind (json_get v seg) (\<lambda>w. get_path w segs)"

lemma is_objectE: "is_object v \<Longrightarrow> (\<And>m. v = Object m \<Longrightarrow> P) \<Longrightarrow> P"
  by (cases v) auto

lemma map_insert_same: "map_sorted m \<Longrightarrow> map_of m k = Some v \<Longrightarrow> map_insert k v m = m"
  by (rule map_of_sorted_eq) (auto simp: map_laws)

lemma json_wf_map_of: "json_wf (Object m) \<Longrightarrow> map_of m k = Some v \<Longrightarrow> json_wf v"
  by (force dest: map_of_SomeD simp: list_all_iff)

lemma json_wf_map_insert:
  assumes "json_wf (Object m)" and "json_wf v"
  shows "json_wf (Object (map_insert k v m))"
proof -
  have "set (map_insert k v m) \<subseteq> insert (k, v) (set m)"
    by (induction k v m rule: map_insert.induct) auto
  with assms show ?thesis by (auto simp: map_laws list_all_iff)
qed

lemma is_object_entry [simp]: "is_object (object_entry m seg)"
  by (simp add: object_entry_def Let_def)

lemma object_entry_wf: "json_wf (Object m) \<Longrightarrow> json_wf (object_entry m seg)"
  by (auto simp: object_entry_def Let_def json_wf_map_of split: option.splits)

lemma get_path_object_entry: "get_path (object_entry m seg) (k # ks) = get_path (Object m) (seg # k # ks)"
proof -
  have "json_get v k = None" if "\<not> is_object v" for v k using that by (cases v) auto
  then show ?thesis by (auto simp: object_entry_def Let_def split: option.splits)
qed

text \<open>The walk from an object never fails: the defensive branch of the code is dead.\<close>

lemma walk_from_object: "is_object v \<Longrightarrow> \<exists>m put. walk_from v segs = Some (m, put)"
  by (induction v segs rule: walk_from.induct) auto

lemma walk_from_wf:
  "walk_from v segs = Some (m, put) \<Longrightarrow> json_wf v \<Longrightarrow>
   json_wf (Object m) \<and> (\<forall>m'. json_wf (Object m') \<longrightarrow> json_wf (put m'))"
proof (induction v segs arbitrary: m put rule: walk_from.induct)
  case (2 m0 seg segs)
  from 2(2) obtain put' where w: "walk_from (object_entry m0 seg) segs = Some (m, put')"
    and put: "put = (\<lambda>m'. Object (map_insert seg (put' m') m0))"
    by (auto split: option.splits)
  from 2(1) [OF w object_entry_wf] 2(3) show ?case
    unfolding put using json_wf_map_insert by blast
qed auto

text \<open>Reading at the target: the map put there is read at the path, and nothing else moves.\<close>

lemma walk_from_get:
  "walk_from v segs = Some (m, put) \<Longrightarrow> json_wf v \<Longrightarrow>
   get_path v (segs @ [k]) = map_of m k \<and> get_path (put m') (segs @ k # ks) = get_path (Object m') (k # ks)"
proof (induction v segs arbitrary: m put rule: walk_from.induct)
  case (2 m0 seg segs)
  from 2(2) obtain put' where w: "walk_from (object_entry m0 seg) segs = Some (m, put')"
    and put: "put = (\<lambda>m'. Object (map_insert seg (put' m') m0))"
    by (auto split: option.splits)
  note IH = 2(1) [OF w object_entry_wf [OF 2(3)]]
  have "get_path (object_entry m0 seg) (segs @ [k]) = get_path (Object m0) (seg # segs @ [k])"
    by (cases segs) (simp_all only: append.simps get_path_object_entry)
  with IH 2(3) show ?case unfolding put by (simp add: map_laws)
qed (auto split: option.splits)

lemma walk_from_frame:
  assumes "walk_from (Object m0) (seg # segs) = Some (m, put)" and "map_sorted m0" and "k \<noteq> seg"
  shows "json_get (put m') k = map_of m0 k"
  using assms by (auto simp: map_laws split: option.splits)

lemma walk_from_empty: "walk_from (Object []) segs = Some (m, put) \<Longrightarrow> m = []"
  by (induction segs arbitrary: put) (auto simp: object_entry_def split: option.splits)

text \<open>When the target has an entry, nothing was created on the way to it.\<close>

lemma walk_from_existing:
  "walk_from v segs = Some (m, put) \<Longrightarrow> json_wf v \<Longrightarrow> m \<noteq> [] \<Longrightarrow> put m = v"
proof (induction v segs arbitrary: m put rule: walk_from.induct)
  case (2 m0 seg segs)
  from 2(2) obtain put' where w: "walk_from (object_entry m0 seg) segs = Some (m, put')"
    and put: "put = (\<lambda>m'. Object (map_insert seg (put' m') m0))"
    by (auto split: option.splits)
  have "map_of m0 seg = Some (object_entry m0 seg)"
    using w 2(4) walk_from_empty by (auto simp: object_entry_def Let_def split: option.splits if_splits)
  with 2(1) [OF w object_entry_wf [OF 2(3)] 2(4)] 2(3) show ?case
    by (simp add: put map_insert_same)
qed auto

section \<open>One operation is applied or rejected as a whole\<close>

definition state_ok :: "update_state \<Rightarrow> bool" where
  "state_ok s \<longleftrightarrow> json_wf (current s) \<and> (using_missing_default s \<longrightarrow> current s = Object [])"

fun op_values :: "update_op \<Rightarrow> json list" where
  "op_values (SetOp path v) = (case v of None \<Rightarrow> [] | Some v \<Rightarrow> [v])"
| "op_values (MergeOp path v) = [v]"
| "op_values (AppendOp path v) = [v]"
| "op_values _ = []"

definition op_wf :: "update_op \<Rightarrow> bool" where
  "op_wf op \<longleftrightarrow> list_all json_wf (op_values op)"

definition step_ok :: "nat \<Rightarrow> update_state \<Rightarrow> update_state \<Rightarrow> bool" where
  "step_ok i s s' \<longleftrightarrow>
     (\<exists>e. op_index e = i \<and> s' = push_error e s) \<or> errors s' = errors s \<and> state_ok s'"

lemma op_index_update_err [simp]: "op_index (update_err i c m) = i"
  by (simp add: update_err_def)

lemma op_index_target [simp]: "op_index (target_not_object n i l v) = i"
  by (simp add: target_not_object_def)

lemma step_ok_error: "op_index e = i \<Longrightarrow> step_ok i s (push_error e s)"
  by (auto simp: step_ok_def)

lemma step_ok_update: "json_wf v \<Longrightarrow> step_ok i s (update_current v s)"
  by (simp add: step_ok_def state_ok_def update_current_def)

lemma step_ok_refl: "state_ok s \<Longrightarrow> step_ok i s s"
  by (simp add: step_ok_def)

lemma step_ok_option:
  "(\<And>e. x = Some e \<Longrightarrow> step_ok i s (f e)) \<Longrightarrow> (x = None \<Longrightarrow> step_ok i s r) \<Longrightarrow>
   step_ok i s (case x of None \<Rightarrow> r | Some e \<Rightarrow> f e)"
  by (cases x) auto

lemma step_ok_if:
  "(c \<Longrightarrow> step_ok i s r) \<Longrightarrow> (\<not> c \<Longrightarrow> step_ok i s r') \<Longrightarrow> step_ok i s (if c then r else r')"
  by simp

lemma step_ok_object:
  "(\<And>m. v = Object m \<Longrightarrow> step_ok i s (f m)) \<Longrightarrow> (\<not> is_object v \<Longrightarrow> step_ok i s r) \<Longrightarrow>
   step_ok i s (case v of Object m \<Rightarrow> f m | _ \<Rightarrow> r)"
  by (cases v) auto

lemma step_ok_prod: "(\<And>x y. p = (x, y) \<Longrightarrow> step_ok i s (f x y)) \<Longrightarrow> step_ok i s (case p of (x, y) \<Rightarrow> f x y)"
  by (cases p) auto

lemmas step_ok_intros = step_ok_error step_ok_update step_ok_refl step_ok_option step_ok_if
  step_ok_object step_ok_prod

lemma validate_op_path_index: "validate_op_path n i segs = Some e \<Longrightarrow> op_index e = i"
proof -
  have "validate_segments n i segs = Some e \<Longrightarrow> op_index e = i"
    by (induction n i segs rule: validate_segments.induct) (auto split: if_splits)
  then show "validate_op_path n i segs = Some e \<Longrightarrow> op_index e = i"
    by (auto simp: validate_op_path_def split: if_splits)
qed

lemma validate_merge_value_index: "validate_merge_value i v = Some e \<Longrightarrow> op_index e = i"
  by (auto simp: validate_merge_value_def split: json.splits if_splits option.splits)

lemma insert_all_wf:
  assumes "json_wf (Object new)" and "json_wf (Object m)"
  shows "json_wf (Object (insert_all new m))"
proof -
  have "list_all (\<lambda>e. json_wf (snd e)) new" using assms(1) by simp
  then show ?thesis
    using assms(2)
  proof (induction new arbitrary: m)
    case (Cons e new)
    have "json_wf (Object (map_insert (fst e) (snd e) m))"
      using Cons.prems by (intro json_wf_map_insert) auto
    with Cons show ?case by (simp add: insert_all_def split_def del: json_wf.simps)
  qed (simp add: insert_all_def)
qed

lemma number_of_wf [simp]: "number_wf (number_of_i64 n)" "number_wf (number_of_u64 n)"
  by (simp_all add: number_of_i64_def number_of_u64_def)

lemma number_from_f64_wf: "number_from_f64 f = Some n \<Longrightarrow> number_wf n"
  by (auto simp: number_from_f64_def split: if_splits)

lemma increment_number_wf: "increment_number v b = Some w \<Longrightarrow> json_wf w"
  by (auto simp: increment_number_def number_from_f64_wf split: option.splits json.splits number.splits)

lemma decrement_number_wf: "decrement_number v b = Some w \<Longrightarrow> json_wf w"
  by (auto simp: decrement_number_def number_from_f64_wf split: option.splits json.splits number.splits)

lemma missing_decrement_wf: "json_wf (missing_decrement_value b)"
  by (auto simp: missing_decrement_value_def split: option.splits)

lemma append_to_target_wf:
  "append_to_target target v path i = Ok w \<Longrightarrow> json_wf target \<Longrightarrow> json_wf v \<Longrightarrow> json_wf w"
  by (auto simp: append_to_target_def initial_append_value_def split: json.splits option.splits)

lemma append_to_target_index: "append_to_target target v path i = Err e \<Longrightarrow> op_index e = i"
  by (auto simp: append_to_target_def split: json.splits option.splits)

lemma step_set:
  assumes "state_ok s" and "op_wf (SetOp path v)"
  shows "step_ok i s (apply_set i path v s)"
  unfolding apply_set_def Let_def
  by (intro step_ok_intros json_wf_map_insert)
    (use assms in \<open>auto simp: validate_op_path_index state_ok_def op_wf_def split: option.splits\<close>)

lemma json_wf_map_remove: "json_wf (Object m) \<Longrightarrow> json_wf (Object (map_remove k m))"
  by (auto simp: map_laws list_all_iff map_remove_def map_sorted_filter)

lemma step_remove:
  assumes "state_ok s"
  shows "step_ok i s (apply_remove i path s)"
  unfolding apply_remove_def
  by (intro step_ok_intros json_wf_map_remove)
    (use assms in \<open>auto simp: validate_op_path_index state_ok_def\<close>)

lemma step_counter:
  assumes "state_ok s" and "json_wf missing" and "\<And>v w. step v = Some w \<Longrightarrow> json_wf w"
  shows "step_ok i s (apply_counter n missing step i path s)"
  unfolding apply_counter_def Let_def
  by (intro step_ok_intros json_wf_map_insert)
    (use assms in \<open>auto simp: validate_op_path_index state_ok_def\<close>)

lemma walk_or_create_object:
  "is_object v \<Longrightarrow> walk_or_create v segs = walk_from v segs"
  by (simp add: walk_or_create_def)

lemma walk_or_create_wf:
  "walk_or_create v segs = Some (m, put) \<Longrightarrow> json_wf v \<Longrightarrow>
   json_wf (Object m) \<and> (\<forall>m'. json_wf (Object m') \<longrightarrow> json_wf (put m'))"
  unfolding walk_or_create_def by (rule walk_from_wf [of "if is_object v then v else Object []" segs]) auto

lemma step_merge:
  assumes "state_ok s" and "json_wf v"
  shows "step_ok i s (apply_merge i path v s)"
proof -
  have wf: "json_wf (current s)" using assms(1) by (simp add: state_ok_def)
  show ?thesis
    unfolding apply_merge_def Let_def validate_merge_path_def
    by (intro step_ok_intros insert_all_wf)
      (use assms wf in \<open>auto simp: validate_op_path_index validate_merge_value_index
        simp del: json_wf.simps(3) dest!: walk_or_create_wf intro!: insert_all_wf\<close>)
qed

lemma step_append_entry:
  assumes ok: "state_ok s" and "json_wf v" "json_wf missing" "json_wf (Object m)"
    and put: "\<And>m'. json_wf (Object m') \<Longrightarrow> json_wf (put m')"
    and same: "m \<noteq> [] \<Longrightarrow> put m = current s \<and> \<not> using_missing_default s"
  shows "step_ok i s (append_entry key v missing i m put s)"
proof (cases "map_of m key")
  case None
  then show ?thesis
    using assms by (auto simp: append_entry_def intro!: step_ok_update put json_wf_map_insert)
next
  case (Some x)
  show ?thesis
  proof (cases "append_to_target x v key i")
    case (Inl e)
    have "put m = current s" "\<not> using_missing_default s"
      using same Some by (cases m; auto)+
    then have "update_current (put m) s = s" by (simp add: update_current_def)
    with Inl Some show ?thesis
      by (simp add: append_entry_def step_ok_error append_to_target_index)
  next
    case (Inr w)
    then have "json_wf w"
      using append_to_target_wf json_wf_map_of Some assms by blast
    with Inr Some assms show ?thesis
      by (auto simp: append_entry_def intro!: step_ok_update put json_wf_map_insert)
  qed
qed

lemma step_append_nested:
  assumes "state_ok s" and "json_wf v" and "is_object (current s)"
    and walk: "walk_or_create (current s) segs = Some (m, put)"
  shows "step_ok i s (append_entry key v (Array [v]) i m put s)"
proof -
  have cur: "json_wf (current s)" using assms(1) by (simp add: state_ok_def)
  have walk': "walk_from (current s) segs = Some (m, put)"
    using walk assms(3) by (simp add: walk_or_create_object)
  have "put m = current s \<and> \<not> using_missing_default s" if "m \<noteq> []"
    using walk_from_existing [OF walk' cur that] walk_from_empty [of segs m put] walk' that assms(1)
    by (auto simp: state_ok_def)
  with walk_or_create_wf [OF walk cur] assms show ?thesis by (intro step_append_entry) auto
qed

lemma step_append:
  assumes "state_ok s" and "json_wf v"
  shows "step_ok i s (apply_append i path v s)"
proof -
  let ?segs = "merge_path_segments path"
  consider e where "validate_op_path ''append'' i ?segs = Some e"
    | "validate_op_path ''append'' i ?segs = None" "?segs = []"
    | "validate_op_path ''append'' i ?segs = None" "?segs \<noteq> []" "\<not> is_object (current s)"
    | m where "validate_op_path ''append'' i ?segs = None" "?segs \<noteq> []" "current s = Object m"
    by (cases "validate_op_path ''append'' i ?segs"; cases "?segs = []"; cases "current s"; simp)
  then show ?thesis
  proof cases
    case 1
    then show ?thesis by (simp add: apply_append_def step_ok_error validate_op_path_index)
  next
    case 2
    show ?thesis
    proof (cases "using_missing_default s")
      case True
      with 2 assms show ?thesis
        by (auto simp: apply_append_def append_to_target_def initial_append_value_def step_ok_def
            state_ok_def update_current_def split: json.splits)
    next
      case False
      with 2 assms show ?thesis
        by (auto simp: apply_append_def state_ok_def split: sum.splits
            intro!: step_ok_intros append_to_target_index elim!: append_to_target_wf)
    qed
  next
    case 3
    then show ?thesis by (simp add: apply_append_def step_ok_error)
  next
    case (4 m)
    have single: "step_ok i s (append_entry (hd ?segs) v (initial_append_value v) i m Object s)"
      using 4 assms
      by (intro step_append_entry) (auto simp: state_ok_def initial_append_value_def split: json.splits)
    have "is_object (current s)" using 4 by simp
    then obtain parent put where "walk_or_create (current s) (butlast ?segs) = Some (parent, put)"
      using walk_from_object [of "current s" "butlast ?segs"] by (auto simp: walk_or_create_object)
    with single 4 step_append_nested [OF assms] show ?thesis
      by (simp add: apply_append_def Let_def)
  qed
qed

lemma apply_op_step: "state_ok s \<Longrightarrow> op_wf op \<Longrightarrow> step_ok i s (apply_op i op s)"
  by (cases op)
    (auto simp: apply_increment_def apply_decrement_def missing_decrement_wf step_set step_remove
      step_merge step_append op_wf_def
      intro!: step_counter dest: increment_number_wf decrement_number_wf)

section \<open>A batch of operations\<close>

lemma enumerate_snoc: "enumerate n (xs @ [x]) = enumerate n xs @ [(n + length xs, x)]"
  by (simp add: enumerate_append_eq)

lemma apply_ops_Nil [simp]: "apply_ops n [] s = s"
  by (simp add: apply_ops_def)

lemma apply_ops_snoc: "apply_ops n (ops @ [op]) s = apply_op (n + length ops) op (apply_ops n ops s)"
  by (simp add: apply_ops_def enumerate_snoc)

lemma initial_state_ok: "(case old of None \<Rightarrow> True | Some v \<Rightarrow> json_wf v) \<Longrightarrow> state_ok (initial_state old)"
  by (auto simp: state_ok_def initial_state_def split: option.splits)

lemma state_ok_push_error [simp]: "state_ok (push_error e s) = state_ok s"
  by (simp add: state_ok_def push_error_def)

lemma step_ok_state: "step_ok i s s' \<Longrightarrow> state_ok s \<Longrightarrow> state_ok s'"
  by (auto simp: step_ok_def)

lemma apply_ops_ok:
  "state_ok s \<Longrightarrow> list_all op_wf ops \<Longrightarrow> errors s = [] \<Longrightarrow>
   state_ok (apply_ops 0 ops s) \<and> sorted_wrt (<) (map op_index (errors (apply_ops 0 ops s))) \<and>
   (\<forall>e \<in> set (errors (apply_ops 0 ops s)). op_index e < length ops)"
proof (induction ops rule: rev_induct)
  case (snoc op ops)
  let ?s = "apply_ops 0 ops s"
  have IH: "state_ok ?s" "sorted_wrt (<) (map op_index (errors ?s))"
    "\<forall>e \<in> set (errors ?s). op_index e < length ops"
    using snoc by auto
  have step: "step_ok (length ops) ?s (apply_op (length ops) op ?s)"
    using snoc.prems IH by (intro apply_op_step) auto
  with IH step_ok_state [OF step] show ?case
    by (auto simp: apply_ops_snoc step_ok_def push_error_def sorted_wrt_append less_Suc_eq)
qed simp

text \<open>
  The index only labels the error of an operation, and the errors so far do not matter: two
  runs of an operation on states that differ in their errors end in such states again.
\<close>

definition same_step :: "update_state \<Rightarrow> update_state \<Rightarrow> update_state \<Rightarrow> update_state \<Rightarrow> bool" where
  "same_step s t s' t' \<longleftrightarrow>
     current s' = current t' \<and> using_missing_default s' = using_missing_default t' \<and>
     (errors s' = errors s \<longleftrightarrow> errors t' = errors t)"

lemma same_step_error:
  "same_step s t s' t' \<Longrightarrow> errors s' = errors s \<Longrightarrow> same_step s t (push_error e s') (push_error e' t')"
  by (simp add: same_step_def push_error_def)

lemma same_step_update:
  "current s = current t \<Longrightarrow> same_step s t (update_current v s) (update_current v t)"
  by (simp add: same_step_def update_current_def)

lemma same_step_option:
  "x = None \<longleftrightarrow> y = None \<Longrightarrow> (\<And>e e'. x = Some e \<Longrightarrow> y = Some e' \<Longrightarrow> same_step s t (f e) (g e')) \<Longrightarrow>
   (x = None \<Longrightarrow> y = None \<Longrightarrow> same_step s t r r') \<Longrightarrow>
   same_step s t (case x of None \<Rightarrow> r | Some e \<Rightarrow> f e) (case y of None \<Rightarrow> r' | Some e \<Rightarrow> g e)"
  by (cases x; cases y) auto

lemma same_step_if:
  "(c \<Longrightarrow> same_step s t r r') \<Longrightarrow> (\<not> c \<Longrightarrow> same_step s t q q') \<Longrightarrow>
   same_step s t (if c then r else q) (if c then r' else q')"
  by simp

lemma same_step_object:
  "(\<And>m. v = Object m \<Longrightarrow> same_step s t (f m) (g m)) \<Longrightarrow> same_step s t r r' \<Longrightarrow>
   same_step s t (case v of Object m \<Rightarrow> f m | _ \<Rightarrow> r) (case v of Object m \<Rightarrow> g m | _ \<Rightarrow> r')"
  by (cases v) auto

lemma same_step_prod:
  "(\<And>x y. p = (x, y) \<Longrightarrow> same_step s t (f x y) (g x y)) \<Longrightarrow>
   same_step s t (case p of (x, y) \<Rightarrow> f x y) (case p of (x, y) \<Rightarrow> g x y)"
  by (cases p) auto

lemma same_step_append:
  "(\<And>w. append_to_target target v path i = Ok w \<Longrightarrow> same_step s t (f w) (g w)) \<Longrightarrow>
   (\<And>e e'. append_to_target target v path i = Err e \<Longrightarrow> append_to_target target v path j = Err e' \<Longrightarrow>
      same_step s t (h e) (k e')) \<Longrightarrow>
   same_step s t (case append_to_target target v path i of Ok w \<Rightarrow> f w | Err e \<Rightarrow> h e)
     (case append_to_target target v path j of Ok w \<Rightarrow> g w | Err e \<Rightarrow> k e)"
  by (auto simp: append_to_target_def split: json.splits option.splits)

lemma validate_op_path_any_index:
  "validate_op_path n i segs = None \<longleftrightarrow> validate_op_path n j segs = None"
proof -
  have "validate_segments n i segs = None \<longleftrightarrow> validate_segments n j segs = None"
    by (induction n i segs rule: validate_segments.induct) auto
  then show ?thesis by (auto simp: validate_op_path_def)
qed

lemma validate_merge_value_any_index:
  "validate_merge_value i v = None \<longleftrightarrow> validate_merge_value j v = None"
  by (auto simp: validate_merge_value_def split: json.splits option.splits)

lemma same_step_base: "same_step s (s\<lparr>errors := es\<rparr>) s (s\<lparr>errors := es\<rparr>)"
  by (simp add: same_step_def)

lemmas same_step_intros = same_step_error same_step_update same_step_option same_step_if
  same_step_object same_step_prod same_step_base same_step_append validate_op_path_any_index
  validate_merge_value_any_index

lemma errors_update_sel:
  "current (s\<lparr>errors := es\<rparr>) = current s"
  "using_missing_default (s\<lparr>errors := es\<rparr>) = using_missing_default s"
  by simp_all

lemma same_step_append_entry:
  "same_step s (s\<lparr>errors := es\<rparr>) (append_entry key v missing i m put s)
     (append_entry key v missing j m put (s\<lparr>errors := es\<rparr>))"
proof (cases "map_of m key")
  case None
  then show ?thesis by (simp add: append_entry_def same_step_update)
next
  case (Some x)
  show ?thesis
    unfolding append_entry_def Some option.case
    by (intro same_step_append) (simp_all add: same_step_def update_current_def push_error_def)
qed

lemma same_step_append_root:
  "same_step s (s\<lparr>errors := es\<rparr>)
     (case append_to_target (current (if using_missing_default s then s\<lparr>current := Null\<rparr> else s)) v ''root'' i of
        Ok updated \<Rightarrow> update_current updated (if using_missing_default s then s\<lparr>current := Null\<rparr> else s)
      | Err e \<Rightarrow> push_error e (if using_missing_default s then s\<lparr>current := Null\<rparr> else s))
     (case append_to_target
          (current (if using_missing_default s then s\<lparr>errors := es, current := Null\<rparr> else s\<lparr>errors := es\<rparr>))
          v ''root'' j of
        Ok updated \<Rightarrow> update_current updated
          (if using_missing_default s then s\<lparr>errors := es, current := Null\<rparr> else s\<lparr>errors := es\<rparr>)
      | Err e \<Rightarrow> push_error e
          (if using_missing_default s then s\<lparr>errors := es, current := Null\<rparr> else s\<lparr>errors := es\<rparr>))"
proof (cases "using_missing_default s")
  case True
  then show ?thesis by (simp add: append_to_target_def same_step_def update_current_def)
next
  case False
  show ?thesis
    unfolding if_not_P [OF False] errors_update_sel
    by (intro same_step_append) (simp_all add: same_step_def update_current_def push_error_def)
qed

lemma same_step_op: "same_step s (s\<lparr>errors := es\<rparr>) (apply_op i op s) (apply_op j op (s\<lparr>errors := es\<rparr>))"
proof (cases op)
  case (SetOp path v)
  show ?thesis
    unfolding SetOp apply_op.simps apply_set_def Let_def errors_update_sel
    by (intro same_step_intros) simp_all
next
  case (MergeOp path v)
  show ?thesis
    unfolding MergeOp apply_op.simps apply_merge_def Let_def errors_update_sel validate_merge_path_def
    by (intro same_step_intros) (simp_all add: same_step_update split: prod.split)
next
  case (IncrementOp path b)
  show ?thesis
    unfolding IncrementOp apply_op.simps apply_increment_def apply_counter_def Let_def errors_update_sel
    by (intro same_step_intros) (simp_all add: same_step_update)
next
  case (DecrementOp path b)
  show ?thesis
    unfolding DecrementOp apply_op.simps apply_decrement_def apply_counter_def Let_def errors_update_sel
    by (intro same_step_intros) (simp_all add: same_step_update)
next
  case (AppendOp path v)
  show ?thesis
    unfolding AppendOp apply_op.simps apply_append_def Let_def errors_update_sel
    by (intro same_step_intros same_step_append_entry same_step_append_root)
      (simp_all add: same_step_append_entry split: prod.split)
next
  case (RemoveOp path)
  show ?thesis
    unfolding RemoveOp apply_op.simps apply_remove_def errors_update_sel
    by (intro same_step_intros) simp_all
qed

definition accepted_ops :: "update_op list \<Rightarrow> update_error list \<Rightarrow> update_op list" where
  "accepted_ops ops errs =
     map snd (filter (\<lambda>(i, op). i \<notin> op_index ` set errs) (enumerate 0 ops))"

lemma accepted_ops_snoc:
  assumes "\<forall>e \<in> set errs. op_index e < length ops" and "\<forall>e \<in> set new. op_index e = length ops"
  shows "accepted_ops (ops @ [op]) (errs @ new) = accepted_ops ops errs @ (if new = [] then [op] else [])"
proof -
  have "filter (\<lambda>(i, op). i \<notin> op_index ` set (errs @ new)) (enumerate 0 ops) =
        filter (\<lambda>(i, op). i \<notin> op_index ` set errs) (enumerate 0 ops)"
    using assms(2) by (intro filter_cong) (force simp: in_set_enumerate_eq)+
  moreover have "length ops \<in> op_index ` set (errs @ new) \<longleftrightarrow> new \<noteq> []"
    using assms by (cases new) auto
  ultimately show ?thesis by (simp add: accepted_ops_def enumerate_snoc)
qed

lemma state_eqI:
  "current s = current t \<Longrightarrow> using_missing_default s = using_missing_default t \<Longrightarrow> errors s = errors t \<Longrightarrow>
   s = (t :: update_state)"
  by simp

lemma apply_ops_accepted:
  assumes "state_ok s" and "errors s = []" and "list_all op_wf ops"
  shows "apply_ops 0 (accepted_ops ops (errors (apply_ops 0 ops s))) s = (apply_ops 0 ops s)\<lparr>errors := []\<rparr>"
  using assms(3)
proof (induction ops rule: rev_induct)
  case Nil
  then show ?case using assms(2) by (simp add: accepted_ops_def)
next
  case (snoc op ops)
  let ?s = "apply_ops 0 ops s"
  let ?kept = "accepted_ops ops (errors ?s)"
  have wf: "list_all op_wf ops" "op_wf op" using snoc.prems by auto
  note ok = apply_ops_ok [OF assms(1) wf(1) assms(2)]
  note IH = snoc.IH [OF wf(1)]
  have "step_ok (length ops) ?s (apply_op (length ops) op ?s)"
    using ok wf by (intro apply_op_step) auto
  then consider e where "op_index e = length ops" "apply_op (length ops) op ?s = push_error e ?s"
    | "errors (apply_op (length ops) op ?s) = errors ?s"
    by (auto simp: step_ok_def)
  then show ?case
  proof cases
    case 1
    then have "accepted_ops (ops @ [op]) (errors (apply_ops 0 (ops @ [op]) s)) = ?kept"
      using ok accepted_ops_snoc [of "errors ?s" ops "[e]" op] by (simp add: apply_ops_snoc push_error_def)
    with 1 IH show ?thesis by (simp add: apply_ops_snoc push_error_def)
  next
    case 2
    then have kept: "accepted_ops (ops @ [op]) (errors (apply_ops 0 (ops @ [op]) s)) = ?kept @ [op]"
      using ok accepted_ops_snoc [of "errors ?s" ops "[]" op] by (simp add: apply_ops_snoc)
    have "apply_ops 0 (?kept @ [op]) s = apply_op (length ?kept) op (?s\<lparr>errors := []\<rparr>)"
      by (simp add: apply_ops_snoc IH)
    also have "\<dots> = (apply_op (length ops) op ?s)\<lparr>errors := []\<rparr>"
      using same_step_op [of ?s "[]" "length ops" op "length ?kept"] 2
      by (intro state_eqI) (auto simp: same_step_def)
    finally show ?thesis unfolding kept by (simp add: apply_ops_snoc)
  qed
qed

section \<open>Polluted keys\<close>

fun top_keys :: "json \<Rightarrow> string set" where
  "top_keys (Object m) = fst ` set m"
| "top_keys _ = {}"

definition clean :: "json \<Rightarrow> bool" where
  "clean v \<longleftrightarrow> top_keys v \<inter> set PROTO_POLLUTION_KEYS = {}"

fun op_clean :: "update_op \<Rightarrow> bool" where
  "op_clean (SetOp [] (Some v)) = clean v"
| "op_clean _ = True"

lemma validated_clean:
  assumes "validate_op_path n i segs = None" and "seg \<in> set segs"
  shows "seg \<notin> set PROTO_POLLUTION_KEYS"
proof -
  have "validate_segments n i segs = None \<Longrightarrow> seg \<in> set segs \<Longrightarrow> seg \<notin> set PROTO_POLLUTION_KEYS"
    by (induction n i segs rule: validate_segments.induct) (auto split: if_splits)
  with assms show ?thesis by (auto simp: validate_op_path_def split: if_splits)
qed

lemma clean_leaf [simp]: "\<not> is_object v \<Longrightarrow> clean v"
  by (cases v) (auto simp: clean_def)

lemma clean_insert:
  "clean (Object m) \<Longrightarrow> k \<notin> set PROTO_POLLUTION_KEYS \<Longrightarrow> clean (Object (map_insert k v m))"
  by (auto simp: clean_def map_keys_insert)

lemma clean_empty [simp]: "clean (Object [])"
  by (simp add: clean_def)

lemma clean_insert_all:
  "clean (Object new) \<Longrightarrow> clean (Object m) \<Longrightarrow> clean (Object (insert_all new m))"
proof (induction new arbitrary: m)
  case (Cons e new)
  then have "clean (Object new)" "fst e \<notin> set PROTO_POLLUTION_KEYS"
    by (auto simp: clean_def)
  with Cons show ?case by (simp add: insert_all_def split_def clean_insert)
qed (simp add: insert_all_def)

lemma clean_walk:
  assumes "walk_or_create v segs = Some (m, put)" and "clean v" and "segs \<noteq> []"
    and "hd segs \<notin> set PROTO_POLLUTION_KEYS"
  shows "clean (put m')"
proof -
  obtain seg rest where segs: "segs = seg # rest" using assms(3) by (cases segs) auto
  obtain m0 where "(if is_object v then v else Object []) = Object m0" "clean (Object m0)"
    using assms(2) by (cases v) auto
  with assms(1,4) show ?thesis
    by (auto simp: walk_or_create_def segs clean_insert split: option.splits)
qed

lemma validate_merge_clean: "validate_merge_value i (Object new) = None \<Longrightarrow> clean (Object new)"
  by (auto simp: validate_merge_value_def clean_def find_None_iff split: if_splits option.splits)

lemma clean_append_entry:
  assumes "clean (current s)" and "\<And>m'. m' = m \<or> (\<exists>w. m' = map_insert key w m) \<Longrightarrow> clean (put m')"
  shows "clean (current (append_entry key v missing i m put s))"
  using assms
  by (auto simp: append_entry_def update_current_def push_error_def split: option.splits sum.splits)

lemma clean_append:
  assumes "clean (current s)"
  shows "clean (current (apply_append i path v s))"
proof -
  let ?segs = "merge_path_segments path"
  consider e where "validate_op_path ''append'' i ?segs = Some e"
    | "validate_op_path ''append'' i ?segs = None" "?segs = []"
    | "validate_op_path ''append'' i ?segs = None" "?segs \<noteq> []" "\<not> is_object (current s)"
    | m where "validate_op_path ''append'' i ?segs = None" "?segs \<noteq> []" "current s = Object m"
    by (cases "validate_op_path ''append'' i ?segs"; cases "?segs = []"; cases "current s"; simp)
  then show ?thesis
  proof cases
    case 2
    have "clean w" if "append_to_target target v ''root'' i = Ok w" for w target
      using that by (cases w) (auto simp: append_to_target_def initial_append_value_def
          split: json.splits option.splits)
    with 2 assms show ?thesis
      by (auto simp: apply_append_def Let_def update_current_def push_error_def split: sum.splits)
  next
    case (4 m)
    have seg: "seg \<notin> set PROTO_POLLUTION_KEYS" if "seg \<in> set ?segs" for seg
      using validated_clean [OF 4(1)] that by blast
    show ?thesis
    proof (cases "length ?segs = 1")
      case True
      have "clean (current (append_entry (hd ?segs) v (initial_append_value v) i m Object s))"
        using assms 4 seg [of "hd ?segs"] by (intro clean_append_entry) (auto simp: clean_insert)
      with True 4 show ?thesis by (simp add: apply_append_def Let_def)
    next
      case False
      then have long: "butlast ?segs \<noteq> []" "hd (butlast ?segs) \<in> set ?segs"
        using 4(2) by (cases ?segs; cases "tl ?segs"; auto)+
      have "clean (current (append_entry (last ?segs) v (Array [v]) i parent put s))"
        if "walk_or_create (current s) (butlast ?segs) = Some (parent, put)" for parent put
        using clean_walk [OF that assms long(1) seg [OF long(2)]] assms by (intro clean_append_entry)
      with False 4 assms show ?thesis by (auto simp: apply_append_def Let_def split: option.splits)
    qed
  qed (use assms in \<open>auto simp: apply_append_def push_error_def Let_def\<close>)
qed

lemma clean_merge:
  assumes "clean (current s)"
  shows "clean (current (apply_merge i path v s))"
proof -
  let ?segs = "merge_path_segments path"
  have "clean (put (insert_all new m))"
    if "validate_op_path ''merge'' i ?segs = None" "?segs \<noteq> []"
      "walk_or_create (current s) ?segs = Some (m, put)" for m put new
    using clean_walk [OF that(3) assms that(2)] validated_clean [OF that(1)] that(2) by simp
  moreover have "clean (Object (insert_all new m))"
    if "validate_merge_value i (Object new) = None" "current s = Object m" for new m
    using that assms validate_merge_clean by (intro clean_insert_all) auto
  ultimately show ?thesis
    using assms
    by (auto simp: apply_merge_def validate_merge_path_def Let_def push_error_def update_current_def
        split: option.splits json.splits)
qed

lemma clean_counter: "clean (current s) \<Longrightarrow> is_object missing = False \<Longrightarrow>
  (\<And>v w. step v = Some w \<Longrightarrow> \<not> is_object w) \<Longrightarrow> clean (current (apply_counter n missing step i path s))"
  using validated_clean [of n i "field_path_segments path" path]
  by (auto simp: apply_counter_def Let_def push_error_def update_current_def clean_insert
      field_path_segments_def split: option.splits json.splits)

lemma counters_not_object:
  "increment_number v b = Some w \<Longrightarrow> \<not> is_object w" "decrement_number v b = Some w \<Longrightarrow> \<not> is_object w"
  "\<not> is_object (missing_decrement_value b)"
  by (auto simp: increment_number_def decrement_number_def missing_decrement_value_def
      split: option.splits json.splits number.splits)

lemma clean_set:
  "clean (current s) \<Longrightarrow> op_clean (SetOp path v) \<Longrightarrow> clean (current (apply_set i path v s))"
  using validated_clean [of "''set''" i "field_path_segments path" path]
  by (cases path)
    (auto simp: apply_set_def Let_def push_error_def update_current_def clean_insert
      field_path_segments_def split: option.splits json.splits)

lemma clean_remove: "clean (current s) \<Longrightarrow> clean (current (apply_remove i path s))"
  by (auto simp: apply_remove_def push_error_def update_current_def split: option.splits json.splits)
    (auto simp: clean_def map_remove_def)

lemma clean_op: "clean (current s) \<Longrightarrow> op_clean op \<Longrightarrow> clean (current (apply_op i op s))"
  by (cases op)
    (auto simp: apply_increment_def apply_decrement_def counters_not_object clean_merge clean_append
      clean_remove clean_set intro!: clean_counter simp del: op_clean.simps)

section \<open>Properties\<close>

text \<open>C15: counters are exact: incrementing or decrementing an integer gives the integer sum or
  difference whenever that lies between the least \<open>i64\<close> and the greatest \<open>u64\<close>, and nothing
  otherwise; no intermediate overflow is visible.\<close>

theorem counters_exact:
  assumes "int_value v = Some n" and "json_wf v"
  shows "increment_number v b = (if representable (n + sint b) then Some (int_number (n + sint b)) else None) \<and>
    decrement_number v b = (if representable (n - sint b) then Some (int_number (n - sint b)) else None)"
  using increment_exact [OF assms] decrement_exact [OF assms] by blast

theorem counters_exact_witness:
  "increment_number (int_number (2 ^ 63 - 1)) 1 = Some (int_number (2 ^ 63)) \<and>
   decrement_number (int_number (- (2 ^ 63))) 1 = None"
proof -
  have "int_value (int_number (2 ^ 63 - 1)) = Some (2 ^ 63 - 1)" "json_wf (int_number (2 ^ 63 - 1))"
    "int_value (int_number (- (2 ^ 63))) = Some (- (2 ^ 63))" "json_wf (int_number (- (2 ^ 63)))"
    using int_value_number by (simp_all add: representable_def)
  from counters_exact [OF this(1,2), of 1] counters_exact [OF this(3,4), of 1] show ?thesis
    by (simp add: representable_def)
qed

text \<open>a decrement undoes an increment of the same amount, and the other way round, on every
  integer whose updated value is representable.\<close>

theorem counters_round_trip:
  assumes "int_value v \<noteq> None" and "json_wf v"
  shows "(increment_number v b = Some w \<longrightarrow> decrement_number w b = Some v) \<and>
    (decrement_number v b = Some w \<longrightarrow> increment_number w b = Some v)"
proof -
  from assms(1) obtain n where n: "int_value v = Some n" by auto
  have v: "representable n" "v = int_number n" using int_number_value [OF n assms(2)] by auto
  have "decrement_number (int_number (n + sint b)) b = Some v" if "representable (n + sint b)"
    using decrement_exact [of "int_number (n + sint b)"] int_value_number [OF that] v by simp
  moreover have "increment_number (int_number (n - sint b)) b = Some v" if "representable (n - sint b)"
    using increment_exact [of "int_number (n - sint b)"] int_value_number [OF that] v by simp
  ultimately show ?thesis
    using increment_exact [OF n assms(2), of b] decrement_exact [OF n assms(2), of b]
    by (auto split: if_splits)
qed

theorem counters_round_trip_witness:
  "increment_number (int_number 5) 3 = Some (int_number 8) \<and>
   decrement_number (int_number 8) 3 = Some (int_number 5)"
proof -
  have v: "int_value (int_number 5) = Some 5" "json_wf (int_number 5)"
    using int_value_number [of 5] by (simp_all add: representable_def)
  have "increment_number (int_number 5) 3 = Some (int_number 8)"
    using increment_exact [OF v, of 3] by (simp add: representable_def)
  with counters_round_trip [of "int_number 5" 3 "int_number 8"] v show ?thesis by simp
qed

text \<open>C14: an operation is applied or rejected as a whole: either it adds one error carrying its own
  index and changes nothing else, not even an object on the way to a nested target, or it
  reports nothing and leaves a well-formed value.\<close>

theorem update_op_all_or_nothing:
  assumes "state_ok s" and "op_wf op"
  shows "(\<exists>e. op_index e = i \<and> apply_op i op s = push_error e s) \<or>
    errors (apply_op i op s) = errors s \<and> json_wf (current (apply_op i op s))"
  using apply_op_step [OF assms, of i] by (auto simp: step_ok_def state_ok_def)

definition sample_append :: update_op where
  "sample_append = AppendOp (Some (Segments [''a'', ''b''])) (Bool True)"

theorem update_op_all_or_nothing_witness:
  "\<exists>e. op_index e = 7 \<and>
    apply_op 7 sample_append (initial_state (Some (Object [(''a'', Object [(''b'', Bool False)])]))) =
    push_error e (initial_state (Some (Object [(''a'', Object [(''b'', Bool False)])])))"
proof -
  let ?s = "initial_state (Some (Object [(''a'', Object [(''b'', Bool False)])]))"
  have "state_ok ?s" "op_wf sample_append"
    by (simp_all add: state_ok_def initial_state_def op_wf_def sample_append_def map_sorted_def)
  from update_op_all_or_nothing [OF this, of 7]
  have "(\<exists>e. op_index e = 7 \<and> apply_op 7 sample_append ?s = push_error e ?s) \<or>
    errors (apply_op 7 sample_append ?s) = errors ?s"
    by blast
  moreover have "errors (apply_op 7 sample_append ?s) \<noteq> errors ?s"
    by (simp add: sample_append_def initial_state_def apply_append_def Let_def merge_path_segments_def
        validate_op_path_def PROTO_POLLUTION_KEYS_def walk_or_create_def object_entry_def
        append_entry_def append_to_target_def push_error_def update_current_def)
  ultimately show ?thesis by blast
qed

text \<open>C13: a batch reports at most one error per operation, in the order of the operations, and its
  value is the value of the accepted operations alone: running only those gives the same
  value and no error.\<close>

theorem batch_is_accepted_ops:
  assumes "apply_update_ops old ops = (v, errs)" and "list_all op_wf ops"
    and "\<And>w. old = Some w \<Longrightarrow> json_wf w"
  shows "json_wf v \<and> sorted_wrt (<) (map op_index errs) \<and> (\<forall>e \<in> set errs. op_index e < length ops) \<and>
    apply_update_ops old (accepted_ops ops errs) = (v, [])"
proof -
  have ok: "state_ok (initial_state old)"
    using assms(3) by (intro initial_state_ok) (auto split: option.split)
  have init: "errors (initial_state old) = []" by (simp add: initial_state_def)
  from apply_ops_ok [OF ok assms(2) init] apply_ops_accepted [OF ok init assms(2)] assms(1)
  show ?thesis by (auto simp: apply_update_ops_def Let_def state_ok_def)
qed

theorem batch_is_accepted_ops_witness:
  "apply_update_ops None
     (accepted_ops [RemoveOp ''__proto__'', IncrementOp ''n'' 2] (snd (apply_update_ops None
        [RemoveOp ''__proto__'', IncrementOp ''n'' 2]))) =
   (fst (apply_update_ops None [RemoveOp ''__proto__'', IncrementOp ''n'' 2]), [])"
  using batch_is_accepted_ops
    [of None "[RemoveOp ''__proto__'', IncrementOp ''n'' 2]", OF prod.collapse [symmetric]]
  by (simp add: op_wf_def)

text \<open>updates do not introduce the keys that pollute prototypes: if the stored value has none
  of them at its top level and no operation replaces the root by a value that has, the
  result has none.\<close>

theorem updates_keep_clean:
  assumes "\<And>w. old = Some w \<Longrightarrow> clean w" and "list_all op_clean ops"
  shows "clean (fst (apply_update_ops old ops))"
proof -
  have init: "clean (current (initial_state old))"
    using assms(1) by (cases old) (auto simp: initial_state_def)
  from assms(2) have "clean (current (apply_ops 0 ops (initial_state old)))"
    by (induction ops rule: rev_induct) (simp_all add: init apply_ops_snoc clean_op)
  then show ?thesis by (simp add: apply_update_ops_def Let_def)
qed

theorem updates_keep_clean_witness:
  "clean (fst (apply_update_ops None
     [SetOp ''__proto__'' (Some Null), MergeOp None (Object [(''constructor'', Null)])]))"
  by (rule updates_keep_clean) simp_all

text \<open>a nested merge writes the given keys at the end of its path and keeps every other key
  there and every other top-level key; it reports no error.\<close>

theorem merge_at_path:
  assumes "json_wf old" and "json_wf (Object new)" and "segs \<noteq> []"
    and "validate_merge_path 0 segs = None" and "validate_merge_value 0 (Object new) = None"
  shows "\<exists>v. apply_update_ops (Some old) [MergeOp (Some (Segments segs)) (Object new)] = (v, []) \<and>
    (\<forall>k. get_path v (segs @ [k]) =
       (case map_of new k of Some w \<Rightarrow> Some w | None \<Rightarrow> get_path old (segs @ [k]))) \<and>
    (\<forall>k. k \<noteq> hd segs \<longrightarrow> json_get v k = json_get old k)"
proof -
  define base where "base = (if is_object old then old else Object [])"
  have base: "json_wf base" "is_object base" using assms(1) by (auto simp: base_def)
  obtain m put where walk: "walk_from base segs = Some (m, put)"
    using walk_from_object [OF base(2)] by blast
  have read: "json_get old k = json_get base k" for k
    by (cases old) (auto simp: base_def)
  have "get_path old (segs @ [k]) = map_of m k" for k
    using walk_from_get [OF walk base(1)] read assms(3) by (cases segs) auto
  moreover have "map_of (insert_all new m) k = (case map_of new k of Some w \<Rightarrow> Some w | None \<Rightarrow> map_of m k)" for k
    using jmap.get_insert_all [of m new] walk_from_wf [OF walk base(1)] assms(2)
    by (simp add: insert_all_def map_add_def map_of_rev_sorted split: option.split)
  moreover have "get_path (put (insert_all new m)) (segs @ [k]) = map_of (insert_all new m) k" for k
    using walk_from_get [OF walk base(1), of k "insert_all new m" "[]"] by (simp split: option.split bind_splits)
  moreover have "json_get (put (insert_all new m)) k = json_get old k" if "k \<noteq> hd segs" for k
  proof -
    obtain m0 where m0: "base = Object m0" using base(2) by (cases base) auto
    obtain seg rest where "segs = seg # rest" using assms(3) by (cases segs) auto
    with walk walk_from_frame [of m0 seg rest m put k] m0 base(1) that show ?thesis
      by (simp add: read)
  qed
  moreover have "apply_update_ops (Some old) [MergeOp (Some (Segments segs)) (Object new)] =
      (put (insert_all new m), [])"
    using assms(3-5) walk
    by (simp add: apply_update_ops_def apply_ops_def apply_merge_def merge_path_segments_def
        initial_state_def walk_or_create_def base_def [symmetric] update_current_def Let_def)
  ultimately show ?thesis by (intro exI [of _ "put (insert_all new m)"]) (auto split: option.split)
qed

theorem merge_at_path_witness:
  "\<exists>v. apply_update_ops (Some (Object [(''a'', Null), (''b'', Null)]))
      [MergeOp (Some (Segments [''a'', ''x''])) (Object [(''k'', Bool True)])] = (v, []) \<and>
    get_path v [''a'', ''x'', ''k''] = Some (Bool True) \<and> json_get v ''b'' = Some Null"
  using merge_at_path [of "Object [(''a'', Null), (''b'', Null)]" "[(''k'', Bool True)]" "[''a'', ''x'']"]
  by (fastforce simp: map_sorted_def less_char_def validate_merge_path_def validate_op_path_def
      PROTO_POLLUTION_KEYS_def validate_merge_value_def)

end
