(* ===== verification/Kv_Store.thy ===== *)
theory Kv_Store
  imports Update_Ops
begin

text \<open>
  The built-in key-value store of the engine (\<open>engine/src/builtins/kv.rs\<close>): scopes of values
  in insertion order, locks with an expiry, atomic updates, and the persistence of scopes to
  one file per index.  The mutations are split, as in the code, into the write under the lock
  of the store and the later mark in the map of dirty indexes, so that their interleaving
  with a flush can be studied in \<open>Kv_Persist\<close>.

  The file format (an \<open>rkyv\<close> archive of a \<open>serde_json\<close> text) is the pair of parameters
  \<open>to_file\<close> and \<open>of_file\<close>.
\<close>

section \<open>Insertion-ordered maps\<close>

text \<open>\<open>IndexMap::insert\<close> and \<open>IndexMap::shift_remove\<close>.\<close>

fun imap_insert :: "'k \<Rightarrow> 'v \<Rightarrow> ('k \<times> 'v) list \<Rightarrow> ('k \<times> 'v) list" where
  "imap_insert k v [] = [(k, v)]"
| "imap_insert k v (e # m) = (if fst e = k then (k, v) # m else e # imap_insert k v m)"

definition imap_wf :: "('k \<times> 'v) list \<Rightarrow> bool" where
  "imap_wf m \<longleftrightarrow> distinct (map_keys m)"

lemma imap_keys_insert:
  "map_keys (imap_insert k v m) = (if k \<in> fst ` set m then map_keys m else map_keys m @ [k])"
  by (induction k v m rule: imap_insert.induct) auto

lemma imap_wf_insert: "imap_wf m \<Longrightarrow> imap_wf (imap_insert k v m)"
  by (simp add: imap_wf_def imap_keys_insert)

lemma map_of_imap_insert: "map_of (imap_insert k v m) = (map_of m)(k \<mapsto> v)"
  by (induction k v m rule: imap_insert.induct) auto

lemma imap_wf_remove: "imap_wf m \<Longrightarrow> imap_wf (map_remove k m)"
  by (simp add: imap_wf_def map_remove_def distinct_map_filter)

interpretation imap: key_map map_of imap_insert map_remove imap_wf
  by unfold_locales (simp_all add: map_of_imap_insert map_of_remove imap_wf_insert imap_wf_remove)

section \<open>File names\<close>

definition is_plain :: "char \<Rightarrow> bool" where
  "is_plain c \<longleftrightarrow>
     (let n = of_char c :: nat
      in 65 \<le> n \<and> n \<le> 90 \<or> 97 \<le> n \<and> n \<le> 122 \<or> 48 \<le> n \<and> n \<le> 57 \<or> n = 45 \<or> n = 95 \<or> n = 46)"

definition hex_upper :: "nat \<Rightarrow> char" where
  "hex_upper n = char_of (if n < 10 then 48 + n else 55 + n)"

definition to_digit16 :: "char \<Rightarrow> nat option" where
  "to_digit16 c =
     (let n = of_char c
      in if 48 \<le> n \<and> n \<le> 57 then Some (n - 48)
         else if 65 \<le> n \<and> n \<le> 70 then Some (n - 55)
         else if 97 \<le> n \<and> n \<le> 102 then Some (n - 87)
         else None)"

definition encode_index :: "string \<Rightarrow> string" where
  "encode_index index =
     concat (map (\<lambda>c. if is_plain c then [c]
       else [CHR ''%'', hex_upper (of_char c div 16), hex_upper (of_char c mod 16)]) index)"

fun decode_bytes :: "string \<Rightarrow> string option" where
  "decode_bytes [] = Some []"
| "decode_bytes (c # cs) =
     (if c = CHR ''%'' then
        (case cs of
           high # low # rest \<Rightarrow>
             (case (to_digit16 high, to_digit16 low) of
                (Some h, Some l) \<Rightarrow> map_option ((#) (char_of (16 * h + l))) (decode_bytes rest)
              | _ \<Rightarrow> None)
         | _ \<Rightarrow> None)
      else map_option ((#) c) (decode_bytes cs))"

text \<open>\<open>String::from_utf8\<close>: the byte sequences of well-formed UTF-8.\<close>

definition utf8_tail :: "nat \<Rightarrow> nat \<Rightarrow> char \<Rightarrow> bool" where
  "utf8_tail low high c \<longleftrightarrow> low \<le> of_char c \<and> of_char c \<le> high"

fun utf8_valid :: "string \<Rightarrow> bool" where
  "utf8_valid [] = True"
| "utf8_valid (c # cs) =
     (let n = of_char c :: nat
      in if n < 0x80 then utf8_valid cs
         else if 0xC2 \<le> n \<and> n \<le> 0xDF then
           (case cs of c1 # rest \<Rightarrow> utf8_tail 0x80 0xBF c1 \<and> utf8_valid rest | _ \<Rightarrow> False)
         else if 0xE0 \<le> n \<and> n \<le> 0xEF then
           (case cs of
              c1 # c2 # rest \<Rightarrow>
                utf8_tail (if n = 0xE0 then 0xA0 else 0x80) (if n = 0xED then 0x9F else 0xBF) c1 \<and>
                utf8_tail 0x80 0xBF c2 \<and> utf8_valid rest
            | _ \<Rightarrow> False)
         else if 0xF0 \<le> n \<and> n \<le> 0xF4 then
           (case cs of
              c1 # c2 # c3 # rest \<Rightarrow>
                utf8_tail (if n = 0xF0 then 0x90 else 0x80) (if n = 0xF4 then 0x8F else 0xBF) c1 \<and>
                utf8_tail 0x80 0xBF c2 \<and> utf8_tail 0x80 0xBF c3 \<and> utf8_valid rest
            | _ \<Rightarrow> False)
         else False)"

definition decode_index :: "string \<Rightarrow> string option" where
  "decode_index encoded =
     (case decode_bytes encoded of
        Some bytes \<Rightarrow> if utf8_valid bytes then Some bytes else None
      | None \<Rightarrow> None)"

definition index_file_name :: "string \<Rightarrow> string" where
  "index_file_name index = encode_index index @ ''.bin''"

definition strip_suffix :: "string \<Rightarrow> string \<Rightarrow> string option" where
  "strip_suffix suf s =
     (if suffix suf s then Some (take (length s - length suf) s) else None)"

definition index_from_path :: "string \<Rightarrow> string option" where
  "index_from_path file_name =
     (case strip_suffix ''.bin'' file_name of None \<Rightarrow> None | Some s \<Rightarrow> decode_index s)"

text \<open>
  \<open>Path::extension\<close> of a file name: what follows the last dot, if something precedes it.
\<close>

definition path_extension :: "string \<Rightarrow> string option" where
  "path_extension file_name =
     (if file_name = ''..'' then None
      else
        (let ext = rev (takeWhile (\<lambda>c. c \<noteq> CHR ''.'') (rev file_name));
             stem = rev (dropWhile (\<lambda>c. c \<noteq> CHR ''.'') (rev file_name))
         in if length stem \<le> 1 then None else Some ext))"

section \<open>The store\<close>

type_synonym scope = "(string \<times> json) list"
type_synonym store = "string \<rightharpoonup> scope"

datatype dirty_op = Upsert | Delete

record lock_entry =
  lock_owner :: string
  expires_at_ms :: i64

definition is_expired :: "lock_entry \<Rightarrow> i64 \<Rightarrow> bool" where
  "is_expired entry now_ms \<longleftrightarrow> sint (expires_at_ms entry) \<le> sint now_ms"

text \<open>
  The derived \<open>Serialize\<close> and \<open>Deserialize\<close> of a lock entry: it is written as an object and
  read from an object with both fields or from a pair.
\<close>

definition lock_to_value :: "lock_entry \<Rightarrow> json" where
  "lock_to_value entry =
     Object [(''expires_at_ms'', Number (number_of_i64 (expires_at_ms entry))),
             (''owner'', String (lock_owner entry))]"

definition lock_fields :: "json option \<Rightarrow> json option \<Rightarrow> lock_entry option" where
  "lock_fields owner expires =
     (case (owner, Option.bind expires as_i64) of
        (Some (String o1), Some e) \<Rightarrow> Some \<lparr>lock_owner = o1, expires_at_ms = e\<rparr>
      | _ \<Rightarrow> None)"

fun lock_of_value :: "json \<Rightarrow> lock_entry option" where
  "lock_of_value (Object m) = lock_fields (map_of m ''owner'') (map_of m ''expires_at_ms'')"
| "lock_of_value (Array [owner, expires]) = lock_fields (Some owner) (Some expires)"
| "lock_of_value _ = None"

definition saturating_add_i64 :: "i64 \<Rightarrow> i64 \<Rightarrow> i64" where
  "saturating_add_i64 a b =
     word_of_int (max (- (2 ^ 63)) (min (2 ^ 63 - 1) (sint a + sint b)))"

text \<open>
  The calls that may change the store, with the clock reading of a lock call, and their
  replies.  \<open>run_call\<close> is what happens under the write lock: the store it leaves, the reply,
  and the mark that is recorded afterwards, if any.
\<close>

datatype kv_call =
    SetCall string string json
  | DeleteCall string string
  | AcquireCall string string string u64 i64
  | ReleaseCall string string string
  | UpdateCall string string "update_op list"

datatype kv_reply =
    SetReply "json option" json
  | DeleteReply "json option"
  | LockReply bool
  | UpdateReply "json option" json "update_error list"

definition scope_of :: "store \<Rightarrow> string \<Rightarrow> scope" where
  "scope_of s index = (case s index of None \<Rightarrow> [] | Some m \<Rightarrow> m)"

definition set_store :: "string \<Rightarrow> string \<Rightarrow> json \<Rightarrow> store \<Rightarrow> store \<times> kv_reply \<times> (string \<times> dirty_op) option" where
  "set_store index key data s =
     (let m = scope_of s index
      in (s(index \<mapsto> imap_insert key data m), SetReply (map_of m key) data, Some (index, Upsert)))"

definition remove_mark :: "scope \<Rightarrow> dirty_op" where
  "remove_mark m = (if m = [] then Delete else Upsert)"

definition delete_store :: "string \<Rightarrow> string \<Rightarrow> store \<Rightarrow> store \<times> kv_reply \<times> (string \<times> dirty_op) option" where
  "delete_store index key s =
     (case s index of
        None \<Rightarrow> (s, DeleteReply None, None)
      | Some m \<Rightarrow>
          (case map_of m key of
             None \<Rightarrow> (s, DeleteReply None, None)
           | Some v \<Rightarrow>
               let m' = map_remove key m
               in (s(index \<mapsto> m'), DeleteReply (Some v), Some (index, remove_mark m'))))"

definition can_acquire :: "json option \<Rightarrow> i64 \<Rightarrow> bool" where
  "can_acquire v now_ms =
     (case v of
        None \<Rightarrow> True
      | Some v \<Rightarrow>
          (case lock_of_value v of Some entry \<Rightarrow> is_expired entry now_ms | None \<Rightarrow> True))"

definition acquire_store ::
    "string \<Rightarrow> string \<Rightarrow> string \<Rightarrow> u64 \<Rightarrow> i64 \<Rightarrow> store \<Rightarrow> store \<times> kv_reply \<times> (string \<times> dirty_op) option" where
  "acquire_store index key owner ttl_ms now_ms s =
     (let m = scope_of s index;
          lock_value = lock_to_value
            \<lparr>lock_owner = owner, expires_at_ms = saturating_add_i64 now_ms ttl_ms\<rparr>
      in if can_acquire (map_of m key) now_ms
         then (s(index \<mapsto> imap_insert key lock_value m), LockReply True, Some (index, Upsert))
         else (s(index \<mapsto> m), LockReply False, None))"

definition release_store ::
    "string \<Rightarrow> string \<Rightarrow> string \<Rightarrow> store \<Rightarrow> store \<times> kv_reply \<times> (string \<times> dirty_op) option" where
  "release_store index key owner s =
     (case s index of
        None \<Rightarrow> (s, LockReply False, None)
      | Some m \<Rightarrow>
          let should_remove =
            (case map_of m key of
               None \<Rightarrow> False
             | Some v \<Rightarrow>
                 (case lock_of_value v of Some entry \<Rightarrow> lock_owner entry = owner | None \<Rightarrow> False))
          in if should_remove
             then (let m' = map_remove key m
                   in (s(index \<mapsto> m'), LockReply True, Some (index, remove_mark m')))
             else (s, LockReply False, None))"

definition update_store ::
    "string \<Rightarrow> string \<Rightarrow> update_op list \<Rightarrow> store \<Rightarrow> store \<times> kv_reply \<times> (string \<times> dirty_op) option" where
  "update_store index key ops s =
     (let m = scope_of s index;
          (updated, errs) = apply_update_ops (map_of m key) ops
      in (s(index \<mapsto> imap_insert key updated m), UpdateReply (map_of m key) updated errs,
          Some (index, Upsert)))"

fun run_call :: "kv_call \<Rightarrow> store \<Rightarrow> store \<times> kv_reply \<times> (string \<times> dirty_op) option" where
  "run_call (SetCall index key data) s = set_store index key data s"
| "run_call (DeleteCall index key) s = delete_store index key s"
| "run_call (AcquireCall index key owner ttl now) s = acquire_store index key owner ttl now s"
| "run_call (ReleaseCall index key owner) s = release_store index key owner s"
| "run_call (UpdateCall index key ops) s = update_store index key ops s"

record kv =
  kv_store :: store
  kv_file_backed :: bool
  kv_dirty :: "string \<rightharpoonup> dirty_op"

text \<open>A whole call: the write, then the mark when the store is file-backed.\<close>

definition kv_do :: "kv_call \<Rightarrow> kv \<Rightarrow> kv_reply \<times> kv" where
  "kv_do c k =
     (let (s, reply, mark) = run_call c (kv_store k);
          dirty = (case mark of
             Some (index, op) \<Rightarrow> if kv_file_backed k then (kv_dirty k)(index \<mapsto> op) else kv_dirty k
           | None \<Rightarrow> kv_dirty k)
      in (reply, k\<lparr>kv_store := s, kv_dirty := dirty\<rparr>))"

definition kv_get :: "string \<Rightarrow> string \<Rightarrow> kv \<Rightarrow> json option" where
  "kv_get index key k = Option.bind (kv_store k index) (\<lambda>m. map_of m key)"

definition kv_list :: "string \<Rightarrow> kv \<Rightarrow> json list" where
  "kv_list index k = (case kv_store k index of None \<Rightarrow> [] | Some m \<Rightarrow> map snd m)"

definition list_keys_with_prefix :: "string \<Rightarrow> kv \<Rightarrow> string set" where
  "list_keys_with_prefix pre k = {index \<in> dom (kv_store k). starts_with index pre}"

definition list_groups :: "kv \<Rightarrow> string set" where
  "list_groups k = dom (kv_store k)"

section \<open>Configuration\<close>

abbreviation DEFAULT_SAVE_INTERVAL_MS :: u64 where "DEFAULT_SAVE_INTERVAL_MS \<equiv> 5000"
abbreviation MIN_SAVE_INTERVAL_MS :: u64 where "MIN_SAVE_INTERVAL_MS \<equiv> 100"

definition save_interval :: "json option \<Rightarrow> u64 \<Rightarrow> u64" where
  "save_interval config fallback =
     max MIN_SAVE_INTERVAL_MS
       (case Option.bind config (\<lambda>cfg. Option.bind (json_get cfg ''save_interval_ms'') as_u64) of
          Some n \<Rightarrow> if 0 < n then n else fallback
        | None \<Rightarrow> fallback)"

definition config_text :: "json option \<Rightarrow> string \<Rightarrow> string \<Rightarrow> string" where
  "config_text config field fallback =
     (case Option.bind config (\<lambda>cfg. Option.bind (json_get cfg field) as_str) of
        Some s \<Rightarrow> s | None \<Rightarrow> fallback)"

definition store_dir :: "json option \<Rightarrow> string option" where
  "store_dir config =
     (if config_text config ''store_method'' ''in_memory'' = ''file_based''
      then Some (config_text config ''file_path'' ''kv_store_data.db'') else None)"

text \<open>\<open>new\<close>, given what \<open>load_store_from_dir\<close> returns; the interval is \<open>default_interval\<close>.\<close>

definition kv_new :: "json option \<Rightarrow> store \<Rightarrow> kv \<times> u64" where
  "kv_new config loaded =
     (\<lparr>kv_store = (if store_dir config = None then Map.empty else loaded),
       kv_file_backed = store_dir config \<noteq> None, kv_dirty = Map.empty\<rparr>,
      save_interval config DEFAULT_SAVE_INTERVAL_MS)"

text \<open>\<open>reconfigure\<close>: the interval the save loop is restarted with, if it is.\<close>

definition reconfigure :: "kv \<Rightarrow> u64 \<Rightarrow> json \<Rightarrow> u64 option" where
  "reconfigure k default_interval config =
     (if kv_file_backed k then Some (save_interval (Some config) default_interval) else None)"

section \<open>File names identify indexes\<close>

lemma to_digit16_hex: "n < 16 \<Longrightarrow> to_digit16 (hex_upper n) = Some n"
  by (auto simp: to_digit16_def hex_upper_def Let_def)

lemma char_nibbles: "of_char c div 16 < (16 :: nat)" "of_char c mod 16 < (16 :: nat)"
proof -
  have "(of_char c :: nat) < 16 * 16" by simp
  then show "of_char c div 16 < (16 :: nat)" by (rule less_mult_imp_div_less)
qed simp

lemma decode_encode_bytes: "decode_bytes (encode_index s) = Some s"
proof (induction s)
  case Nil
  then show ?case by (simp add: encode_index_def)
next
  case (Cons c s)
  have "\<not> is_plain (CHR ''%'')" by (simp add: is_plain_def)
  with Cons char_nibbles [of c] show ?case
    by (auto simp: encode_index_def to_digit16_hex)
qed

lemma encode_index_inj: "encode_index a = encode_index b \<Longrightarrow> a = b"
  by (metis decode_encode_bytes option.inject)

lemma index_file_name_inj: "index_file_name a = index_file_name b \<longleftrightarrow> a = b"
  using encode_index_inj by (auto simp: index_file_name_def)

lemma index_from_file_name: "utf8_valid index \<Longrightarrow> index_from_path (index_file_name index) = Some index"
  by (simp add: index_from_path_def index_file_name_def strip_suffix_def decode_index_def
      decode_encode_bytes suffix_def)

lemma set_encode_index: "set (encode_index s) \<subseteq> {c. is_plain c} \<union> {CHR ''%''}"
proof -
  have "is_plain (hex_upper n)" if "n < 16" for n
    using that by (auto simp: is_plain_def hex_upper_def Let_def)
  then show ?thesis using char_nibbles by (auto simp: encode_index_def split: if_splits)
qed

lemma path_extension_bin: "path_extension (s @ ''.bin'') = (if s = [] then None else Some ''bin'')"
  by (simp add: path_extension_def Let_def)

section \<open>Reading what was written\<close>

lemma kv_do_store: "kv_store (snd (kv_do c k)) = fst (run_call c (kv_store k))"
  by (simp add: kv_do_def Let_def split_def)

lemma kv_do_reply: "fst (kv_do c k) = fst (snd (run_call c (kv_store k)))"
  by (simp add: kv_do_def Let_def split_def)

lemma kv_get_scope: "kv_get index key k = map_of (scope_of (kv_store k) index) key"
  by (simp add: kv_get_def scope_of_def split: option.split)

fun call_target :: "kv_call \<Rightarrow> string \<times> string" where
  "call_target (SetCall index key data) = (index, key)"
| "call_target (DeleteCall index key) = (index, key)"
| "call_target (AcquireCall index key owner ttl now) = (index, key)"
| "call_target (ReleaseCall index key owner) = (index, key)"
| "call_target (UpdateCall index key ops) = (index, key)"

lemmas store_defs = set_store_def delete_store_def acquire_store_def release_store_def
  update_store_def remove_mark_def Let_def split_def scope_of_def

lemma run_call_other_index: "i \<noteq> fst (call_target c) \<Longrightarrow> fst (run_call c s) i = s i"
  by (cases c) (auto simp: store_defs split: option.splits)

lemma run_call_other_key:
  "call_target c = (index, key) \<Longrightarrow> k \<noteq> key \<Longrightarrow>
   map_of (scope_of (fst (run_call c s)) index) k = map_of (scope_of s index) k"
  by (cases c) (auto simp: store_defs map_of_imap_insert map_of_remove split: option.splits)

lemma run_call_frame:
  "call_target c \<noteq> (index, key) \<Longrightarrow>
   map_of (scope_of (fst (run_call c s)) index) key = map_of (scope_of s index) key"
  using run_call_other_index [of index c s] run_call_other_key [of c index "snd (call_target c)" key s]
  by (cases "fst (call_target c) = index"; cases "call_target c") (auto simp: scope_of_def)

lemma scope_wf_run:
  "(\<And>m i. s i = Some m \<Longrightarrow> imap_wf m) \<Longrightarrow> fst (run_call c s) i = Some m \<Longrightarrow> imap_wf m"
proof (cases c)
  case (AcquireCall x1 x2 x3 x4 x5)
  assume "\<And>m i. s i = Some m \<Longrightarrow> imap_wf m" "fst (run_call c s) i = Some m"
  with AcquireCall show ?thesis
    by (auto simp: store_defs imap_wf_insert split: option.splits if_splits) (auto simp: imap_wf_def)
qed (auto simp: store_defs imap_wf_insert imap_wf_remove split: option.splits if_splits;
     auto simp: imap_wf_def)+

section \<open>Locks\<close>

lemma lock_round_trip: "lock_of_value (lock_to_value e) = Some e"
proof -
  have "as_i64 (Number (number_of_i64 n)) = Some n" for n
  proof (cases "sint n < 0")
    case False
    then have "unat n < 2 ^ 63"
      unfolding unat_less_63 using uint_of_nonneg [of n] sint_i64_range [of n] by linarith
    with False show ?thesis by (simp add: number_of_i64_def)
  qed (simp add: number_of_i64_def)
  then show ?thesis by (simp add: lock_to_value_def lock_fields_def)
qed

lemma sint_saturating_add:
  "sint (saturating_add_i64 a b) = max (- (2 ^ 63)) (min (2 ^ 63 - 1) (sint a + sint b))"
  unfolding saturating_add_i64_def by (rule sint_word_of_int_i64) auto

text \<open>\<open>locked_by owner until index key s\<close>: the store holds that lock.\<close>

definition locked_by :: "string \<Rightarrow> i64 \<Rightarrow> string \<Rightarrow> string \<Rightarrow> store \<Rightarrow> bool" where
  "locked_by owner until index key s \<longleftrightarrow>
     (\<exists>v. map_of (scope_of s index) key = Some v \<and>
          lock_of_value v = Some \<lparr>lock_owner = owner, expires_at_ms = until\<rparr>)"

text \<open>The calls others make while a lock is held: lock calls before the expiry, on any key.\<close>

fun intruding :: "string \<Rightarrow> i64 \<Rightarrow> kv_call \<Rightarrow> bool" where
  "intruding owner until (AcquireCall index key o1 ttl now) \<longleftrightarrow> sint now < sint until"
| "intruding owner until (ReleaseCall index key o1) \<longleftrightarrow> o1 \<noteq> owner"
| "intruding owner until _ \<longleftrightarrow> False"

lemma locked_by_acquired:
  assumes "acquire_store index key owner ttl now s = (s', LockReply True, m)"
  shows "locked_by owner (saturating_add_i64 now ttl) index key s'"
  using assms
  by (auto simp: acquire_store_def Let_def locked_by_def scope_of_def map_of_imap_insert lock_round_trip
      split: if_splits)

lemma locked_by_refuses:
  assumes "locked_by owner until index key s" and "sint now < sint until"
  shows "acquire_store index key o1 ttl now s = (s, LockReply False, None)"
  using assms
  by (auto simp: locked_by_def acquire_store_def Let_def can_acquire_def is_expired_def scope_of_def
      fun_upd_idem split: option.splits)

lemma locked_by_release:
  assumes "locked_by owner until index key s" and "o1 \<noteq> owner"
  shows "release_store index key o1 s = (s, LockReply False, None)"
  using assms by (auto simp: locked_by_def release_store_def scope_of_def split: option.splits)

lemma locked_by_frame:
  "call_target c \<noteq> (index, key) \<Longrightarrow> locked_by owner until index key s \<Longrightarrow>
   locked_by owner until index key (fst (run_call c s))"
  by (simp add: locked_by_def run_call_frame)

lemma locked_by_step:
  assumes "locked_by owner until index key s" and "intruding owner until c"
  shows "locked_by owner until index key (fst (run_call c s))"
proof (cases "call_target c = (index, key)")
  case True
  then show ?thesis
    using assms locked_by_refuses [OF assms(1)] locked_by_release [OF assms(1)] by (cases c) auto
qed (use assms locked_by_frame in blast)

lemma locked_by_run:
  "list_all (intruding owner until) cs \<Longrightarrow> locked_by owner until index key s \<Longrightarrow>
   locked_by owner until index key (fold (\<lambda>c s. fst (run_call c s)) cs s)"
  by (induction cs arbitrary: s) (auto intro: locked_by_step)

section \<open>Properties\<close>

lemma kv_do_fold_store:
  "kv_store (fold (\<lambda>c k. snd (kv_do c k)) cs k) = fold (\<lambda>c s. fst (run_call c s)) cs (kv_store k)"
  by (induction cs arbitrary: k) (simp_all add: kv_do_store)

text \<open>C17: a lock excludes: once acquired, and whatever lock calls others make on any key before it
  expires, a further acquisition before the expiry and a release by another owner are refused
  and change nothing.\<close>

theorem lock_excludes:
  assumes "kv_do (AcquireCall index key owner ttl now) k = (LockReply True, k1)"
    and "list_all (intruding owner (saturating_add_i64 now ttl)) cs"
    and "k2 = fold (\<lambda>c k. snd (kv_do c k)) cs k1"
    and "sint now' < sint (saturating_add_i64 now ttl)" and "other \<noteq> owner"
  shows "kv_do (AcquireCall index key o1 ttl' now') k2 = (LockReply False, k2) \<and>
    kv_do (ReleaseCall index key other) k2 = (LockReply False, k2)"
proof -
  let ?until = "saturating_add_i64 now ttl"
  obtain m where "acquire_store index key owner ttl now (kv_store k) = (kv_store k1, LockReply True, m)"
    using assms(1) kv_do_store [of "AcquireCall index key owner ttl now" k]
      kv_do_reply [of "AcquireCall index key owner ttl now" k]
    by (cases "acquire_store index key owner ttl now (kv_store k)") auto
  then have "locked_by owner ?until index key (kv_store k1)" by (rule locked_by_acquired)
  then have "locked_by owner ?until index key (kv_store k2)"
    using locked_by_run [OF assms(2)] by (simp add: assms(3) kv_do_fold_store)
  with locked_by_refuses [OF this assms(4)] locked_by_release [OF this assms(5)] show ?thesis
    by (simp add: kv_do_def)
qed

definition empty_kv :: kv where
  "empty_kv = \<lparr>kv_store = Map.empty, kv_file_backed = False, kv_dirty = Map.empty\<rparr>"

theorem lock_excludes_witness:
  "let k1 = snd (kv_do (AcquireCall ''locks'' ''a'' ''me'' 1000 5) empty_kv);
       k2 = snd (kv_do (AcquireCall ''locks'' ''b'' ''you'' 1000 6) k1)
   in kv_do (AcquireCall ''locks'' ''a'' ''you'' 1000 7) k2 = (LockReply False, k2) \<and>
      kv_do (ReleaseCall ''locks'' ''a'' ''you'') k2 = (LockReply False, k2)"
proof -
  let ?k1 = "snd (kv_do (AcquireCall ''locks'' ''a'' ''me'' 1000 5) empty_kv)"
  have first: "kv_do (AcquireCall ''locks'' ''a'' ''me'' 1000 5) empty_kv = (LockReply True, ?k1)"
    by (simp add: kv_do_def acquire_store_def empty_kv_def scope_of_def can_acquire_def Let_def)
  have until: "sint (saturating_add_i64 5 1000) = 1005"
    by (simp add: sint_saturating_add)
  show ?thesis
    using lock_excludes [OF first, of "[AcquireCall ''locks'' ''b'' ''you'' 1000 6]" _ 7 "''you''"] until
    by (simp add: Let_def)
qed

text \<open>The owner can release what it holds, and after that anyone can acquire it, at any time.\<close>

theorem release_frees:
  assumes "kv_do (AcquireCall index key owner ttl now) k = (LockReply True, k1)"
  shows "fst (kv_do (ReleaseCall index key owner) k1) = LockReply True \<and>
    fst (kv_do (AcquireCall index key other ttl' now') (snd (kv_do (ReleaseCall index key owner) k1))) =
      LockReply True"
proof -
  obtain m where "acquire_store index key owner ttl now (kv_store k) = (kv_store k1, LockReply True, m)"
    using assms kv_do_store [of "AcquireCall index key owner ttl now" k]
      kv_do_reply [of "AcquireCall index key owner ttl now" k]
    by (cases "acquire_store index key owner ttl now (kv_store k)") auto
  then have "locked_by owner (saturating_add_i64 now ttl) index key (kv_store k1)"
    by (rule locked_by_acquired)
  then obtain sc v where "kv_store k1 index = Some sc" "map_of sc key = Some v"
    "lock_of_value v = Some \<lparr>lock_owner = owner, expires_at_ms = saturating_add_i64 now ttl\<rparr>"
    by (auto simp: locked_by_def scope_of_def split: option.splits)
  then show ?thesis
    by (simp add: kv_do_reply kv_do_store release_store_def acquire_store_def Let_def scope_of_def
        can_acquire_def map_of_remove)
qed

theorem release_frees_witness:
  "fst (kv_do (ReleaseCall ''l'' ''a'' ''me'') (snd (kv_do (AcquireCall ''l'' ''a'' ''me'' 9 5) empty_kv))) =
   LockReply True"
proof -
  have "kv_do (AcquireCall ''l'' ''a'' ''me'' 9 5) empty_kv =
      (LockReply True, snd (kv_do (AcquireCall ''l'' ''a'' ''me'' 9 5) empty_kv))"
    by (simp add: kv_do_def acquire_store_def empty_kv_def scope_of_def can_acquire_def Let_def)
  from release_frees [OF this, of "[]" 0 0] show ?thesis by blast
qed

text \<open>a lock whose time to live is \<open>2 ^ 63\<close> milliseconds or more, such as the greatest
  \<open>u64\<close>, has already expired when it is taken: the conversion to a signed number wraps, and
  another owner acquires it at the same instant.\<close>

theorem lock_ttl_wraps:
  assumes "kv_do (AcquireCall index key owner ttl now) k = (LockReply True, k1)" and "sint ttl < 0"
  shows "fst (kv_do (AcquireCall index key other ttl' now) k1) = LockReply True"
proof -
  obtain m where "acquire_store index key owner ttl now (kv_store k) = (kv_store k1, LockReply True, m)"
    using assms kv_do_store [of "AcquireCall index key owner ttl now" k]
      kv_do_reply [of "AcquireCall index key owner ttl now" k]
    by (cases "acquire_store index key owner ttl now (kv_store k)") auto
  then have "locked_by owner (saturating_add_i64 now ttl) index key (kv_store k1)"
    by (rule locked_by_acquired)
  moreover have "sint (saturating_add_i64 now ttl) \<le> sint now"
    using assms(2) sint_i64_range [of now] by (auto simp: sint_saturating_add)
  ultimately show ?thesis
    by (auto simp: kv_do_reply acquire_store_def Let_def locked_by_def can_acquire_def is_expired_def)
qed

theorem lock_ttl_wraps_witness:
  "fst (kv_do (AcquireCall ''l'' ''a'' ''you'' 1 5)
     (snd (kv_do (AcquireCall ''l'' ''a'' ''me'' (- 1) 5) empty_kv))) = LockReply True"
proof -
  have "kv_do (AcquireCall ''l'' ''a'' ''me'' (- 1) 5) empty_kv =
      (LockReply True, snd (kv_do (AcquireCall ''l'' ''a'' ''me'' (- 1) 5) empty_kv))"
    by (simp add: kv_do_def acquire_store_def empty_kv_def scope_of_def can_acquire_def Let_def)
  from lock_ttl_wraps [OF this] show ?thesis by simp
qed

text \<open>C18: a read sees the last write: after a set or an update the new value, after a delete none,
  and a call on another index or key changes nothing; an update replies with the value it
  replaced, the value it stored and the errors of applying its operations.\<close>

theorem reads_follow_writes:
  "kv_get index key (snd (kv_do (SetCall index key v) k)) = Some v \<and>
   kv_get index key (snd (kv_do (DeleteCall index key) k)) = None \<and>
   (let (updated, errs) = apply_update_ops (kv_get index key k) ops
    in fst (kv_do (UpdateCall index key ops) k) = UpdateReply (kv_get index key k) updated errs \<and>
       kv_get index key (snd (kv_do (UpdateCall index key ops) k)) = Some updated) \<and>
   (call_target c \<noteq> (index, key) \<longrightarrow> kv_get index key (snd (kv_do c k)) = kv_get index key k)"
  by (auto simp: kv_get_scope kv_do_store kv_do_reply run_call_frame)
    (auto simp: store_defs map_of_imap_insert map_of_remove split: option.splits)

theorem reads_follow_writes_witness:
  "kv_get ''g'' ''a'' (snd (kv_do (DeleteCall ''g'' ''b'')
     (snd (kv_do (SetCall ''g'' ''a'' Null) empty_kv)))) = Some Null"
  using reads_follow_writes [of "''g''" "''a''" Null empty_kv "[]" "DeleteCall ''g'' ''b''"]
    reads_follow_writes [of "''g''" "''a''" Null "snd (kv_do (SetCall ''g'' ''a'' Null) empty_kv)" "[]"
      "DeleteCall ''g'' ''b''"]
  by simp

text \<open>A scope lists its values in the order its keys were first set: setting a key keeps its
  place or appends it, and deleting one keeps the order of the others.\<close>

theorem scopes_keep_insertion_order:
  "map_keys (scope_of (kv_store (snd (kv_do (SetCall index key v) k))) index) =
     (let keys = map_keys (scope_of (kv_store k) index) in if key \<in> set keys then keys else keys @ [key]) \<and>
   map_keys (scope_of (kv_store (snd (kv_do (DeleteCall index key) k))) index) =
     filter (\<lambda>x. x \<noteq> key) (map_keys (scope_of (kv_store k) index))"
proof -
  have "filter (\<lambda>x. x \<noteq> key) (map_keys m) = map_keys m" if "map_of m key = None" for m :: scope
    using that by (auto simp: map_of_eq_None_iff filter_id_conv)
  then show ?thesis
    by (auto simp: kv_do_store imap_keys_insert set_store_def delete_store_def scope_of_def Let_def
        map_remove_def filter_map comp_def split: option.splits)
qed

text \<open>file names identify indexes: reading the index back from its file name gives the index,
  different indexes get different names, and a name has no byte but ASCII letters, digits,
  dashes, underscores, dots and percent signs, so it never leaves its directory.\<close>

theorem file_names_identify_indexes:
  "(utf8_valid index \<longrightarrow> index_from_path (index_file_name index) = Some index) \<and>
   (index_file_name index = index_file_name other \<longleftrightarrow> index = other) \<and>
   set (index_file_name index) \<subseteq> {c. is_plain c} \<union> {CHR ''%''}"
  using index_from_file_name [of index] index_file_name_inj [of index other] set_encode_index [of index]
  by (auto simp: index_file_name_def is_plain_def)

theorem file_names_identify_indexes_witness:
  "index_from_path (index_file_name ''a/b'') = Some ''a/b''"
  using file_names_identify_indexes [of "''a/b''" "[]"] by simp

end
