(* ===== verification/Kv_Persist.thy ===== *)
theory Kv_Persist
  imports Kv_Store
begin

text \<open>
  Persistence of the key-value store (the functions on files and \<open>flush_dirty\<close> of
  \<open>engine/src/builtins/kv.rs\<close>), as single flushes and as a step relation in which the writes,
  the marks, and the steps of a flush interleave.
\<close>

section \<open>Files\<close>

text \<open>
  A directory maps file names to contents.  A disk operation may fail: before anything is
  written, after a part of the temporary file was written, or at the rename.
\<close>

type_synonym 'f disk = "string \<rightharpoonup> 'f"

datatype 'f fault = NoFault | FailCreate | FailWrite 'f | FailRename

definition temp_name :: "string \<Rightarrow> string" where
  "temp_name file_name = file_name @ ''.tmp''"

definition persist_index ::
    "(scope \<Rightarrow> 'f) \<Rightarrow> 'f fault \<Rightarrow> string \<Rightarrow> scope \<Rightarrow> 'f disk \<Rightarrow> bool \<times> 'f disk" where
  "persist_index to_file fault index v disk =
     (let file_name = index_file_name index; temp = temp_name file_name
      in case fault of
           FailCreate \<Rightarrow> (False, disk)
         | FailWrite part \<Rightarrow> (False, disk(temp \<mapsto> part))
         | FailRename \<Rightarrow> (False, disk(temp \<mapsto> to_file v))
         | NoFault \<Rightarrow> (True, disk(temp := None, file_name \<mapsto> to_file v)))"

definition delete_index :: "'f fault \<Rightarrow> string \<Rightarrow> 'f disk \<Rightarrow> bool \<times> 'f disk" where
  "delete_index fault index disk =
     (case fault of NoFault \<Rightarrow> (True, disk(index_file_name index := None)) | _ \<Rightarrow> (False, disk))"

definition snapshot :: "store \<Rightarrow> string \<Rightarrow> scope option" where
  "snapshot s index =
     (case s index of None \<Rightarrow> None | Some m \<Rightarrow> if m = [] then None else Some m)"

definition write_snapshot ::
    "(scope \<Rightarrow> 'f) \<Rightarrow> 'f fault \<Rightarrow> string \<Rightarrow> scope option \<Rightarrow> 'f disk \<Rightarrow> bool \<times> 'f disk" where
  "write_snapshot to_file fault index snap disk =
     (case snap of
        Some v \<Rightarrow> persist_index to_file fault index v disk
      | None \<Rightarrow> delete_index fault index disk)"

definition requeue :: "string \<Rightarrow> dirty_op \<Rightarrow> (string \<rightharpoonup> dirty_op) \<Rightarrow> (string \<rightharpoonup> dirty_op)" where
  "requeue index op dirty = (if dirty index = None then dirty(index \<mapsto> op) else dirty)"

text \<open>One flush with nothing interleaved: the batch in the order it was drained in.\<close>

fun flush_batch ::
    "(scope \<Rightarrow> 'f) \<Rightarrow> (string \<Rightarrow> 'f fault) \<Rightarrow> store \<Rightarrow> (string \<times> dirty_op) list \<Rightarrow>
     'f disk \<Rightarrow> (string \<rightharpoonup> dirty_op) \<Rightarrow> nat \<Rightarrow> nat \<times> 'f disk \<times> (string \<rightharpoonup> dirty_op)" where
  "flush_batch to_file faults s [] disk dirty failed = (failed, disk, dirty)"
| "flush_batch to_file faults s ((index, op) # batch) disk dirty failed =
     (let (ok, disk) = write_snapshot to_file (faults index) index (snapshot s index) disk
      in if ok then flush_batch to_file faults s batch disk dirty failed
         else flush_batch to_file faults s batch disk (requeue index op dirty) (failed + 1))"

definition flush_dirty ::
    "(scope \<Rightarrow> 'f) \<Rightarrow> (string \<Rightarrow> 'f fault) \<Rightarrow> (string \<times> dirty_op) list \<Rightarrow> kv \<Rightarrow> 'f disk \<Rightarrow>
     (nat, unit) result \<times> kv \<times> 'f disk" where
  "flush_dirty to_file faults batch k disk =
     (if batch = [] then (Ok (), k, disk)
      else
        (let (failed, disk, dirty) = flush_batch to_file faults (kv_store k) batch disk Map.empty 0
         in (if 0 < failed then Err failed else Ok (), k\<lparr>kv_dirty := dirty\<rparr>, disk)))"



section \<open>Interleaved writes and flushes\<close>

text \<open>
  The state of the process: \<open>pending\<close> holds the marks of calls that have written the store and
  not yet recorded the mark, \<open>batch\<close> what the running flush has drained and not yet taken,
  \<open>inflight\<close> the snapshot it is writing.
\<close>

record 'f process =
  p_store :: store
  p_dirty :: "string \<rightharpoonup> dirty_op"
  p_disk :: "'f disk"
  p_pending :: "(string \<times> dirty_op) list"
  p_batch :: "(string \<times> dirty_op) list"
  p_inflight :: "(string \<times> dirty_op \<times> scope option) option"

inductive process_step :: "(scope \<Rightarrow> 'f) \<Rightarrow> 'f process \<Rightarrow> 'f process \<Rightarrow> bool"
  for to_file :: "scope \<Rightarrow> 'f" where
  call: "run_call c (p_store p) = (s, reply, mark) \<Longrightarrow> utf8_valid (fst (call_target c)) \<Longrightarrow>
    process_step to_file p
      (p\<lparr>p_store := s,
         p_pending := (case mark of None \<Rightarrow> [] | Some m \<Rightarrow> [m]) @ p_pending p\<rparr>)"
| mark: "p_pending p = before @ (index, op) # after \<Longrightarrow>
    process_step to_file p
      (p\<lparr>p_pending := before @ after, p_dirty := (p_dirty p)(index \<mapsto> op)\<rparr>)"
| drain: "p_batch p = [] \<Longrightarrow> p_inflight p = None \<Longrightarrow> map_of batch = p_dirty p \<Longrightarrow>
    distinct (map_keys batch) \<Longrightarrow>
    process_step to_file p (p\<lparr>p_batch := batch, p_dirty := Map.empty\<rparr>)"
| take: "p_batch p = (index, op) # batch \<Longrightarrow> p_inflight p = None \<Longrightarrow>
    process_step to_file p
      (p\<lparr>p_batch := batch, p_inflight := Some (index, op, snapshot (p_store p) index)\<rparr>)"
| finish: "p_inflight p = Some (index, op, snap) \<Longrightarrow>
    write_snapshot to_file fault index snap (p_disk p) = (ok, disk) \<Longrightarrow>
    process_step to_file p
      (p\<lparr>p_disk := disk, p_inflight := None,
         p_dirty := (if ok then p_dirty p else requeue index op (p_dirty p))\<rparr>)"

inductive_cases process_stepE: "process_step to_file p p'"

definition synced :: "(scope \<Rightarrow> 'f) \<Rightarrow> 'f disk \<Rightarrow> store \<Rightarrow> string \<Rightarrow> bool" where
  "synced to_file disk s index \<longleftrightarrow>
     disk (index_file_name index) = map_option to_file (snapshot s index)"

definition marked :: "'f process \<Rightarrow> string set" where
  "marked p = dom (p_dirty p) \<union> fst ` set (p_pending p) \<union> fst ` set (p_batch p)"

definition inflight_index :: "'f process \<Rightarrow> string set" where
  "inflight_index p = (case p_inflight p of None \<Rightarrow> {} | Some (i, op, snap) \<Rightarrow> {i})"

definition known_name :: "string \<Rightarrow> bool" where
  "known_name file_name \<longleftrightarrow>
     (\<exists>index. utf8_valid index \<and> (file_name = index_file_name index \<or> file_name = temp_name (index_file_name index)))"

text \<open>
  The invariant: an index whose file is not what the store says is marked somewhere or being
  written; the snapshot being written is current or its index marked again; and the directory
  holds the files of indexes and their temporary files only.
\<close>

definition process_inv :: "(scope \<Rightarrow> 'f) \<Rightarrow> 'f process \<Rightarrow> bool" where
  "process_inv to_file p \<longleftrightarrow>
     (\<forall>i. synced to_file (p_disk p) (p_store p) i \<or> i \<in> marked p \<or> i \<in> inflight_index p) \<and>
     (\<forall>i op snap. p_inflight p = Some (i, op, snap) \<longrightarrow>
        snap = snapshot (p_store p) i \<or> i \<in> marked p) \<and>
     (\<forall>i \<in> marked p \<union> inflight_index p. utf8_valid i) \<and>
     (\<forall>f \<in> dom (p_disk p). known_name f)"

definition process_start :: "(scope \<Rightarrow> 'f) \<Rightarrow> 'f process \<Rightarrow> bool" where
  "process_start to_file p \<longleftrightarrow>
     p_dirty p = Map.empty \<and> p_pending p = [] \<and> p_batch p = [] \<and> p_inflight p = None \<and>
     (\<forall>i. synced to_file (p_disk p) (p_store p) i) \<and> (\<forall>f \<in> dom (p_disk p). known_name f)"

lemma run_call_marks:
  assumes "run_call c s = (s', reply, mark)"
  shows "i \<noteq> fst (call_target c) \<Longrightarrow> s' i = s i"
    and "mark = None \<Longrightarrow> s' i = s i"
    and "mark = Some (j, op) \<Longrightarrow> j = fst (call_target c)"
  using assms run_call_other_index [of i c s] apply auto[1]
  using assms by (cases c; auto simp: store_defs can_acquire_def split: option.splits if_splits)+

section \<open>Every step keeps the invariant\<close>

lemma temp_name_not_index: "temp_name f \<noteq> index_file_name i" "temp_name f = temp_name g \<longleftrightarrow> f = g"
proof -
  have "last (temp_name f) = CHR ''p''" "last (index_file_name i) = CHR ''n''"
    by (simp_all add: temp_name_def index_file_name_def)
  then show "temp_name f \<noteq> index_file_name i" by auto
qed (simp add: temp_name_def)

text \<open>A disk operation touches the file of its index and its temporary file only.\<close>

lemma write_snapshot_effect:
  assumes "write_snapshot to_file fault index snap disk = (ok, disk')"
  shows "ok \<Longrightarrow> disk' (index_file_name index) = map_option to_file snap"
    and "\<not> ok \<Longrightarrow> disk' (index_file_name index) = disk (index_file_name index)"
    and "i \<noteq> index \<Longrightarrow> disk' (index_file_name i) = disk (index_file_name i)"
    and "dom disk' \<subseteq> dom disk \<union> {index_file_name index, temp_name (index_file_name index)}"
  using assms
  by (auto simp: write_snapshot_def persist_index_def delete_index_def Let_def index_file_name_inj
      temp_name_not_index(1) [symmetric] split: option.splits fault.splits if_splits)

lemma snapshot_cong: "s i = s' i \<Longrightarrow> snapshot s i = snapshot s' i"
  by (simp add: snapshot_def)

lemma synced_cong:
  "s i = s' i \<Longrightarrow> disk (index_file_name i) = disk' (index_file_name i) \<Longrightarrow>
   synced to_file disk s i = synced to_file disk' s' i"
  by (simp add: synced_def snapshot_def)

lemma process_invI:
  assumes "\<And>i. i \<notin> marked p \<Longrightarrow> i \<notin> inflight_index p \<Longrightarrow> synced to_file (p_disk p) (p_store p) i"
    and "\<And>i op snap. p_inflight p = Some (i, op, snap) \<Longrightarrow> i \<notin> marked p \<Longrightarrow> snap = snapshot (p_store p) i"
    and "\<And>i. i \<in> marked p \<union> inflight_index p \<Longrightarrow> utf8_valid i"
    and "\<And>f. f \<in> dom (p_disk p) \<Longrightarrow> known_name f"
  shows "process_inv to_file p"
  using assms unfolding process_inv_def by blast

lemma process_invD:
  assumes "process_inv to_file p"
  shows "i \<notin> marked p \<Longrightarrow> i \<notin> inflight_index p \<Longrightarrow> synced to_file (p_disk p) (p_store p) i"
    and "p_inflight p = Some (i, op, snap) \<Longrightarrow> i \<notin> marked p \<Longrightarrow> snap = snapshot (p_store p) i"
    and "i \<in> marked p \<union> inflight_index p \<Longrightarrow> utf8_valid i"
    and "f \<in> dom (p_disk p) \<Longrightarrow> known_name f"
  using assms unfolding process_inv_def by blast+

lemma inv_call:
  assumes "process_inv to_file p" and "run_call c (p_store p) = (s, reply, mark)"
    and "utf8_valid (fst (call_target c))"
  shows "process_inv to_file
    (p\<lparr>p_store := s, p_pending := (case mark of None \<Rightarrow> [] | Some m \<Rightarrow> [m]) @ p_pending p\<rparr>)"
    (is "process_inv to_file ?p'")
proof (rule process_invI)
  have same: "s i = p_store p i" if "i \<notin> marked ?p'" for i
  proof (cases mark)
    case None
    then show ?thesis by (rule run_call_marks(2) [OF assms(2)])
  next
    case (Some m)
    then have "i \<noteq> fst (call_target c)"
      using that run_call_marks(3) [OF assms(2), of "fst m" "snd m"] by (auto simp: marked_def)
    then show ?thesis by (rule run_call_marks(1) [OF assms(2)])
  qed
  have more: "i \<notin> marked p" if "i \<notin> marked ?p'" for i
    using that by (auto simp: marked_def)
  have inflight: "inflight_index ?p' = inflight_index p" by (simp add: inflight_index_def)
  show "synced to_file (p_disk ?p') (p_store ?p') i" if "i \<notin> marked ?p'" "i \<notin> inflight_index ?p'" for i
    using process_invD(1) [OF assms(1) more [OF that(1)]] that(2) same [OF that(1)]
    by (simp add: inflight synced_def snapshot_def)
  show "snap = snapshot (p_store ?p') i" if "p_inflight ?p' = Some (i, op, snap)" "i \<notin> marked ?p'" for i op snap
    using process_invD(2) [OF assms(1) _ more [OF that(2)]] that(1) same [OF that(2)]
    by (simp add: snapshot_def)
  show "utf8_valid i" if "i \<in> marked ?p' \<union> inflight_index ?p'" for i
    using that process_invD(3) [OF assms(1), of i] run_call_marks(3) [OF assms(2)] assms(3)
    by (auto simp: marked_def inflight split: option.splits)
  show "known_name f" if "f \<in> dom (p_disk ?p')" for f
    using that process_invD(4) [OF assms(1), of f] by simp
qed

lemma marked_simps:
  "marked (p\<lparr>p_pending := xs, p_dirty := d\<rparr>) = dom d \<union> fst ` set xs \<union> fst ` set (p_batch p)"
  "marked (p\<lparr>p_batch := xs, p_dirty := d\<rparr>) = dom d \<union> fst ` set (p_pending p) \<union> fst ` set xs"
  "marked (p\<lparr>p_batch := xs, p_inflight := x\<rparr>) = dom (p_dirty p) \<union> fst ` set (p_pending p) \<union> fst ` set xs"
  "marked (p\<lparr>p_disk := k, p_inflight := x, p_dirty := d\<rparr>) =
     dom d \<union> fst ` set (p_pending p) \<union> fst ` set (p_batch p)"
  by (simp_all add: marked_def)

lemma inv_mark:
  assumes "process_inv to_file p" and "p_pending p = before @ (index, op) # after"
  shows "process_inv to_file (p\<lparr>p_pending := before @ after, p_dirty := (p_dirty p)(index \<mapsto> op)\<rparr>)"
proof -
  have "marked (p\<lparr>p_pending := before @ after, p_dirty := (p_dirty p)(index \<mapsto> op)\<rparr>) = marked p"
    unfolding marked_simps using assms(2) by (auto simp: marked_def)
  with assms(1) show ?thesis by (simp add: process_inv_def inflight_index_def)
qed

lemma inv_drain:
  assumes "process_inv to_file p" and "p_batch p = []" and "map_of batch = p_dirty p"
  shows "process_inv to_file (p\<lparr>p_batch := batch, p_dirty := Map.empty\<rparr>)"
proof -
  have "marked (p\<lparr>p_batch := batch, p_dirty := Map.empty\<rparr>) = marked p"
    unfolding marked_simps using assms(2) assms(3) [symmetric]
    by (auto simp: marked_def dom_map_of_conv_image_fst)
  with assms(1) show ?thesis by (simp add: process_inv_def inflight_index_def)
qed

lemma inv_take:
  assumes "process_inv to_file p" and "p_batch p = (index, op) # batch" and "p_inflight p = None"
  shows "process_inv to_file
    (p\<lparr>p_batch := batch, p_inflight := Some (index, op, snapshot (p_store p) index)\<rparr>)"
    (is "process_inv to_file ?p'")
proof (rule process_invI)
  have marked: "marked p = insert index (marked ?p')"
    unfolding marked_simps using assms(2) by (auto simp: marked_def)
  have inflight: "inflight_index ?p' = {index}" "inflight_index p = {}"
    using assms(3) by (simp_all add: inflight_index_def)
  show "synced to_file (p_disk ?p') (p_store ?p') i" if "i \<notin> marked ?p'" "i \<notin> inflight_index ?p'" for i
    using process_invD(1) [OF assms(1), of i] that marked inflight by simp
  show "utf8_valid i" if "i \<in> marked ?p' \<union> inflight_index ?p'" for i
    using that process_invD(3) [OF assms(1), of i] marked inflight by auto
  show "known_name f" if "f \<in> dom (p_disk ?p')" for f
    using that process_invD(4) [OF assms(1), of f] by simp
qed simp

lemma inv_finish:
  assumes "process_inv to_file p" and "p_inflight p = Some (index, op, snap)"
    and "write_snapshot to_file fault index snap (p_disk p) = (ok, disk)"
  shows "process_inv to_file
    (p\<lparr>p_disk := disk, p_inflight := None,
       p_dirty := (if ok then p_dirty p else requeue index op (p_dirty p))\<rparr>)"
    (is "process_inv to_file ?p'")
proof (rule process_invI)
  note effect = write_snapshot_effect [OF assms(3)]
  have inflight: "inflight_index ?p' = {}" "inflight_index p = {index}"
    using assms(2) by (simp_all add: inflight_index_def)
  have marked: "marked ?p' = (if ok then marked p else insert index (marked p))"
    unfolding marked_simps by (auto simp: marked_def requeue_def)
  show "synced to_file (p_disk ?p') (p_store ?p') i" if "i \<notin> marked ?p'" "i \<notin> inflight_index ?p'" for i
  proof (cases "i = index")
    case True
    then have ok: ok "index \<notin> marked p" using that marked by (auto split: if_splits)
    with process_invD(2) [OF assms(1,2)] effect(1) True show ?thesis by (simp add: synced_def)
  next
    case False
    with process_invD(1) [OF assms(1), of i] that marked inflight effect(3) [OF False] show ?thesis
      by (simp add: synced_def split: if_splits)
  qed
  show "utf8_valid i" if "i \<in> marked ?p' \<union> inflight_index ?p'" for i
    using that process_invD(3) [OF assms(1), of i] marked inflight by (auto split: if_splits)
  show "known_name f" if "f \<in> dom (p_disk ?p')" for f
  proof -
    have "utf8_valid index" using process_invD(3) [OF assms(1), of index] inflight by simp
    with that effect(4) process_invD(4) [OF assms(1), of f] show ?thesis
      by (auto simp: known_name_def)
  qed
qed simp

interpretation persist: step_invariant "process_start to_file" "process_step to_file" "process_inv to_file"
  for to_file
proof
  show "process_inv to_file p" if "process_start to_file p" for p
    using that by (auto simp: process_start_def process_inv_def marked_def inflight_index_def)
  show "process_inv to_file p'" if "process_inv to_file p" "process_step to_file p p'" for p p'
    using that(2)
  proof cases
    case call
    show ?thesis unfolding call(1) by (rule inv_call [OF that(1) call(2,3)])
  next
    case mark
    show ?thesis unfolding mark(1) by (rule inv_mark [OF that(1) mark(2)])
  next
    case drain
    show ?thesis unfolding drain(1) by (rule inv_drain [OF that(1) drain(2,4)])
  next
    case take
    show ?thesis unfolding take(1) by (rule inv_take [OF that(1) take(2,3)])
  next
    case finish
    show ?thesis unfolding finish(1) by (rule inv_finish [OF that(1) finish(2,3)])
  qed
qed

section \<open>Loading\<close>





section \<open>A flush\<close>

lemma flush_batch_synced:
  assumes "flush_batch to_file faults s batch disk dirty n = (failed, disk', dirty')"
    and "\<And>i. synced to_file disk s i \<or> i \<in> dom dirty \<or> i \<in> fst ` set batch"
  shows "synced to_file disk' s i \<or> i \<in> dom dirty'"
  using assms
proof (induction to_file faults s batch disk dirty n rule: flush_batch.induct)
  case (2 to_file faults s index op batch disk dirty n)
  obtain ok d1 where w: "write_snapshot to_file (faults index) index (snapshot s index) disk = (ok, d1)"
    by (cases "write_snapshot to_file (faults index) index (snapshot s index) disk")
  note effect = write_snapshot_effect [OF w]
  have other: "synced to_file d1 s j = synced to_file disk s j" if "j \<noteq> index" for j
    using effect(3) [OF that] by (simp add: synced_def)
  show ?case
  proof (cases ok)
    case True
    then have "synced to_file d1 s index" using effect(1) by (simp add: synced_def)
    then have "synced to_file d1 s j \<or> j \<in> dom dirty \<or> j \<in> fst ` set batch" for j
      using 2(4) [of j] other [of j] by (cases "j = index") auto
    with 2(1) [OF w [symmetric] refl True] 2(3) w True show ?thesis by simp
  next
    case False
    have "synced to_file d1 s j \<or> j \<in> dom (requeue index op dirty) \<or> j \<in> fst ` set batch" for j
      using 2(4) [of j] other [of j] by (cases "j = index") (auto simp: requeue_def)
    with 2(2) [OF w [symmetric] refl False] 2(3) w False show ?thesis by simp
  qed
qed auto

lemma flush_batch_no_fault:
  "(\<And>i. i \<in> fst ` set batch \<Longrightarrow> faults i = NoFault) \<Longrightarrow>
   \<exists>disk'. flush_batch to_file faults s batch disk dirty n = (n, disk', dirty)"
proof (induction batch arbitrary: disk)
  case (Cons e batch)
  obtain index op where e: "e = (index, op)" by (cases e)
  have "faults index = NoFault" using Cons.prems [of index] e by auto
  then obtain d1 where "write_snapshot to_file (faults index) index (snapshot s index) disk = (True, d1)"
    by (cases "snapshot s index")
      (auto simp: write_snapshot_def persist_index_def delete_index_def Let_def)
  with Cons.IH [of d1] Cons.prems show ?case by (auto simp: e)
qed simp

section \<open>Properties\<close>

text \<open>C5: whatever the interleaving of calls, marks and flushes, and whatever disk operations fail
  on the way, once nothing is marked, drained or being written, the file of every index holds
  the current scope of that index, and an index that is empty or absent has no file.\<close>

theorem quiescent_disk_is_current:
  assumes "process_start to_file p" and "(process_step to_file)\<^sup>*\<^sup>* p p'"
    and "p_dirty p' = Map.empty" and "p_pending p' = []" and "p_batch p' = []" and "p_inflight p' = None"
  shows "p_disk p' (index_file_name index) = map_option to_file (snapshot (p_store p') index)"
proof -
  have "process_inv to_file p'" using assms(1,2) by (rule persist.inv_reachable)
  from process_invD(1) [OF this, of index] assms(3-6) show ?thesis
    by (simp add: marked_def inflight_index_def synced_def)
qed

definition fresh_process :: "scope process" where
  "fresh_process = \<lparr>p_store = Map.empty, p_dirty = Map.empty, p_disk = Map.empty, p_pending = [],
     p_batch = [], p_inflight = None\<rparr>"

lemma fresh_process_start: "process_start id fresh_process"
  by (simp add: process_start_def fresh_process_def synced_def snapshot_def)

definition set_process :: "scope process" where
  "set_process = fresh_process\<lparr>p_store := [''g'' \<mapsto> [(''k'', Null)]],
     p_disk := [index_file_name ''g'' \<mapsto> [(''k'', Null)]]\<rparr>"

lemma set_process_reached: "(process_step id)\<^sup>*\<^sup>* fresh_process set_process"
proof -
  let ?s = "[''g'' \<mapsto> [(''k'', Null)]] :: store"
  let ?p1 = "fresh_process\<lparr>p_store := ?s, p_pending := [(''g'', Upsert)]\<rparr>"
  let ?p2 = "fresh_process\<lparr>p_store := ?s, p_dirty := [''g'' \<mapsto> Upsert]\<rparr>"
  let ?p3 = "fresh_process\<lparr>p_store := ?s, p_batch := [(''g'', Upsert)]\<rparr>"
  let ?p4 = "fresh_process\<lparr>p_store := ?s, p_inflight := Some (''g'', Upsert, Some [(''k'', Null)])\<rparr>"
  have 1: "process_step id fresh_process ?p1"
    using process_step.call [of "SetCall ''g'' ''k'' Null" fresh_process ?s "SetReply None Null" "Some (''g'', Upsert)" id]
    by (simp add: fresh_process_def set_store_def scope_of_def Let_def)
  have 2: "process_step id ?p1 ?p2"
    using process_step.mark [of ?p1 "[]" "''g''" Upsert "[]" id] by (simp add: fresh_process_def)
  have 3: "process_step id ?p2 ?p3"
    using process_step.drain [of ?p2 "[(''g'', Upsert)]" id] by (simp add: fresh_process_def)
  have 4: "process_step id ?p3 ?p4"
    using process_step.take [of ?p3 "''g''" Upsert "[]" id] by (simp add: fresh_process_def snapshot_def)
  have 5: "process_step id ?p4 set_process"
    using process_step.finish [of ?p4 "''g''" Upsert "Some [(''k'', Null)]" id NoFault True
        "[index_file_name ''g'' \<mapsto> [(''k'', Null)]]"]
    by (simp add: fresh_process_def set_process_def write_snapshot_def persist_index_def Let_def)
  from 1 2 3 4 5 show ?thesis by (meson rtranclp.intros converse_rtranclp_into_rtranclp)
qed

theorem quiescent_disk_is_current_witness:
  "p_disk set_process (index_file_name ''g'') = Some [(''k'', Null)]"
  using quiescent_disk_is_current [OF fresh_process_start set_process_reached, of "''g''"]
  by (simp add: set_process_def fresh_process_def snapshot_def)



text \<open>after a flush every index is on disk as it is in the store or marked again, whatever
  failed; and a flush without a failing disk operation succeeds and leaves nothing marked.\<close>

theorem flush_keeps_track:
  assumes "flush_dirty to_file faults batch k disk = (r, k', disk')" and "map_of batch = kv_dirty k"
    and "\<And>i. synced to_file disk (kv_store k) i \<or> i \<in> dom (kv_dirty k)"
  shows "(synced to_file disk' (kv_store k') i \<or> i \<in> dom (kv_dirty k')) \<and>
    ((\<forall>j \<in> dom (kv_dirty k). faults j = NoFault) \<longrightarrow> r = Ok () \<and> kv_dirty k' = Map.empty)"
proof -
  have keys: "fst ` set batch = dom (kv_dirty k)" using assms(2) by (metis dom_map_of_conv_image_fst)
  obtain failed d1 dirty where run: "flush_batch to_file faults (kv_store k) batch disk Map.empty 0 = (failed, d1, dirty)"
    by (cases "flush_batch to_file faults (kv_store k) batch disk Map.empty 0") auto
  show ?thesis
  proof (cases "batch = []")
    case True
    then have "kv_dirty k = Map.empty" using assms(2) by auto
    with True assms(1,3) show ?thesis by (auto simp: flush_dirty_def)
  next
    case False
    then have res: "r = (if 0 < failed then Err failed else Ok ())" "kv_dirty k' = dirty"
      "kv_store k' = kv_store k" "disk' = d1"
      using assms(1) run by (auto simp: flush_dirty_def)
    have "synced to_file d1 (kv_store k) i \<or> i \<in> dom dirty"
      by (rule flush_batch_synced [OF run]) (use assms(3) keys in auto)
    moreover have "failed = 0 \<and> dirty = Map.empty" if "\<forall>j \<in> dom (kv_dirty k). faults j = NoFault"
      using flush_batch_no_fault [of batch faults to_file "kv_store k" disk Map.empty 0] that keys run by auto
    ultimately show ?thesis by (auto simp: res)
  qed
qed

theorem flush_keeps_track_witness:
  "fst (flush_dirty id (\<lambda>_. NoFault) [(''g'', Upsert)]
     \<lparr>kv_store = [''g'' \<mapsto> [(''k'', Null)]], kv_file_backed = True, kv_dirty = [''g'' \<mapsto> Upsert]\<rparr> Map.empty) = Ok ()"
proof -
  let ?k = "\<lparr>kv_store = [''g'' \<mapsto> [(''k'', Null)]], kv_file_backed = True, kv_dirty = [''g'' \<mapsto> Upsert]\<rparr>"
  obtain r k' disk' where run: "flush_dirty id (\<lambda>_. NoFault) [(''g'', Upsert)] ?k Map.empty = (r, k', disk')"
    by (cases "flush_dirty id (\<lambda>_. NoFault) [(''g'', Upsert)] ?k Map.empty") auto
  have "r = Ok ()"
    using flush_keeps_track [OF run] by (simp add: synced_def snapshot_def)
  with run show ?thesis by simp
qed

end
