(* ===== verification/Queue_Kv.thy ===== *)
theory Queue_Kv
  imports Kv_Store
begin

text \<open>
  The store under the built-in queue (\<open>engine/src/builtins/queue_kv.rs\<close>): job records in the
  key-value store, lists of job ids, and sets of job ids sorted by a score.  A list is a
  double-ended queue whose front is the head of the Isabelle list.  The order in which a
  hash set is iterated is the parameter \<open>ord\<close>.
\<close>

section \<open>State\<close>

type_synonym lists = "string \<rightharpoonup> string list"

text \<open>A sorted set: the non-empty sets of members by score, in ascending order of the score.\<close>

type_synonym zset = "(int \<times> string set) list"
type_synonym zsets = "string \<rightharpoonup> zset"

definition LISTS_FILE_NAME :: string where
  "LISTS_FILE_NAME = ''_queue_lists.bin''"

definition SORTED_SETS_FILE_NAME :: string where
  "SORTED_SETS_FILE_NAME = ''_queue_sorted_sets.bin''"

record qkv =
  qk_kv :: kv
  qk_lists :: lists
  qk_zsets :: zsets
  qk_file_backed :: bool
  qk_dirty :: "string set"

definition mark_file :: "string \<Rightarrow> qkv \<Rightarrow> qkv" where
  "mark_file file_name q =
     (if qk_file_backed q then q\<lparr>qk_dirty := insert file_name (qk_dirty q)\<rparr> else q)"

definition qkv_new :: "kv \<Rightarrow> json option \<Rightarrow> lists \<Rightarrow> zsets \<Rightarrow> qkv" where
  "qkv_new k config loaded_lists loaded_zsets =
     (let file_backed = store_dir config \<noteq> None
      in \<lparr>qk_kv = k, qk_lists = (if file_backed then loaded_lists else Map.empty),
          qk_zsets = (if file_backed then loaded_zsets else Map.empty),
          qk_file_backed = file_backed, qk_dirty = {}\<rparr>)"

text \<open>
  What loading a file gives: nothing for a file that is missing or does not decode.  One round
  of the save loop writes the files that are marked and marks again the ones that fail.
\<close>

definition load_file :: "('f \<Rightarrow> ('a \<rightharpoonup> 'b) option) \<Rightarrow> 'f option \<Rightarrow> ('a \<rightharpoonup> 'b)" where
  "load_file decode content =
     (case Option.bind content decode of None \<Rightarrow> Map.empty | Some m \<Rightarrow> m)"

definition save_round ::
    "(lists \<Rightarrow> 'f) \<Rightarrow> (zsets \<Rightarrow> 'f) \<Rightarrow> (string \<Rightarrow> bool) \<Rightarrow> qkv \<Rightarrow> (string \<rightharpoonup> 'f) \<Rightarrow> qkv \<times> (string \<rightharpoonup> 'f)" where
  "save_round write_lists write_zsets fails q disk =
     (let batch = qk_dirty q;
          l = LISTS_FILE_NAME \<in> batch; z = SORTED_SETS_FILE_NAME \<in> batch;
          disk = (if l \<and> \<not> fails LISTS_FILE_NAME
                  then disk(LISTS_FILE_NAME \<mapsto> write_lists (qk_lists q)) else disk);
          disk = (if z \<and> \<not> fails SORTED_SETS_FILE_NAME
                  then disk(SORTED_SETS_FILE_NAME \<mapsto> write_zsets (qk_zsets q)) else disk)
      in (q\<lparr>qk_dirty := {f \<in> {LISTS_FILE_NAME, SORTED_SETS_FILE_NAME}. f \<in> batch \<and> fails f}\<rparr>, disk))"

section \<open>Job records\<close>

definition set_job :: "string \<Rightarrow> json \<Rightarrow> qkv \<Rightarrow> qkv" where
  "set_job key v q = q\<lparr>qk_kv := snd (kv_do (SetCall key [] v) (qk_kv q))\<rparr>"

definition get_job :: "string \<Rightarrow> qkv \<Rightarrow> json option" where
  "get_job key q = kv_get key [] (qk_kv q)"

definition delete_job :: "string \<Rightarrow> qkv \<Rightarrow> qkv" where
  "delete_job key q = q\<lparr>qk_kv := snd (kv_do (DeleteCall key []) (qk_kv q))\<rparr>"

definition list_job_keys :: "string \<Rightarrow> qkv \<Rightarrow> string set" where
  "list_job_keys pre q = list_keys_with_prefix pre (qk_kv q)"

definition list_structure_keys :: "string \<Rightarrow> qkv \<Rightarrow> string set" where
  "list_structure_keys pre q =
     {k \<in> dom (qk_lists q). starts_with k pre} \<union> {k \<in> dom (qk_zsets q). starts_with k pre}"

definition has_queue_state :: "string \<Rightarrow> qkv \<Rightarrow> bool" where
  "has_queue_state pre q \<longleftrightarrow>
     (\<exists>k \<in> dom (qk_lists q). starts_with k pre) \<or> (\<exists>k \<in> dom (qk_zsets q). starts_with k pre)"

section \<open>Lists\<close>

definition list_at :: "string \<Rightarrow> qkv \<Rightarrow> string list" where
  "list_at key q = (case qk_lists q key of None \<Rightarrow> [] | Some l \<Rightarrow> l)"

text \<open>Storing a list: an empty one is removed from the map.\<close>

definition put_list :: "string \<Rightarrow> string list \<Rightarrow> qkv \<Rightarrow> qkv" where
  "put_list key l q =
     mark_file LISTS_FILE_NAME
       (q\<lparr>qk_lists := (if l = [] then (qk_lists q)(key := None) else (qk_lists q)(key \<mapsto> l))\<rparr>)"

definition lpush :: "string \<Rightarrow> string \<Rightarrow> qkv \<Rightarrow> qkv" where
  "lpush key v q = put_list key (v # list_at key q) q"

definition rpush :: "string \<Rightarrow> string \<Rightarrow> qkv \<Rightarrow> qkv" where
  "rpush key v q = put_list key (list_at key q @ [v]) q"

definition rpop :: "string \<Rightarrow> qkv \<Rightarrow> string option \<times> qkv" where
  "rpop key q =
     (case qk_lists q key of
        None \<Rightarrow> (None, q)
      | Some l \<Rightarrow>
          if l = [] then (None, put_list key [] q)
          else (Some (last l), put_list key (butlast l) q))"

text \<open>\<open>VecDeque::retain\<close> with the counter of the first branch of \<open>lrem\<close>.\<close>

fun remove_first :: "nat \<Rightarrow> string \<Rightarrow> string list \<Rightarrow> string list" where
  "remove_first n v [] = []"
| "remove_first n v (x # xs) =
     (if 0 < n \<and> x = v then remove_first (n - 1) v xs else x # remove_first n v xs)"

definition lrem_list :: "int \<Rightarrow> string \<Rightarrow> string list \<Rightarrow> string list" where
  "lrem_list n v l =
     (if 0 < n then remove_first (nat n) v l
      else if n < 0 then rev (remove_first (nat (- n)) v (rev l))
      else filter (\<lambda>x. x \<noteq> v) l)"

definition lrem :: "string \<Rightarrow> int \<Rightarrow> string \<Rightarrow> qkv \<Rightarrow> nat \<times> qkv" where
  "lrem key n v q =
     (case qk_lists q key of
        None \<Rightarrow> (0, q)
      | Some l \<Rightarrow> let l' = lrem_list n v l in (length l - length l', put_list key l' q))"

definition lrange :: "string \<Rightarrow> nat \<Rightarrow> nat \<Rightarrow> qkv \<Rightarrow> string list" where
  "lrange key offset limit q = take limit (drop offset (list_at key q))"

definition llen :: "string \<Rightarrow> qkv \<Rightarrow> nat" where
  "llen key q = length (list_at key q)"

definition lremove_first_by :: "string \<Rightarrow> (string \<Rightarrow> bool) \<Rightarrow> qkv \<Rightarrow> string option \<times> qkv" where
  "lremove_first_by key P q =
     (case dropWhile (Not \<circ> P) (list_at key q) of
        [] \<Rightarrow> (None, q)
      | v # rest \<Rightarrow> (Some v, put_list key (takeWhile (Not \<circ> P) (list_at key q) @ rest) q))"

section \<open>Sorted sets\<close>

definition zset_at :: "string \<Rightarrow> qkv \<Rightarrow> zset" where
  "zset_at key q = (case qk_zsets q key of None \<Rightarrow> [] | Some z \<Rightarrow> z)"

definition zset_remove :: "string \<Rightarrow> zset \<Rightarrow> zset" where
  "zset_remove member z =
     filter (\<lambda>(score, ms). ms \<noteq> {}) (map (\<lambda>(score, ms). (score, ms - {member})) z)"

definition zset_add :: "int \<Rightarrow> string \<Rightarrow> zset \<Rightarrow> zset" where
  "zset_add score member z =
     (let z = zset_remove member z;
          ms = (case map_of z score of None \<Rightarrow> {} | Some ms \<Rightarrow> ms)
      in map_insert score (insert member ms) z)"

definition zadd :: "string \<Rightarrow> i64 \<Rightarrow> string \<Rightarrow> qkv \<Rightarrow> qkv" where
  "zadd key score member q =
     mark_file SORTED_SETS_FILE_NAME
       (q\<lparr>qk_zsets := (qk_zsets q)(key \<mapsto> zset_add (sint score) member (zset_at key q))\<rparr>)"

definition zset_member :: "string \<Rightarrow> zset \<Rightarrow> bool" where
  "zset_member member z \<longleftrightarrow> list_ex (\<lambda>(score, ms). member \<in> ms) z"

definition zrem :: "string \<Rightarrow> string \<Rightarrow> qkv \<Rightarrow> bool \<times> qkv" where
  "zrem key member q =
     (case qk_zsets q key of
        None \<Rightarrow> (False, q)
      | Some z \<Rightarrow>
          let found = zset_member member z;
              z' = zset_remove member z;
              q' = q\<lparr>qk_zsets := (if z' = [] then (qk_zsets q)(key := None) else (qk_zsets q)(key \<mapsto> z'))\<rparr>
          in (found, if found then mark_file SORTED_SETS_FILE_NAME q' else q'))"

definition zrangebyscore :: "(string set \<Rightarrow> string list) \<Rightarrow> string \<Rightarrow> i64 \<Rightarrow> i64 \<Rightarrow> qkv \<Rightarrow> string list" where
  "zrangebyscore ord key low high q =
     concat (map (\<lambda>(score, ms). ord ms)
       (filter (\<lambda>(score, ms). sint low \<le> score \<and> score \<le> sint high) (zset_at key q)))"

section \<open>The interface of the lists\<close>

text \<open>
  What the queue relies on: pushes at both ends and a pop at the back change the list at one
  key and no other.  Pushing at the front and popping at the back is then first in, first out.
\<close>

fun pop_times :: "nat \<Rightarrow> ('s \<Rightarrow> 'v option \<times> 's) \<Rightarrow> 's \<Rightarrow> 'v list \<times> 's" where
  "pop_times 0 pop s = ([], s)"
| "pop_times (Suc n) pop s =
     (case pop s of
        (None, s) \<Rightarrow> ([], s)
      | (Some v, s) \<Rightarrow> (let (vs, s) = pop_times n pop s in (v # vs, s)))"

locale key_lists =
  fixes at :: "'k \<Rightarrow> 's \<Rightarrow> 'v list"
    and push_front :: "'k \<Rightarrow> 'v \<Rightarrow> 's \<Rightarrow> 's"
    and push_back :: "'k \<Rightarrow> 'v \<Rightarrow> 's \<Rightarrow> 's"
    and pop_back :: "'k \<Rightarrow> 's \<Rightarrow> 'v option \<times> 's"
  assumes at_push_front: "at j (push_front k v s) = (if j = k then v # at k s else at j s)"
    and at_push_back: "at j (push_back k v s) = (if j = k then at k s @ [v] else at j s)"
    and pop_back_result: "fst (pop_back k s) = (if at k s = [] then None else Some (last (at k s)))"
    and at_pop_back: "at j (snd (pop_back k s)) = (if j = k then butlast (at k s) else at j s)"
begin

lemma at_push_front_all: "at k (fold (push_front k) vs s) = rev vs @ at k s"
  by (induction vs arbitrary: s) (simp_all add: at_push_front)

lemma at_push_front_other: "j \<noteq> k \<Longrightarrow> at j (fold (push_front k) vs s) = at j s"
  by (induction vs arbitrary: s) (simp_all add: at_push_front)

text \<open>Popping takes the back of the list, oldest first.\<close>

lemma pop_times_back:
  "at k s = rest @ rev vs \<Longrightarrow> fst (pop_times (length vs) (pop_back k) s) = vs"
proof (induction vs arbitrary: s)
  case (Cons v vs)
  then have res: "fst (pop_back k s) = Some v" and at: "at k (snd (pop_back k s)) = rest @ rev vs"
    by (simp_all add: pop_back_result at_pop_back butlast_append)
  show ?case
    using Cons.IH [OF at] res
    by (cases "pop_back k s") (simp add: split_def)
qed simp

lemma first_in_first_out:
  "fst (pop_times (length (rev (at k s) @ vs)) (pop_back k) (fold (push_front k) vs s)) =
     rev (at k s) @ vs"
  by (rule pop_times_back [where rest = "[]"]) (simp add: at_push_front_all)

end

lemma qk_mark_file [simp]:
  "qk_kv (mark_file f q) = qk_kv q" "qk_lists (mark_file f q) = qk_lists q"
  "qk_zsets (mark_file f q) = qk_zsets q" "qk_file_backed (mark_file f q) = qk_file_backed q"
  by (simp_all add: mark_file_def)

lemma list_at_put_list [simp]:
  "list_at j (put_list k l q) = (if j = k then l else list_at j q)"
  by (simp add: put_list_def list_at_def)

lemma put_list_frame [simp]:
  "qk_kv (put_list k l q) = qk_kv q" "qk_zsets (put_list k l q) = qk_zsets q"
  "zset_at j (put_list k l q) = zset_at j q" "get_job j (put_list k l q) = get_job j q"
  by (simp_all add: put_list_def zset_at_def get_job_def)

lemma list_at_lpush [simp]: "list_at j (lpush k v q) = (if j = k then v # list_at k q else list_at j q)"
  by (simp add: lpush_def)

lemma list_at_rpush [simp]: "list_at j (rpush k v q) = (if j = k then list_at k q @ [v] else list_at j q)"
  by (simp add: rpush_def)

lemma rpop_result [simp]:
  "fst (rpop k q) = (if list_at k q = [] then None else Some (last (list_at k q)))"
  by (simp add: rpop_def list_at_def split: option.split)

lemma list_at_rpop [simp]:
  "list_at j (snd (rpop k q)) = (if j = k then butlast (list_at k q) else list_at j q)"
  by (auto simp: rpop_def list_at_put_list split: option.split) (auto simp: list_at_def)

interpretation qlists: key_lists list_at lpush rpush rpop
  by unfold_locales simp_all

lemma list_frames [simp]:
  "zset_at j (lpush k v q) = zset_at j q" "get_job j (lpush k v q) = get_job j q"
  "zset_at j (rpush k v q) = zset_at j q" "get_job j (rpush k v q) = get_job j q"
  "zset_at j (snd (rpop k q)) = zset_at j q" "get_job j (snd (rpop k q)) = get_job j q"
  "zset_at j (snd (lrem k n v q)) = zset_at j q" "get_job j (snd (lrem k n v q)) = get_job j q"
  "qk_kv (lpush k v q) = qk_kv q" "qk_kv (snd (lrem k n v q)) = qk_kv q"
  by (simp_all add: lpush_def rpush_def rpop_def lrem_def Let_def split: option.split)

lemma list_at_lrem [simp]:
  "list_at j (snd (lrem k n v q)) = (if j = k then lrem_list n v (list_at k q) else list_at j q)"
  by (auto simp: lrem_def list_at_put_list Let_def split: option.split)
    (auto simp: list_at_def lrem_list_def)

lemma lrem_list_one: "lrem_list 1 v l = remove1 v l"
proof -
  have none: "remove_first 0 v l = l" for l by (induction l) auto
  have "remove_first 1 v l = remove1 v l" by (induction l) (auto simp: none)
  then show ?thesis by (simp add: lrem_list_def)
qed

section \<open>Laws of job records and sorted sets\<close>

lemma get_set_job [simp]: "get_job j (set_job k v q) = (if j = k then Some v else get_job j q)"
  by (simp add: get_job_def set_job_def kv_get_scope kv_do_store set_store_def scope_of_def Let_def
      map_of_imap_insert)

lemma get_delete_job [simp]: "get_job j (delete_job k q) = (if j = k then None else get_job j q)"
  by (auto simp: get_job_def delete_job_def kv_get_scope kv_do_store delete_store_def scope_of_def Let_def
      map_of_remove split: option.splits)

lemma job_frames [simp]:
  "list_at j (set_job k v q) = list_at j q" "zset_at j (set_job k v q) = zset_at j q"
  "list_at j (delete_job k q) = list_at j q" "zset_at j (delete_job k q) = zset_at j q"
  by (simp_all add: set_job_def delete_job_def list_at_def zset_at_def)

definition zset_members :: "zset \<Rightarrow> string set" where
  "zset_members z = (\<Union>(score, ms) \<in> set z. ms)"

text \<open>A well-formed sorted set: ascending scores, each with a finite non-empty set, no member twice.\<close>

definition zset_wf :: "zset \<Rightarrow> bool" where
  "zset_wf z \<longleftrightarrow>
     map_sorted z \<and> (\<forall>score ms. (score, ms) \<in> set z \<longrightarrow> ms \<noteq> {} \<and> finite ms) \<and>
     (\<forall>a ms b ns. (a, ms) \<in> set z \<longrightarrow> (b, ns) \<in> set z \<longrightarrow> a \<noteq> b \<longrightarrow> ms \<inter> ns = {})"

lemma zset_wfI:
  assumes "map_sorted z" and "\<And>score ms. (score, ms) \<in> set z \<Longrightarrow> ms \<noteq> {} \<and> finite ms"
    and "\<And>a ms b ns. (a, ms) \<in> set z \<Longrightarrow> (b, ns) \<in> set z \<Longrightarrow> a \<noteq> b \<Longrightarrow> ms \<inter> ns = {}"
  shows "zset_wf z"
  using assms unfolding zset_wf_def by blast

lemma zset_wfD:
  assumes "zset_wf z"
  shows "map_sorted z" and "(score, ms) \<in> set z \<Longrightarrow> ms \<noteq> {} \<and> finite ms"
    and "(a, ms) \<in> set z \<Longrightarrow> (b, ns) \<in> set z \<Longrightarrow> a \<noteq> b \<Longrightarrow> ms \<inter> ns = {}"
  using assms unfolding zset_wf_def by blast+

lemma zset_wf_Nil [simp]: "zset_wf []"
  by (simp add: zset_wf_def)

lemma zset_member_iff: "zset_member m z \<longleftrightarrow> m \<in> zset_members z"
  by (auto simp: zset_member_def zset_members_def list_ex_iff)

definition zset_has :: "zset \<Rightarrow> int \<Rightarrow> string \<Rightarrow> bool" where
  "zset_has z score member \<longleftrightarrow> (\<exists>ms. (score, ms) \<in> set z \<and> member \<in> ms)"

lemma zset_members_has: "m \<in> zset_members z \<longleftrightarrow> (\<exists>score. zset_has z score m)"
  by (auto simp: zset_members_def zset_has_def)


lemma map_sorted_zset_remove: "map_sorted z \<Longrightarrow> map_sorted (zset_remove m z)"
proof -
  assume "map_sorted z"
  then have "map_sorted (map (\<lambda>(score, ms). (score, ms - {m})) z)"
    by (simp add: map_sorted_def comp_def split_def)
  then show ?thesis unfolding zset_remove_def by (rule map_sorted_filter)
qed

lemma zset_has_unique:
  assumes "zset_wf z" and "zset_has z a m" and "zset_has z b m"
  shows "a = b"
proof -
  from assms(2,3) obtain ms ns where "(a, ms) \<in> set z" "m \<in> ms" "(b, ns) \<in> set z" "m \<in> ns"
    by (auto simp: zset_has_def)
  with zset_wfD(3) [OF assms(1), of a ms b ns] show ?thesis by auto
qed

lemma set_zset_remove:
  "(s, ms) \<in> set (zset_remove m z) \<longleftrightarrow> (\<exists>ns. (s, ns) \<in> set z \<and> ms = ns - {m}) \<and> ms \<noteq> {}"
  by (force simp: zset_remove_def)

lemma zset_has_remove: "zset_has (zset_remove m z) score x \<longleftrightarrow> x \<noteq> m \<and> zset_has z score x"
  unfolding zset_has_def set_zset_remove by blast

lemma zset_wf_remove:
  assumes "zset_wf z"
  shows "zset_wf (zset_remove m z)"
proof (rule zset_wfI)
  show "map_sorted (zset_remove m z)"
    using zset_wfD(1) [OF assms] by (rule map_sorted_zset_remove)
  show "ms \<noteq> {} \<and> finite ms" if "(s, ms) \<in> set (zset_remove m z)" for s ms
    using that zset_wfD(2) [OF assms] by (auto simp: set_zset_remove)
  show "ms \<inter> ns = {}" if "(a, ms) \<in> set (zset_remove m z)" "(b, ns) \<in> set (zset_remove m z)" "a \<noteq> b"
    for a ms b ns
    using that zset_wfD(3) [OF assms] unfolding set_zset_remove by blast
qed

lemma set_map_insert_zset:
  assumes "map_sorted z"
  shows "(s, ms) \<in> set (map_insert k v z) \<longleftrightarrow> (if s = k then ms = v else (s, ms) \<in> set z)"
proof -
  have "map_of (map_insert k v z) s = Some ms \<longleftrightarrow> (s, ms) \<in> set (map_insert k v z)"
    using assms by (intro map_of_mem_iff) (simp add: map_laws)
  moreover have "map_of z s = Some ms \<longleftrightarrow> (s, ms) \<in> set z" using assms by (rule map_of_mem_iff)
  ultimately show ?thesis using map_of_insert [OF assms, of k v] by auto
qed

lemma zset_add_entries:
  assumes "zset_wf z"
  shows "(s, ms) \<in> set (zset_add score m z) \<longleftrightarrow>
    (if s = score
     then ms = insert m (case map_of (zset_remove m z) score of None \<Rightarrow> {} | Some ns \<Rightarrow> ns)
     else (s, ms) \<in> set (zset_remove m z))"
  using zset_wfD(1) [OF assms]
  by (simp add: zset_add_def Let_def set_map_insert_zset map_sorted_zset_remove)

lemma zset_has_add:
  assumes "zset_wf z"
  shows "zset_has (zset_add score m z) s x \<longleftrightarrow> (if x = m then s = score else zset_has z s x)"
proof -
  let ?ns = "case map_of (zset_remove m z) score of None \<Rightarrow> {} | Some ns \<Rightarrow> ns"
  have sorted: "map_sorted (zset_remove m z)"
    using zset_wfD(1) [OF assms] by (rule map_sorted_zset_remove)
  have "x \<in> ?ns \<longleftrightarrow> zset_has (zset_remove m z) score x"
    unfolding zset_has_def map_of_mem_iff [OF sorted, symmetric] by (simp split: option.split)
  then have same: "x \<in> ?ns \<longleftrightarrow> x \<noteq> m \<and> zset_has z score x" by (simp add: zset_has_remove)
  show ?thesis
  proof (cases "s = score")
    case True
    then have "zset_has (zset_add score m z) s x \<longleftrightarrow> x \<in> insert m ?ns"
      unfolding zset_has_def by (simp add: zset_add_entries [OF assms])
    with same True show ?thesis by auto
  next
    case False
    then have "zset_has (zset_add score m z) s x \<longleftrightarrow> zset_has (zset_remove m z) s x"
      unfolding zset_has_def by (simp add: zset_add_entries [OF assms])
    with False show ?thesis by (simp add: zset_has_remove)
  qed
qed

lemma zset_wf_add:
  assumes "zset_wf z"
  shows "zset_wf (zset_add score m z)"
proof (rule zset_wfI)
  have wf: "zset_wf (zset_remove m z)" using assms by (rule zset_wf_remove)
  show "map_sorted (zset_add score m z)"
    using zset_wfD(1) [OF wf] by (simp add: zset_add_def Let_def map_laws)
  show "ms \<noteq> {} \<and> finite ms" if "(s, ms) \<in> set (zset_add score m z)" for s ms
    using that zset_wfD(2) [OF wf] map_of_SomeD [of "zset_remove m z" score]
    unfolding zset_add_entries [OF assms] by (auto split: if_splits option.splits)
  have unique: "s = t" if "zset_has (zset_add score m z) s x" "zset_has (zset_add score m z) t x" for s t x
    using that zset_has_unique [OF assms] by (auto simp: zset_has_add [OF assms] split: if_splits)
  show "ms \<inter> ns = {}"
    if "(a, ms) \<in> set (zset_add score m z)" "(b, ns) \<in> set (zset_add score m z)" "a \<noteq> b" for a ms b ns
    using that unique unfolding zset_has_def by blast
qed

lemma zset_members_add: "zset_wf z \<Longrightarrow> zset_members (zset_add score m z) = insert m (zset_members z)"
  by (auto simp: zset_members_has zset_has_add set_eq_iff split: if_splits)

lemma zset_members_remove: "zset_members (zset_remove m z) = zset_members z - {m}"
  by (auto simp: zset_members_has zset_has_remove)

text \<open>The enumeration of a hash set: every member once, in an order the code does not choose.\<close>

definition enumerates :: "(string set \<Rightarrow> string list) \<Rightarrow> bool" where
  "enumerates ord \<longleftrightarrow> (\<forall>S. finite S \<longrightarrow> set (ord S) = S \<and> distinct (ord S))"

lemma enumeratesD: "enumerates ord \<Longrightarrow> finite S \<Longrightarrow> set (ord S) = S \<and> distinct (ord S)"
  by (simp add: enumerates_def)

lemma set_zrangebyscore:
  assumes "enumerates ord" and "zset_wf (zset_at k q)"
  shows "x \<in> set (zrangebyscore ord k low high q) \<longleftrightarrow>
    (\<exists>score. sint low \<le> score \<and> score \<le> sint high \<and> zset_has (zset_at k q) score x)"
proof -
  have "set (ord ms) = ms" if "(s, ms) \<in> set (zset_at k q)" for s ms
    using enumeratesD [OF assms(1)] zset_wfD(2) [OF assms(2) that] by blast
  then show ?thesis
    unfolding zrangebyscore_def zset_has_def by (auto simp: split_def) (metis fst_conv snd_conv)+
qed

lemma distinct_concat_zset:
  assumes "enumerates ord" and "zset_wf z"
  shows "distinct (concat (map (\<lambda>(score, ms). ord ms) z))"
  using assms(2)
proof (induction z)
  case (Cons e z)
  obtain score ms where e: "e = (score, ms)" by (cases e)
  have wf: "zset_wf z"
  proof (rule zset_wfI)
    show "map_sorted z" using zset_wfD(1) [OF Cons.prems] by (cases e) (simp add: map_sorted_Cons)
    show "ns \<noteq> {} \<and> finite ns" if "(s, ns) \<in> set z" for s ns
      using that zset_wfD(2) [OF Cons.prems, of s ns] by simp
    show "ns \<inter> ns' = {}" if "(s, ns) \<in> set z" "(t, ns') \<in> set z" "s \<noteq> t" for s ns t ns'
      using that zset_wfD(3) [OF Cons.prems, of s ns t ns'] by simp
  qed
  have ord: "set (ord ns) = ns \<and> distinct (ord ns)" if "(s, ns) \<in> set (e # z)" for s ns
    using enumeratesD [OF assms(1)] zset_wfD(2) [OF Cons.prems that] by blast
  have disj: "ms \<inter> ns = {}" if "(s, ns) \<in> set z" for s ns
  proof -
    have "score < s" using zset_wfD(1) [OF Cons.prems] that by (force simp: map_sorted_Cons e)
    then show ?thesis using zset_wfD(3) [OF Cons.prems, of score ms s ns] that by (simp add: e)
  qed
  have "set (ord ms) \<inter> set (concat (map (\<lambda>(score, ms). ord ms) z)) = {}"
    using ord [of score ms] ord disj by (fastforce simp: e)
  then show ?case using Cons.IH [OF wf] ord [of score ms] by (simp add: e)
qed simp

lemma zset_wf_filter: "zset_wf z \<Longrightarrow> zset_wf (filter P z)"
  by (rule zset_wfI) (auto simp: map_sorted_filter dest: zset_wfD)

lemma distinct_zrangebyscore:
  "enumerates ord \<Longrightarrow> zset_wf (zset_at k q) \<Longrightarrow> distinct (zrangebyscore ord k low high q)"
  unfolding zrangebyscore_def by (intro distinct_concat_zset zset_wf_filter)

definition zsets_wf :: "qkv \<Rightarrow> bool" where
  "zsets_wf q \<longleftrightarrow> (\<forall>k z. qk_zsets q k = Some z \<longrightarrow> zset_wf z)"

lemma zset_at_wf: "zsets_wf q \<Longrightarrow> zset_wf (zset_at k q)"
  by (simp add: zsets_wf_def zset_at_def split: option.splits)

lemma zset_at_zadd [simp]:
  "zset_at j (zadd k score m q) = (if j = k then zset_add (sint score) m (zset_at k q) else zset_at j q)"
  by (simp add: zadd_def zset_at_def)

lemma zrem_result [simp]: "fst (zrem k m q) \<longleftrightarrow> m \<in> zset_members (zset_at k q)"
  by (auto simp: zrem_def zset_at_def zset_member_iff Let_def zset_members_def split: option.split)

lemma zset_at_zrem [simp]:
  "zset_at j (snd (zrem k m q)) = (if j = k then zset_remove m (zset_at k q) else zset_at j q)"
  by (auto simp: zrem_def Let_def zset_at_def zset_remove_def split: option.split)

lemma zset_frames [simp]:
  "list_at j (zadd k s m q) = list_at j q" "get_job j (zadd k s m q) = get_job j q"
  "list_at j (snd (zrem k m q)) = list_at j q" "get_job j (snd (zrem k m q)) = get_job j q"
  by (simp_all add: zadd_def zrem_def list_at_def get_job_def Let_def split: option.split)

lemma zsets_wf_zadd: "zsets_wf q \<Longrightarrow> zsets_wf (zadd k s m q)"
  using zset_at_wf [of q k] by (auto simp: zsets_wf_def zadd_def zset_wf_add)

lemma zsets_wf_zrem: "zsets_wf q \<Longrightarrow> zsets_wf (snd (zrem k m q))"
  by (auto simp: zsets_wf_def zrem_def Let_def zset_wf_remove split: option.splits if_splits)

lemma zsets_wf_frames [simp]:
  "zsets_wf (put_list k l q) = zsets_wf q" "zsets_wf (set_job k j q) = zsets_wf q"
  "zsets_wf (delete_job k q) = zsets_wf q" "zsets_wf (lpush k v q) = zsets_wf q"
  "zsets_wf (rpush k v q) = zsets_wf q" "zsets_wf (snd (rpop k q)) = zsets_wf q"
  "zsets_wf (snd (lrem k n v q)) = zsets_wf q"
  by (simp_all add: zsets_wf_def put_list_def set_job_def delete_job_def lpush_def rpush_def rpop_def
      lrem_def Let_def split: option.split)

end
