(* ===== verification/Queue_Jobs.thy ===== *)
theory Queue_Jobs
  imports Queue_Kv "HOL-Library.Monad_Syntax"
begin

text \<open>
  The data of the built-in queue (first part of \<open>engine/src/builtins/queue.rs\<close>): queue names
  with a namespace, job records and their serialized form, the back-off of a retry, and the
  configuration of a queue and of a subscription.  The identifier and the creation time of a
  job, which the code takes from a random generator and the clock, are arguments.
\<close>

section \<open>Namespaced names\<close>

abbreviation NS_ESCAPE :: char where "NS_ESCAPE \<equiv> CHR 0x5C"

definition replace_char :: "char \<Rightarrow> string \<Rightarrow> string \<Rightarrow> string" where
  "replace_char c t s = concat (map (\<lambda>x. if x = c then t else [x]) s)"

definition escape_ns_segment :: "string \<Rightarrow> char \<Rightarrow> string" where
  "escape_ns_segment segment sep =
     replace_char sep [NS_ESCAPE, sep] (replace_char NS_ESCAPE [NS_ESCAPE, NS_ESCAPE] segment)"

definition join_ns :: "string \<Rightarrow> string \<Rightarrow> char \<Rightarrow> string" where
  "join_ns pre namespace sep = escape_ns_segment pre sep @ sep # escape_ns_segment namespace sep"

section \<open>Jobs\<close>

record job =
  job_id :: string
  job_queue :: string
  job_data :: json
  attempts_made :: u32
  max_attempts :: u32
  backoff_delay_ms :: u64
  created_at :: u64
  process_at :: "u64 option"
  group_id :: "string option"
  traceparent :: "string option"
  baggage :: "string option"
  function_id :: "string option"
  message_id :: "string option"
  job_namespace :: "string option"

definition new_with_group ::
    "string \<Rightarrow> u64 \<Rightarrow> string \<Rightarrow> json \<Rightarrow> u32 \<Rightarrow> u64 \<Rightarrow> string option \<Rightarrow> string option \<Rightarrow> string option \<Rightarrow> job" where
  "new_with_group uuid now queue data attempts backoff grp trace bag =
     \<lparr>job_id = uuid, job_queue = queue, job_data = data, attempts_made = 0, max_attempts = attempts,
      backoff_delay_ms = backoff, created_at = now, process_at = None, group_id = grp,
      traceparent = trace, baggage = bag, function_id = None, message_id = None,
      job_namespace = None\<rparr>"

definition job_new ::
    "string \<Rightarrow> u64 \<Rightarrow> string \<Rightarrow> json \<Rightarrow> u32 \<Rightarrow> u64 \<Rightarrow> string option \<Rightarrow> string option \<Rightarrow> job" where
  "job_new uuid now queue data attempts backoff trace bag =
     new_with_group uuid now queue data attempts backoff None trace bag"

definition increment_attempts :: "job \<Rightarrow> job" where
  "increment_attempts j = j\<lparr>attempts_made := attempts_made j + 1\<rparr>"

definition is_exhausted :: "job \<Rightarrow> bool" where
  "is_exhausted j \<longleftrightarrow> max_attempts j \<le> attempts_made j"

definition calculate_backoff :: "job \<Rightarrow> u64" where
  "calculate_backoff j =
     saturating_mul (backoff_delay_ms j)
       (saturating_pow 2 (unat (saturating_sub32 (attempts_made j) 1)))"

subsection \<open>Serialized form\<close>

text \<open>
  The derived \<open>Serialize\<close>: an object whose keys the B-tree map sorts; an absent option is
  \<open>null\<close>, except for the namespace, which is left out.
\<close>

definition opt_value :: "('a \<Rightarrow> json) \<Rightarrow> 'a option \<Rightarrow> json" where
  "opt_value f x = (case x of None \<Rightarrow> Null | Some a \<Rightarrow> f a)"

definition u64_value :: "u64 \<Rightarrow> json" where
  "u64_value n = Number (number_of_u64 n)"

definition u32_value :: "u32 \<Rightarrow> json" where
  "u32_value n = Number (number_of_u64 (ucast n))"

definition job_to_value :: "job \<Rightarrow> json" where
  "job_to_value j = Object
     ([(''attempts_made'', u32_value (attempts_made j)),
       (''backoff_delay_ms'', u64_value (backoff_delay_ms j)),
       (''baggage'', opt_value String (baggage j)),
       (''created_at'', u64_value (created_at j)),
       (''data'', job_data j),
       (''function_id'', opt_value String (function_id j)),
       (''group_id'', opt_value String (group_id j)),
       (''id'', String (job_id j)),
       (''max_attempts'', u32_value (max_attempts j)),
       (''message_id'', opt_value String (message_id j))] @
      (case job_namespace j of None \<Rightarrow> [] | Some n \<Rightarrow> [(''namespace'', String n)]) @
      [(''process_at'', opt_value u64_value (process_at j)),
       (''queue'', String (job_queue j)),
       (''traceparent'', opt_value String (traceparent j))])"

text \<open>
  The derived \<open>Deserialize\<close>: from an object, whatever other keys it has, or from an array of
  the fields in the order of the structure.  An option may be \<open>null\<close> or missing.
\<close>

definition as_u32 :: "json \<Rightarrow> u32 option" where
  "as_u32 v = (case as_u64 v of
     Some n \<Rightarrow> if unat n < 2 ^ 32 then Some (ucast n) else None | None \<Rightarrow> None)"

definition opt_field :: "(json \<Rightarrow> 'a option) \<Rightarrow> json option \<Rightarrow> 'a option option" where
  "opt_field f v = (case v of
     None \<Rightarrow> Some None | Some Null \<Rightarrow> Some None | Some v \<Rightarrow> map_option Some (f v))"

definition job_of_fields :: "(string \<rightharpoonup> json) \<Rightarrow> job option" where
  "job_of_fields m = do {
     i \<leftarrow> Option.bind (m ''id'') as_str;
     q \<leftarrow> Option.bind (m ''queue'') as_str;
     d \<leftarrow> m ''data'';
     a \<leftarrow> Option.bind (m ''attempts_made'') as_u32;
     x \<leftarrow> Option.bind (m ''max_attempts'') as_u32;
     b \<leftarrow> Option.bind (m ''backoff_delay_ms'') as_u64;
     c \<leftarrow> Option.bind (m ''created_at'') as_u64;
     p \<leftarrow> opt_field as_u64 (m ''process_at'');
     g \<leftarrow> opt_field as_str (m ''group_id'');
     t \<leftarrow> opt_field as_str (m ''traceparent'');
     e \<leftarrow> opt_field as_str (m ''baggage'');
     f \<leftarrow> opt_field as_str (m ''function_id'');
     s \<leftarrow> opt_field as_str (m ''message_id'');
     n \<leftarrow> opt_field as_str (m ''namespace'');
     Some \<lparr>job_id = i, job_queue = q, job_data = d, attempts_made = a, max_attempts = x,
       backoff_delay_ms = b, created_at = c, process_at = p, group_id = g, traceparent = t,
       baggage = e, function_id = f, message_id = s, job_namespace = n\<rparr>
   }"

definition job_field_names :: "string list" where
  "job_field_names =
     [''id'', ''queue'', ''data'', ''attempts_made'', ''max_attempts'', ''backoff_delay_ms'',
      ''created_at'', ''process_at'', ''group_id'', ''traceparent'', ''baggage'', ''function_id'',
      ''message_id'', ''namespace'']"

fun job_of_value :: "json \<Rightarrow> job option" where
  "job_of_value (Object m) = job_of_fields (map_of m)"
| "job_of_value (Array vs) =
     (if length vs \<le> length job_field_names then job_of_fields (map_of (zip job_field_names vs)) else None)"
| "job_of_value _ = None"

section \<open>Configuration\<close>

datatype queue_mode = Concurrent | Fifo

record queue_config =
  cfg_max_attempts :: u32
  cfg_backoff_ms :: u64
  cfg_concurrency :: u32
  cfg_poll_interval_ms :: u64
  cfg_mode :: queue_mode

definition default_queue_config :: queue_config where
  "default_queue_config =
     \<lparr>cfg_max_attempts = 3, cfg_backoff_ms = 1000, cfg_concurrency = 10, cfg_poll_interval_ms = 100,
      cfg_mode = Concurrent\<rparr>"

text \<open>A number field of the configuration, when it is there and is a \<open>u64\<close>.\<close>

definition config_u64 :: "json \<Rightarrow> string \<Rightarrow> u64 option" where
  "config_u64 config field = Option.bind (json_get config field) as_u64"

definition config_from_value :: "json option \<Rightarrow> queue_config" where
  "config_from_value config =
     (let cfg = default_queue_config in
      case config of
        None \<Rightarrow> cfg
      | Some v \<Rightarrow>
          let cfg = (case config_u64 v ''max_attempts'' of
                None \<Rightarrow> cfg | Some n \<Rightarrow> cfg\<lparr>cfg_max_attempts := ucast n\<rparr>);
              cfg = (case config_u64 v ''backoff_ms'' of
                None \<Rightarrow> cfg | Some n \<Rightarrow> cfg\<lparr>cfg_backoff_ms := n\<rparr>);
              cfg = (case config_u64 v ''concurrency'' of
                None \<Rightarrow> cfg | Some n \<Rightarrow> cfg\<lparr>cfg_concurrency := ucast n\<rparr>);
              cfg = (case config_u64 v ''poll_interval_ms'' of
                None \<Rightarrow> cfg | Some n \<Rightarrow> cfg\<lparr>cfg_poll_interval_ms := n\<rparr>)
          in (case Option.bind (json_get v ''mode'') as_str of
                None \<Rightarrow> cfg
              | Some s \<Rightarrow> cfg\<lparr>cfg_mode := (if s = ''fifo'' then Fifo else Concurrent)\<rparr>))"

record subscription_config =
  sub_concurrency :: "u32 option"
  sub_max_attempts :: "u32 option"
  sub_backoff_ms :: "u64 option"
  sub_mode :: "queue_mode option"

definition effective :: "'a option \<Rightarrow> 'a \<Rightarrow> 'a" where
  "effective x fallback = (case x of None \<Rightarrow> fallback | Some a \<Rightarrow> a)"

definition effective_max_attempts :: "subscription_config \<Rightarrow> u32 \<Rightarrow> u32" where
  "effective_max_attempts c fallback = effective (sub_max_attempts c) fallback"

definition effective_backoff_ms :: "subscription_config \<Rightarrow> u64 \<Rightarrow> u64" where
  "effective_backoff_ms c fallback = effective (sub_backoff_ms c) fallback"

definition effective_concurrency :: "subscription_config \<Rightarrow> u32 \<Rightarrow> u32" where
  "effective_concurrency c fallback = effective (sub_concurrency c) fallback"

definition effective_mode :: "subscription_config \<Rightarrow> queue_mode \<Rightarrow> queue_mode" where
  "effective_mode c fallback = effective (sub_mode c) fallback"

section \<open>Names are unambiguous\<close>

lemma replace_char_Nil [simp]: "replace_char c t [] = []"
  by (simp add: replace_char_def)

lemma replace_char_Cons [simp]:
  "replace_char c t (x # s) = (if x = c then t else [x]) @ replace_char c t s"
  by (simp add: replace_char_def)

lemma replace_char_append [simp]: "replace_char c t (s @ s') = replace_char c t s @ replace_char c t s'"
  by (simp add: replace_char_def)

lemma escape_ns_Nil [simp]: "escape_ns_segment [] sep = []"
  by (simp add: escape_ns_segment_def)

lemma escape_ns_Cons:
  assumes "sep \<noteq> NS_ESCAPE"
  shows "escape_ns_segment (x # s) sep =
    (if x = NS_ESCAPE \<or> x = sep then [NS_ESCAPE, x] else [x]) @ escape_ns_segment s sep"
  using assms by (simp add: escape_ns_segment_def)

text \<open>The decoder: the text before the first separator that is not escaped, and what follows it.\<close>

fun split_ns :: "char \<Rightarrow> string \<Rightarrow> string \<times> string" where
  "split_ns sep [] = ([], [])"
| "split_ns sep [c] = (if c = sep then ([], []) else ([c], []))"
| "split_ns sep (c # d # s) =
     (if c = NS_ESCAPE then (let (a, b) = split_ns sep s in (d # a, b))
      else if c = sep then ([], d # s)
      else (let (a, b) = split_ns sep (d # s) in (c # a, b)))"

lemma split_ns_Cons:
  "c \<noteq> NS_ESCAPE \<Longrightarrow> c \<noteq> sep \<Longrightarrow> split_ns sep (c # s) = (let (a, b) = split_ns sep s in (c # a, b))"
  by (cases s) auto

lemma split_ns_escaped: "split_ns sep (NS_ESCAPE # c # s) = (let (a, b) = split_ns sep s in (c # a, b))"
  by simp

lemma split_ns_sep: "sep \<noteq> NS_ESCAPE \<Longrightarrow> split_ns sep (sep # s) = ([], s)"
  by (cases s) auto

lemma split_escape:
  assumes "sep \<noteq> NS_ESCAPE"
  shows "split_ns sep (escape_ns_segment p sep @ sep # t) = (p, t)"
proof (induction p)
  case Nil
  then show ?case using assms by (simp add: split_ns_sep)
next
  case (Cons x p)
  show ?case
  proof (cases "x = NS_ESCAPE \<or> x = sep")
    case True
    then have "escape_ns_segment (x # p) sep @ sep # t =
        NS_ESCAPE # x # (escape_ns_segment p sep @ sep # t)"
      by (simp add: escape_ns_Cons [OF assms])
    then show ?thesis using Cons.IH by (simp only: split_ns_escaped) simp
  next
    case False
    then have "escape_ns_segment (x # p) sep @ sep # t = x # (escape_ns_segment p sep @ sep # t)"
      by (simp add: escape_ns_Cons [OF assms])
    then show ?thesis using Cons.IH False by (simp add: split_ns_Cons)
  qed
qed

lemma escape_ns_inj:
  "sep \<noteq> NS_ESCAPE \<Longrightarrow> escape_ns_segment a sep = escape_ns_segment b sep \<Longrightarrow> a = b"
  by (metis split_escape fst_conv)

section \<open>Laws of jobs\<close>

lemma ucast_u32_u64 [simp]: "ucast (ucast (n :: u32) :: u64) = n"
  by (rule bit_word_eqI) (simp add: bit_simps)

lemma as_u32_value [simp]: "as_u32 (u32_value n) = Some n"
proof -
  have small: "unat n < 2 ^ 32" using unsigned_less [of n] by simp
  then have "unat (ucast n :: u64) = unat n"
    by (simp add: unsigned_ucast_eq take_bit_nat_eq_self)
  moreover note small
  ultimately show ?thesis by (simp add: as_u32_def u32_value_def number_of_u64_def)
qed

lemma as_u64_value [simp]: "as_u64 (u64_value n) = Some n"
  by (simp add: u64_value_def number_of_u64_def)

lemma opt_field_string [simp]: "opt_field as_str (Some (opt_value String x)) = Some x"
  by (cases x) (simp_all add: opt_field_def opt_value_def)

lemma opt_field_u64 [simp]: "opt_field as_u64 (Some (opt_value u64_value x)) = Some x"
  by (cases x) (simp_all add: opt_field_def opt_value_def u64_value_def number_of_u64_def)

lemma opt_field_Some_String: "opt_field as_str (Some (String s)) = Some (Some s)"
  by (simp add: opt_field_def)

lemma opt_field_None [simp]: "opt_field f None = Some None"
  by (simp add: opt_field_def)

lemma job_round_trip: "job_of_value (job_to_value j) = Some j"
  by (cases "job_namespace j") (simp_all add: job_to_value_def job_of_fields_def opt_field_Some_String)

lemma unat_saturating_sub32: "unat (saturating_sub32 a b) = unat a - unat b"
  by (simp add: saturating_sub32_def unat_sub word_le_nat_alt)

lemma unat_calculate_backoff:
  "unat (calculate_backoff j) =
     min (unat (backoff_delay_ms j) * 2 ^ (unat (attempts_made j) - 1)) (2 ^ 64 - 1)"
proof -
  let ?b = "unat (backoff_delay_ms j)" and ?e = "unat (attempts_made j) - 1"
  have "unat (calculate_backoff j) = min (?b * min (2 ^ ?e) (2 ^ 64 - 1)) (2 ^ 64 - 1)"
    by (simp add: calculate_backoff_def unat_saturating_mul unat_saturating_pow unat_saturating_sub32)
  also have "\<dots> = min (?b * 2 ^ ?e) (2 ^ 64 - 1)"
  proof (cases "(2 :: nat) ^ ?e \<le> 2 ^ 64 - 1")
    case True
    then show ?thesis by (simp only: min_absorb1)
  next
    case False
    then show ?thesis by (cases "?b") (auto simp: min_def)
  qed
  finally show ?thesis .
qed

lemma increment_attempts_simps [simp]:
  "job_id (increment_attempts j) = job_id j" "job_queue (increment_attempts j) = job_queue j"
  "max_attempts (increment_attempts j) = max_attempts j"
  "backoff_delay_ms (increment_attempts j) = backoff_delay_ms j"
  "attempts_made (increment_attempts j) = attempts_made j + 1"
  by (simp_all add: increment_attempts_def)

section \<open>Properties\<close>

text \<open>folding a namespace onto a queue name loses nothing: for every separator but the
  escape character itself, two pairs of a name and a namespace give the same joined name only
  when they are the same pair, whatever characters they contain.\<close>

theorem join_ns_injective:
  assumes "sep \<noteq> NS_ESCAPE"
  shows "join_ns p n sep = join_ns p' n' sep \<longleftrightarrow> p = p' \<and> n = n'"
  using split_escape [OF assms] escape_ns_inj [OF assms] unfolding join_ns_def by (metis prod.inject)

theorem join_ns_injective_witness: "join_ns ''a@x'' ''y'' CHR ''@'' \<noteq> join_ns ''a'' ''x@y'' CHR ''@''"
  using join_ns_injective [of "CHR ''@''" "''a@x''" "''y''" "''a''" "''x@y''"] by simp

text \<open>A job survives its serialized form, also in the array form of the derived reader,
  and a job written before the namespace field existed is read without a namespace.\<close>

theorem job_serialization_round_trip:
  "job_of_value (job_to_value j) = Some j \<and>
   job_of_value (Array
     [String (job_id j), String (job_queue j), job_data j, u32_value (attempts_made j),
      u32_value (max_attempts j), u64_value (backoff_delay_ms j), u64_value (created_at j),
      opt_value u64_value (process_at j)]) =
     Some (j\<lparr>group_id := None, traceparent := None, baggage := None, function_id := None,
       message_id := None, job_namespace := None\<rparr>) \<and>
   (job_namespace j = None \<longleftrightarrow> json_get (job_to_value j) ''namespace'' = None)"
proof (intro conjI)
  show "job_of_value (job_to_value j) = Some j" by (rule job_round_trip)
  show "job_namespace j = None \<longleftrightarrow> json_get (job_to_value j) ''namespace'' = None"
    by (cases "job_namespace j") (simp_all add: job_to_value_def)
qed (simp add: job_of_fields_def job_field_names_def)

text \<open>C24: the delay before a retry is the base delay, doubled for every attempt after the
  first, and stops at the largest 64-bit value instead of wrapping around.\<close>

theorem backoff_doubles_and_saturates:
  "unat (calculate_backoff j) =
     min (unat (backoff_delay_ms j) * 2 ^ (unat (attempts_made j) - 1)) (2 ^ 64 - 1) \<and>
   (\<forall>k :: job. attempts_made k = attempts_made j + 1 \<and> backoff_delay_ms k = backoff_delay_ms j \<and>
        1 \<le> unat (attempts_made j) \<and> unat (attempts_made j) < 2 ^ 32 - 1 \<longrightarrow>
      unat (calculate_backoff k) = min (2 * unat (calculate_backoff j)) (2 ^ 64 - 1))"
proof (intro conjI allI impI)
  fix k :: job
  assume k: "attempts_made k = attempts_made j + 1 \<and> backoff_delay_ms k = backoff_delay_ms j \<and>
    1 \<le> unat (attempts_made j) \<and> unat (attempts_made j) < 2 ^ 32 - 1"
  then have "unat (attempts_made k) = Suc (unat (attempts_made j))"
    by (simp add: unat_word_ariths)
  with k have "2 * (unat (backoff_delay_ms j) * 2 ^ (unat (attempts_made j) - 1)) =
      unat (backoff_delay_ms k) * 2 ^ (unat (attempts_made k) - 1)"
    by (cases "unat (attempts_made j)") simp_all
  then show "unat (calculate_backoff k) = min (2 * unat (calculate_backoff j)) (2 ^ 64 - 1)"
    unfolding unat_calculate_backoff by linarith
qed (rule unat_calculate_backoff)

definition sample_job :: job where
  "sample_job = (job_new ''id'' 0 ''q'' Null 3 1000 None None)\<lparr>attempts_made := 1\<rparr>"

theorem backoff_doubles_and_saturates_witness:
  "unat (calculate_backoff sample_job) = 1000 \<and>
   unat (calculate_backoff (sample_job\<lparr>attempts_made := 2\<rparr>)) = 2000"
  using backoff_doubles_and_saturates [of sample_job]
  by (auto simp: sample_job_def job_new_def new_with_group_def
      dest: spec [where x = "sample_job\<lparr>attempts_made := 2\<rparr>"])

end
