(* ===== verification/Queue.thy ===== *)
theory Queue
  imports Queue_Jobs
begin

text \<open>
  The operations of the built-in queue (\<open>BuiltinQueue\<close> in \<open>engine/src/builtins/queue.rs\<close>) on
  the store of \<open>Queue_Kv\<close>.  Every operation is a function of the queue that returns the queue
  it leaves; an operation holds no lock across its calls of the store, and the interleaving of
  operations is the order in which these functions are applied.  Parameters stand for what the
  code does not determine: \<open>now\<close> and \<open>clock\<close> for readings of the clock in milliseconds, \<open>uuid\<close>
  for a fresh identifier, \<open>ord\<close> for the order in which a hash map or set is enumerated, and
  \<open>to_text\<close>, \<open>of_text\<close> for the JSON printer and reader of \<open>serde_json\<close>.
  Arithmetic is that of the release profile, which wraps around.
\<close>

section \<open>State\<close>

datatype worker_kind = ConcurrentWorker u32 | GroupedFifoWorker nat | SingleFifoWorker

record queue_impl =
  q_store :: qkv
  q_msgs :: "json list"
  q_config :: queue_config
  q_subs :: "string \<rightharpoonup> subscription_config"
  q_workers :: "string \<rightharpoonup> string \<times> worker_kind"

datatype queue_error = MalformedJob

definition queue_new :: "qkv \<Rightarrow> queue_config \<Rightarrow> queue_impl" where
  "queue_new s config =
     \<lparr>q_store = s, q_msgs = [], q_config = config, q_subs = Map.empty, q_workers = Map.empty\<rparr>"

definition with_store :: "(qkv \<Rightarrow> qkv) \<Rightarrow> queue_impl \<Rightarrow> queue_impl" where
  "with_store f q = q\<lparr>q_store := f (q_store q)\<rparr>"

text \<open>A broadcast on the publish-subscribe channel of the queue.\<close>

definition send_msg :: "json \<Rightarrow> queue_impl \<Rightarrow> queue_impl" where
  "send_msg v q = q\<lparr>q_msgs := q_msgs q @ [v]\<rparr>"

section \<open>Keys\<close>

definition job_key :: "string \<Rightarrow> string \<Rightarrow> string" where
  "job_key queue i = ''queue:'' @ queue @ '':jobs:'' @ i"

definition waiting_key :: "string \<Rightarrow> string" where
  "waiting_key queue = ''queue:'' @ queue @ '':waiting''"

definition active_key :: "string \<Rightarrow> string" where
  "active_key queue = ''queue:'' @ queue @ '':active''"

definition delayed_key :: "string \<Rightarrow> string" where
  "delayed_key queue = ''queue:'' @ queue @ '':delayed''"

definition dlq_key :: "string \<Rightarrow> string" where
  "dlq_key queue = ''queue:'' @ queue @ '':dlq''"

section \<open>Publishing\<close>

definition available_msg :: "string \<Rightarrow> (string \<times> json) list \<Rightarrow> json" where
  "available_msg queue extra =
     Object (extra @ [(''topic'', String (''queue:job:'' @ queue)), (''type'', String ''available'')])"

definition store_waiting :: "string \<Rightarrow> job \<Rightarrow> qkv \<Rightarrow> qkv" where
  "store_waiting queue j s =
     lpush (waiting_key queue) (job_id j) (set_job (job_key queue (job_id j)) (job_to_value j) s)"

definition push_job :: "job \<Rightarrow> queue_impl \<Rightarrow> string \<times> queue_impl" where
  "push_job j q =
     (job_id j,
      send_msg (available_msg (job_queue j) [(''job_id'', String (job_id j))])
        (with_store (store_waiting (job_queue j) j) q))"

definition push ::
    "string \<Rightarrow> u64 \<Rightarrow> string \<Rightarrow> json \<Rightarrow> string option \<Rightarrow> string option \<Rightarrow> queue_impl \<Rightarrow> string \<times> queue_impl" where
  "push uuid now queue data trace bag q =
     (let j = job_new uuid now queue data (cfg_max_attempts (q_config q)) (cfg_backoff_ms (q_config q))
                trace bag
      in (job_id j,
          send_msg (available_msg queue [(''job_id'', String (job_id j))])
            (with_store (store_waiting queue j) q)))"

definition push_fifo ::
    "string \<Rightarrow> u64 \<Rightarrow> string \<Rightarrow> json \<Rightarrow> string \<Rightarrow> string option \<Rightarrow> string option \<Rightarrow> queue_impl \<Rightarrow>
     string \<times> queue_impl" where
  "push_fifo uuid now queue data grp trace bag q =
     (let j = new_with_group uuid now queue data (cfg_max_attempts (q_config q))
                (cfg_backoff_ms (q_config q)) (Some grp) trace bag
      in (job_id j,
          send_msg (available_msg queue [(''group_id'', String grp), (''job_id'', String (job_id j))])
            (with_store (store_waiting queue j) q)))"

text \<open>The clock is read twice: when the job is made and when its due time is computed.\<close>

definition push_delayed ::
    "string \<Rightarrow> u64 \<Rightarrow> u64 \<Rightarrow> string \<Rightarrow> json \<Rightarrow> u64 \<Rightarrow> string option \<Rightarrow> string option \<Rightarrow> queue_impl \<Rightarrow>
     string \<times> queue_impl" where
  "push_delayed uuid made now queue data delay_ms trace bag q =
     (let j = job_new uuid made queue data (cfg_max_attempts (q_config q)) (cfg_backoff_ms (q_config q))
                trace bag;
          due = now + delay_ms;
          j = j\<lparr>process_at := Some due\<rparr>
      in (job_id j,
          with_store (\<lambda>s. zadd (delayed_key queue) due (job_id j)
            (set_job (job_key queue (job_id j)) (job_to_value j) s)) q))"

section \<open>Consuming\<close>

definition pop :: "string \<Rightarrow> queue_impl \<Rightarrow> job option \<times> queue_impl" where
  "pop queue q =
     (case rpop (waiting_key queue) (q_store q) of
        (None, s) \<Rightarrow> (None, q\<lparr>q_store := s\<rparr>)
      | (Some i, s) \<Rightarrow>
          let s = lpush (active_key queue) i s
          in (Option.bind (get_job (job_key queue i) s) job_of_value, q\<lparr>q_store := s\<rparr>))"

definition ack :: "string \<Rightarrow> string \<Rightarrow> queue_impl \<Rightarrow> queue_impl" where
  "ack queue i q =
     with_store (\<lambda>s. delete_job (job_key queue i) (snd (lrem (active_key queue) 1 i s))) q"

definition apply_subscription_overrides :: "queue_impl \<Rightarrow> job \<Rightarrow> job" where
  "apply_subscription_overrides q j =
     (case q_subs q (job_queue j) of
        None \<Rightarrow> j
      | Some cfg \<Rightarrow> j\<lparr>max_attempts := effective_max_attempts cfg (max_attempts j),
                       backoff_delay_ms := effective_backoff_ms cfg (backoff_delay_ms j)\<rparr>)"

definition failed_data :: "job \<Rightarrow> string \<Rightarrow> u64 \<Rightarrow> json" where
  "failed_data j error now =
     Object [(''error'', String error), (''failed_at'', u64_value now), (''job'', job_to_value j)]"

definition move_to_dlq :: "(json \<Rightarrow> string) \<Rightarrow> u64 \<Rightarrow> string \<Rightarrow> job \<Rightarrow> string \<Rightarrow> queue_impl \<Rightarrow> queue_impl" where
  "move_to_dlq to_text now queue j error q =
     with_store (\<lambda>s.
       let s = snd (lrem (active_key queue) 1 (job_id j) s);
           s = lpush (dlq_key queue) (to_text (failed_data j error now)) s
       in delete_job (job_key queue (job_id j)) s) q"

definition schedule_retry :: "u64 \<Rightarrow> string \<Rightarrow> string \<Rightarrow> job \<Rightarrow> qkv \<Rightarrow> qkv" where
  "schedule_retry now queue i j s =
     (let s = snd (lrem (active_key queue) 1 i s);
          due = now + calculate_backoff j;
          j = j\<lparr>process_at := Some due\<rparr>;
          s = set_job (job_key queue i) (job_to_value j) s
      in zadd (delayed_key queue) due i s)"

definition nack ::
    "(json \<Rightarrow> string) \<Rightarrow> u64 \<Rightarrow> string \<Rightarrow> string \<Rightarrow> string \<Rightarrow> queue_impl \<Rightarrow>
     (queue_error, unit) result \<times> queue_impl" where
  "nack to_text now queue i error q =
     (case get_job (job_key queue i) (q_store q) of
        None \<Rightarrow> (Ok (), with_store (\<lambda>s. snd (lrem (active_key queue) 1 i s)) q)
      | Some v \<Rightarrow>
          (case job_of_value v of
             None \<Rightarrow> (Err MalformedJob, q)
           | Some j \<Rightarrow>
               let j = increment_attempts (apply_subscription_overrides q j)
               in if is_exhausted j then (Ok (), move_to_dlq to_text now queue j error q)
                  else (Ok (), with_store (schedule_retry now queue i j) q)))"

definition move_ready :: "string \<Rightarrow> string \<Rightarrow> qkv \<Rightarrow> qkv" where
  "move_ready queue i s =
     (case zrem (delayed_key queue) i s of
        (removed, s) \<Rightarrow> if removed then rpush (waiting_key queue) i s else s)"

definition move_delayed_to_waiting ::
    "(string set \<Rightarrow> string list) \<Rightarrow> i64 \<Rightarrow> string \<Rightarrow> queue_impl \<Rightarrow> queue_impl" where
  "move_delayed_to_waiting ord now queue q =
     (let ready = zrangebyscore ord (delayed_key queue) 0 now (q_store q)
      in if ready = [] then q
         else send_msg (available_msg queue []) (with_store (fold (move_ready queue) ready) q))"

section \<open>Subscriptions\<close>

definition subscribe ::
    "string \<Rightarrow> string \<Rightarrow> subscription_config option \<Rightarrow> queue_impl \<Rightarrow> string \<times> queue_impl" where
  "subscribe handle queue config q =
     (let mode = effective (Option.bind config sub_mode) (cfg_mode (q_config q));
          concurrency = effective (Option.bind config sub_concurrency) (cfg_concurrency (q_config q));
          q = (case config of None \<Rightarrow> q | Some c \<Rightarrow> q\<lparr>q_subs := (q_subs q)(queue \<mapsto> c)\<rparr>);
          worker = (case mode of
             Fifo \<Rightarrow> if 1 < unat concurrency then GroupedFifoWorker (unat concurrency) else SingleFifoWorker
           | Concurrent \<Rightarrow> ConcurrentWorker concurrency)
      in (handle, q\<lparr>q_workers := (q_workers q)(handle \<mapsto> (queue, worker))\<rparr>))"

definition unsubscribe :: "string \<Rightarrow> queue_impl \<Rightarrow> queue_impl" where
  "unsubscribe handle q = q\<lparr>q_workers := (q_workers q)(handle := None)\<rparr>"

section \<open>The dead-letter queue\<close>

record dlq_message =
  dlq_id :: string
  dlq_payload :: json
  dlq_error :: string
  dlq_failed_at :: u64
  dlq_retries :: u32
  dlq_size_bytes :: u64

definition dlq_message_of :: "string \<Rightarrow> json \<Rightarrow> dlq_message" where
  "dlq_message_of item v =
     (let j = json_get v ''job'';
          field = (\<lambda>k. Option.bind j (\<lambda>j. json_get j k))
      in \<lparr>dlq_id = effective (Option.bind (field ''id'') as_str) ''unknown'',
          dlq_payload = effective (field ''data'') Null,
          dlq_error = effective (Option.bind (json_get v ''error'') as_str) ''unknown'',
          dlq_failed_at = effective (Option.bind (json_get v ''failed_at'') as_u64) 0 div 1000,
          dlq_retries = ucast (effective (Option.bind (field ''attempts_made'') as_u64) 0),
          dlq_size_bytes = of_nat (length item)\<rparr>)"

definition dlq_peek ::
    "(string \<Rightarrow> json option) \<Rightarrow> string \<Rightarrow> u64 \<Rightarrow> u64 \<Rightarrow> queue_impl \<Rightarrow> dlq_message list" where
  "dlq_peek of_text queue offset limit q =
     List.map_filter (\<lambda>item. map_option (dlq_message_of item) (of_text item))
       (lrange (dlq_key queue) (unat offset) (unat limit) (q_store q))"

definition queue_depth :: "string \<Rightarrow> queue_impl \<Rightarrow> u64" where
  "queue_depth queue q =
     of_nat (llen (waiting_key queue) (q_store q)) + of_nat (llen (active_key queue) (q_store q))"

definition dlq_count :: "string \<Rightarrow> queue_impl \<Rightarrow> u64" where
  "dlq_count queue q = of_nat (llen (dlq_key queue) (q_store q))"

definition dlq_messages :: "(string \<Rightarrow> json option) \<Rightarrow> string \<Rightarrow> nat \<Rightarrow> queue_impl \<Rightarrow> json list" where
  "dlq_messages of_text queue n q = List.map_filter of_text (lrange (dlq_key queue) 0 n (q_store q))"

text \<open>The job of an entry, when the entry can be read.\<close>

definition dlq_job :: "(string \<Rightarrow> json option) \<Rightarrow> string \<Rightarrow> job option" where
  "dlq_job of_text item =
     Option.bind (of_text item) (\<lambda>v. Option.bind (json_get v ''job'') job_of_value)"

definition redrive_job :: "string \<Rightarrow> job \<Rightarrow> qkv \<Rightarrow> qkv" where
  "redrive_job queue j s = store_waiting queue (j\<lparr>attempts_made := 0\<rparr>) s"

lemma suffix_of_keys:
  "last (waiting_key a) = CHR ''g''" "last (active_key a) = CHR ''e''"
  "last (delayed_key a) = CHR ''d''" "last (dlq_key a) = CHR ''q''"
  by (simp_all add: waiting_key_def active_key_def delayed_key_def dlq_key_def)

lemma list_keys_differ [simp]:
  "waiting_key a \<noteq> active_key b" "active_key a \<noteq> waiting_key b"
  "waiting_key a \<noteq> dlq_key b" "dlq_key a \<noteq> waiting_key b"
  "active_key a \<noteq> dlq_key b" "dlq_key a \<noteq> active_key b"
  by (rule notI, drule arg_cong [where f = last], simp add: suffix_of_keys)+

text \<open>\<open>rpop\<close> until the list is empty: an entry that cannot be read is dropped.\<close>

function redrive_loop ::
    "(string \<Rightarrow> json option) \<Rightarrow> string \<Rightarrow> u64 \<Rightarrow> qkv \<Rightarrow> u64 \<times> qkv" where
  "redrive_loop of_text queue n s =
     (case rpop (dlq_key queue) s of
        (None, s') \<Rightarrow> (n, s')
      | (Some item, s') \<Rightarrow>
          (case dlq_job of_text item of
             None \<Rightarrow> redrive_loop of_text queue n s'
           | Some j \<Rightarrow> redrive_loop of_text queue (n + 1) (redrive_job queue j s')))"
  by pat_completeness auto

lemma rpop_Some_shrinks: "rpop k s = (Some v, s') \<Longrightarrow> length (list_at k s') < length (list_at k s)"
  using rpop_result [of k s] list_at_rpop [of k k s] by (auto split: if_splits)

lemma redrive_job_dlq [simp]: "list_at (dlq_key a) (redrive_job queue j s) = list_at (dlq_key a) s"
  by (simp add: redrive_job_def store_waiting_def)

termination redrive_loop
  by (relation "measure (\<lambda>(of_text, queue, n, s). length (list_at (dlq_key queue) s))")
    (auto dest: rpop_Some_shrinks [OF sym])

declare redrive_loop.simps [simp del]

definition dlq_redrive :: "(string \<Rightarrow> json option) \<Rightarrow> string \<Rightarrow> queue_impl \<Rightarrow> u64 \<times> queue_impl" where
  "dlq_redrive of_text queue q =
     (case redrive_loop of_text queue 0 (q_store q) of
        (n, s) \<Rightarrow> let q = q\<lparr>q_store := s\<rparr>
                  in (n, if 0 < n then send_msg (available_msg queue []) q else q))"

definition dlq_entry_matches :: "(string \<Rightarrow> json option) \<Rightarrow> string \<Rightarrow> string \<Rightarrow> bool" where
  "dlq_entry_matches of_text mid item \<longleftrightarrow>
     (case Option.bind (of_text item) (\<lambda>v. Option.bind (json_get v ''job'')
             (\<lambda>j. Option.bind (json_get j ''id'') as_str)) of
        None \<Rightarrow> False | Some i \<Rightarrow> i = mid)"

definition dlq_find_and_remove ::
    "(string \<Rightarrow> json option) \<Rightarrow> string \<Rightarrow> string \<Rightarrow> queue_impl \<Rightarrow> (job \<times> string) option \<times> queue_impl" where
  "dlq_find_and_remove of_text queue mid q =
     (case lremove_first_by (dlq_key queue) (dlq_entry_matches of_text mid) (q_store q) of
        (found, s) \<Rightarrow>
          (Option.bind found (\<lambda>item. map_option (\<lambda>j. (j, item)) (dlq_job of_text item)), q\<lparr>q_store := s\<rparr>))"

definition dlq_redrive_message ::
    "(string \<Rightarrow> json option) \<Rightarrow> string \<Rightarrow> string \<Rightarrow> queue_impl \<Rightarrow> bool \<times> queue_impl" where
  "dlq_redrive_message of_text queue mid q =
     (case dlq_find_and_remove of_text queue mid q of
        (Some (j, item), q) \<Rightarrow>
          (True, send_msg (available_msg queue []) (with_store (redrive_job queue j) q))
      | (None, q) \<Rightarrow> (False, q))"

definition dlq_discard_message ::
    "(string \<Rightarrow> json option) \<Rightarrow> string \<Rightarrow> string \<Rightarrow> queue_impl \<Rightarrow> bool \<times> queue_impl" where
  "dlq_discard_message of_text queue mid q =
     (case dlq_find_and_remove of_text queue mid q of
        (Some (j, item), q) \<Rightarrow> (True, with_store (delete_job (job_key queue (job_id j))) q)
      | (None, q) \<Rightarrow> (False, q))"

end
