(* ===== verification/Queue_Laws.thy ===== *)
theory Queue_Laws
  imports Queue
begin

text \<open>
  Laws of the built-in queue.  The waiting list of a queue implements a first-in first-out
  queue of jobs (the interface \<open>fifo_queue\<close>), and the jobs of a queue are conserved: whatever
  the operations, every job that was published is in exactly one of the waiting list, the
  active list and the delayed set, or has been acknowledged or dead-lettered.
\<close>

section \<open>Views of a queue\<close>

abbreviation waiting :: "string \<Rightarrow> queue_impl \<Rightarrow> string list" where
  "waiting queue q \<equiv> list_at (waiting_key queue) (q_store q)"

abbreviation active :: "string \<Rightarrow> queue_impl \<Rightarrow> string list" where
  "active queue q \<equiv> list_at (active_key queue) (q_store q)"

abbreviation delayed :: "string \<Rightarrow> queue_impl \<Rightarrow> zset" where
  "delayed queue q \<equiv> zset_at (delayed_key queue) (q_store q)"

abbreviation dlq :: "string \<Rightarrow> queue_impl \<Rightarrow> string list" where
  "dlq queue q \<equiv> list_at (dlq_key queue) (q_store q)"

definition job_at :: "string \<Rightarrow> string \<Rightarrow> queue_impl \<Rightarrow> job option" where
  "job_at queue i q = Option.bind (get_job (job_key queue i) (q_store q)) job_of_value"

lemma job_key_inj [simp]: "job_key queue i = job_key queue k \<longleftrightarrow> i = k"
  by (simp add: job_key_def)

lemma list_key_inj [simp]:
  "waiting_key a = waiting_key b \<longleftrightarrow> a = b" "active_key a = active_key b \<longleftrightarrow> a = b"
  "delayed_key a = delayed_key b \<longleftrightarrow> a = b" "dlq_key a = dlq_key b \<longleftrightarrow> a = b"
  by (simp_all add: waiting_key_def active_key_def delayed_key_def dlq_key_def)

lemma with_store_simps [simp]:
  "q_store (with_store f q) = f (q_store q)" "q_msgs (with_store f q) = q_msgs q"
  "q_subs (with_store f q) = q_subs q" "q_config (with_store f q) = q_config q"
  by (simp_all add: with_store_def)

lemma send_msg_simps [simp]:
  "q_store (send_msg v q) = q_store q" "q_subs (send_msg v q) = q_subs q"
  "q_config (send_msg v q) = q_config q"
  by (simp_all add: send_msg_def)

lemma overrides_simps [simp]:
  "job_id (apply_subscription_overrides q j) = job_id j"
  "job_queue (apply_subscription_overrides q j) = job_queue j"
  "attempts_made (apply_subscription_overrides q j) = attempts_made j"
  by (simp_all add: apply_subscription_overrides_def split: option.split)

lemma store_waiting_views [simp]:
  "list_at k (store_waiting queue j s) =
     (if k = waiting_key queue then job_id j # list_at k s else list_at k s)"
  "zset_at k (store_waiting queue j s) = zset_at k s"
  "get_job k (store_waiting queue j s) =
     (if k = job_key queue (job_id j) then Some (job_to_value j) else get_job k s)"
  "zsets_wf (store_waiting queue j s) = zsets_wf s"
  by (simp_all add: store_waiting_def)

subsection \<open>What popping and acknowledging do\<close>

lemma pop_empty: "waiting queue q = [] \<Longrightarrow> fst (pop queue q) = None"
  using rpop_result [of "waiting_key queue" "q_store q"]
  by (simp add: pop_def split_def Let_def split: option.split)

lemma rpop_cases:
  "rpop k s = (if list_at k s = [] then None else Some (last (list_at k s)), snd (rpop k s))"
  using rpop_result [of k s] by (cases "rpop k s") simp

lemma pop_views [simp]:
  "waiting queue (snd (pop queue q)) = butlast (waiting queue q)"
  "active queue (snd (pop queue q)) =
     (if waiting queue q = [] then active queue q else last (waiting queue q) # active queue q)"
  "delayed k (snd (pop queue q)) = delayed k q" "dlq k (snd (pop queue q)) = dlq k q"
  "job_at k i (snd (pop queue q)) = job_at k i q"
  "zsets_wf (q_store (snd (pop queue q))) = zsets_wf (q_store q)"
  "q_subs (snd (pop queue q)) = q_subs q" "q_config (snd (pop queue q)) = q_config q"
  unfolding pop_def by (subst rpop_cases; simp add: Let_def job_at_def)+

lemma pop_other_views:
  "k \<noteq> queue \<Longrightarrow> waiting k (snd (pop queue q)) = waiting k q"
  "k \<noteq> queue \<Longrightarrow> active k (snd (pop queue q)) = active k q"
  unfolding pop_def by (subst rpop_cases; simp add: Let_def)+

lemma pop_result:
  "fst (pop queue q) =
     (if waiting queue q = [] then None else job_at queue (last (waiting queue q)) q)"
  unfolding pop_def by (subst rpop_cases) (simp add: Let_def job_at_def)

lemma ack_views [simp]:
  "waiting k (ack queue i q) = waiting k q"
  "active k (ack queue i q) = (if k = queue then remove1 i (active k q) else active k q)"
  "delayed k (ack queue i q) = delayed k q" "dlq k (ack queue i q) = dlq k q"
  "job_at queue k (ack queue i q) = (if k = i then None else job_at queue k q)"
  "zsets_wf (q_store (ack queue i q)) = zsets_wf (q_store q)"
  by (simp_all add: ack_def lrem_list_one job_at_def)

lemma push_job_views [simp]:
  "waiting k (snd (push_job j q)) =
     (if k = job_queue j then job_id j # waiting k q else waiting k q)"
  "active k (snd (push_job j q)) = active k q" "delayed k (snd (push_job j q)) = delayed k q"
  "dlq k (snd (push_job j q)) = dlq k q"
  "job_at (job_queue j) i (snd (push_job j q)) = (if i = job_id j then Some j else job_at (job_queue j) i q)"
  "zsets_wf (q_store (snd (push_job j q))) = zsets_wf (q_store q)"
  by (simp_all add: push_job_def job_at_def job_round_trip)

section \<open>First in, first out\<close>

text \<open>
  A queue that adds at one end and takes from the other, with operations that do not touch it.
  A client sees it as a list: its answers are those of the list, whatever the sequence.
\<close>

datatype ('a, 'k) fifo_op = Enq 'a | Deq | Other 'k

fun fifo_run ::
    "('a \<Rightarrow> 'q \<Rightarrow> 'q) \<Rightarrow> ('q \<Rightarrow> 'a option \<times> 'q) \<Rightarrow> ('k \<Rightarrow> 'q \<Rightarrow> 'q) \<Rightarrow> ('a, 'k) fifo_op list \<Rightarrow> 'q \<Rightarrow>
     'a option list \<times> 'q" where
  "fifo_run enq deq other [] q = ([], q)"
| "fifo_run enq deq other (Enq x # ops) q = fifo_run enq deq other ops (enq x q)"
| "fifo_run enq deq other (Deq # ops) q =
     (let (r, q) = deq q; (rs, q) = fifo_run enq deq other ops q in (r # rs, q))"
| "fifo_run enq deq other (Other k # ops) q = fifo_run enq deq other ops (other k q)"

definition list_deq :: "'a list \<Rightarrow> 'a option \<times> 'a list" where
  "list_deq xs = (case xs of [] \<Rightarrow> (None, []) | x # ys \<Rightarrow> (Some x, ys))"

abbreviation list_run :: "('a, 'k) fifo_op list \<Rightarrow> 'a list \<Rightarrow> 'a option list \<times> 'a list" where
  "list_run \<equiv> fifo_run (\<lambda>x xs. xs @ [x]) list_deq (\<lambda>k xs. xs)"

fun fifo_ok :: "('a \<Rightarrow> 'a list \<Rightarrow> bool) \<Rightarrow> ('k \<Rightarrow> 'a list \<Rightarrow> bool) \<Rightarrow> ('a, 'k) fifo_op list \<Rightarrow> 'a list \<Rightarrow> bool" where
  "fifo_ok accepts harmless [] xs = True"
| "fifo_ok accepts harmless (Enq x # ops) xs = (accepts x xs \<and> fifo_ok accepts harmless ops (xs @ [x]))"
| "fifo_ok accepts harmless (Deq # ops) xs = fifo_ok accepts harmless ops (tl xs)"
| "fifo_ok accepts harmless (Other k # ops) xs = (harmless k xs \<and> fifo_ok accepts harmless ops xs)"

locale fifo_queue =
  fixes items :: "'q \<Rightarrow> 'a list" and invar :: "'q \<Rightarrow> bool"
    and enq :: "'a \<Rightarrow> 'q \<Rightarrow> 'q" and deq :: "'q \<Rightarrow> 'a option \<times> 'q" and other :: "'k \<Rightarrow> 'q \<Rightarrow> 'q"
    and accepts :: "'a \<Rightarrow> 'a list \<Rightarrow> bool" and harmless :: "'k \<Rightarrow> 'a list \<Rightarrow> bool"
  assumes enq_law: "invar q \<Longrightarrow> accepts x (items q) \<Longrightarrow> invar (enq x q) \<and> items (enq x q) = items q @ [x]"
    and deq_law: "invar q \<Longrightarrow> invar (snd (deq q)) \<and> (fst (deq q), items (snd (deq q))) = list_deq (items q)"
    and other_law: "invar q \<Longrightarrow> harmless k (items q) \<Longrightarrow> invar (other k q) \<and> items (other k q) = items q"
begin

lemma run_refines_list:
  assumes "invar q" and "fifo_ok accepts harmless ops (items q)"
  shows "invar (snd (fifo_run enq deq other ops q)) \<and>
    (fst (fifo_run enq deq other ops q), items (snd (fifo_run enq deq other ops q))) = list_run ops (items q)"
  using assms
proof (induction ops arbitrary: q)
  case (Cons op ops)
  show ?case
  proof (cases op)
    case (Enq x)
    then show ?thesis using Cons enq_law [of q x] by simp
  next
    case Deq
    obtain r q' where d: "deq q = (r, q')" by (cases "deq q")
    have law: "invar q'" "list_deq (items q) = (r, items q')" using deq_law [OF Cons.prems(1)] d by simp_all
    then have "items q' = tl (items q)" by (auto simp: list_deq_def split: list.splits)
    with Cons.IH [OF law(1)] Cons.prems(2) Deq
    have "invar (snd (fifo_run enq deq other ops q'))"
      "list_run ops (items q') =
         (fst (fifo_run enq deq other ops q'), items (snd (fifo_run enq deq other ops q')))"
      by simp_all
    then show ?thesis using law d Deq by (simp add: split_def Let_def)
  next
    case (Other k)
    then show ?thesis using Cons other_law [of q k] by simp
  qed
qed simp

end

text \<open>The jobs that wait in a queue, oldest first.\<close>

definition waiting_jobs :: "string \<Rightarrow> queue_impl \<Rightarrow> job list" where
  "waiting_jobs queue q = map (\<lambda>i. the (job_at queue i q)) (rev (waiting queue q))"

definition waiting_ok :: "string \<Rightarrow> queue_impl \<Rightarrow> bool" where
  "waiting_ok queue q \<longleftrightarrow>
     list_all (\<lambda>i. case job_at queue i q of None \<Rightarrow> False | Some j \<Rightarrow> job_id j = i) (waiting queue q)"

definition publishable :: "string \<Rightarrow> job \<Rightarrow> job list \<Rightarrow> bool" where
  "publishable queue j js \<longleftrightarrow> job_queue j = queue \<and> job_id j \<notin> job_id ` set js"

definition acknowledgeable :: "string \<Rightarrow> job list \<Rightarrow> bool" where
  "acknowledgeable i js \<longleftrightarrow> i \<notin> job_id ` set js"

lemma waiting_okD:
  "waiting_ok queue q \<Longrightarrow> i \<in> set (waiting queue q) \<Longrightarrow> \<exists>j. job_at queue i q = Some j \<and> job_id j = i"
  by (auto simp: waiting_ok_def list_all_iff split: option.splits)

lemma waiting_okI:
  "(\<And>i. i \<in> set (waiting queue q) \<Longrightarrow> \<exists>j. job_at queue i q = Some j \<and> job_id j = i) \<Longrightarrow> waiting_ok queue q"
  by (fastforce simp: waiting_ok_def list_all_iff split: option.splits)

lemma waiting_job_ids: "waiting_ok queue q \<Longrightarrow> job_id ` set (waiting_jobs queue q) = set (waiting queue q)"
  by (force simp: waiting_jobs_def image_image dest: waiting_okD)

lemma waiting_jobs_push:
  assumes "waiting_ok queue q" and "publishable queue j (waiting_jobs queue q)"
  shows "waiting_ok queue (snd (push_job j q)) \<and>
    waiting_jobs queue (snd (push_job j q)) = waiting_jobs queue q @ [j]"
proof -
  from assms have queue: "queue = job_queue j" and fresh: "job_id j \<notin> set (waiting queue q)"
    by (auto simp: publishable_def waiting_job_ids)
  have "waiting_ok queue (snd (push_job j q))"
    using waiting_okD [OF assms(1)] by (intro waiting_okI) (auto simp: queue)
  moreover have "waiting_jobs queue (snd (push_job j q)) = waiting_jobs queue q @ [j]"
    using fresh unfolding waiting_jobs_def queue by (auto intro!: map_cong)
  ultimately show ?thesis ..
qed

lemma waiting_jobs_pop:
  assumes "waiting_ok queue q"
  shows "waiting_ok queue (snd (pop queue q)) \<and>
    (fst (pop queue q), waiting_jobs queue (snd (pop queue q))) = list_deq (waiting_jobs queue q)"
proof
  show "waiting_ok queue (snd (pop queue q))"
    using waiting_okD [OF assms] by (intro waiting_okI) (auto dest: in_set_butlastD)
  show "(fst (pop queue q), waiting_jobs queue (snd (pop queue q))) = list_deq (waiting_jobs queue q)"
  proof (cases "waiting queue q" rule: rev_cases)
    case Nil
    then show ?thesis by (simp add: waiting_jobs_def list_deq_def pop_result)
  next
    case (snoc older i)
    then show ?thesis
      using waiting_okD [OF assms, of i] by (auto simp: waiting_jobs_def list_deq_def pop_result)
  qed
qed

lemma waiting_jobs_ack:
  assumes "waiting_ok queue q" and "acknowledgeable i (waiting_jobs queue q)"
  shows "waiting_ok queue (ack queue i q) \<and> waiting_jobs queue (ack queue i q) = waiting_jobs queue q"
proof -
  from assms have i: "i \<notin> set (waiting queue q)" by (simp add: acknowledgeable_def waiting_job_ids)
  have "waiting_ok queue (ack queue i q)"
    using waiting_okD [OF assms(1)] i by (intro waiting_okI) auto
  moreover have "waiting_jobs queue (ack queue i q) = waiting_jobs queue q"
    using i unfolding waiting_jobs_def by (auto intro!: map_cong)
  ultimately show ?thesis ..
qed

interpretation jobs_fifo:
  fifo_queue "waiting_jobs queue" "waiting_ok queue" "\<lambda>j q. snd (push_job j q)" "pop queue" "ack queue"
    "publishable queue" acknowledgeable for queue
  using waiting_jobs_push waiting_jobs_pop waiting_jobs_ack by unfold_locales

section \<open>Conservation of jobs\<close>

text \<open>The identifiers a queue holds, with multiplicity.\<close>

definition held :: "string \<Rightarrow> queue_impl \<Rightarrow> string multiset" where
  "held queue q =
     mset (waiting queue q) + mset (active queue q) + mset_set (zset_members (delayed queue q))"

lemma finite_zset_members: "zset_wf z \<Longrightarrow> finite (zset_members z)"
  by (auto simp: zset_members_def dest: zset_wfD(2))

lemma finite_delayed: "zsets_wf s \<Longrightarrow> finite (zset_members (zset_at k s))"
  by (intro finite_zset_members zset_at_wf)

lemma in_held:
  "zsets_wf (q_store q) \<Longrightarrow> i \<in># held queue q \<longleftrightarrow>
     i \<in> set (waiting queue q) \<or> i \<in> set (active queue q) \<or> i \<in> zset_members (delayed queue q)"
  by (simp add: held_def finite_delayed)

lemma held_push_job: "job_queue j = queue \<Longrightarrow> held queue (snd (push_job j q)) = add_mset (job_id j) (held queue q)"
  by (simp add: held_def)

lemma held_pop: "held queue (snd (pop queue q)) = held queue q"
proof (cases "waiting queue q" rule: rev_cases)
  case (snoc older i)
  then show ?thesis by (simp add: held_def)
qed (simp add: held_def)

lemma held_ack: "i \<in> set (active queue q) \<Longrightarrow> add_mset i (held queue (ack queue i q)) = held queue q"
  by (simp add: held_def)

subsection \<open>Delayed jobs\<close>

lemma zset_members_zadd:
  "zsets_wf s \<Longrightarrow> zset_members (zset_at k (zadd k score i s)) = insert i (zset_members (zset_at k s))"
  by (simp add: zset_members_add zset_at_wf)

lemma move_ready_views [simp]:
  "list_at k (move_ready queue i s) =
     (if k = waiting_key queue \<and> i \<in> zset_members (zset_at (delayed_key queue) s)
      then list_at k s @ [i] else list_at k s)"
  "zset_at k (move_ready queue i s) =
     (if k = delayed_key queue then zset_remove i (zset_at k s) else zset_at k s)"
  "get_job k (move_ready queue i s) = get_job k s"
proof -
  obtain r s' where z: "zrem (delayed_key queue) i s = (r, s')" by (cases "zrem (delayed_key queue) i s")
  have r: "r \<longleftrightarrow> i \<in> zset_members (zset_at (delayed_key queue) s)"
    using zrem_result [of "delayed_key queue" i s] z by simp
  have views: "list_at k s' = list_at k s" "get_job k s' = get_job k s"
    "zset_at k s' = (if k = delayed_key queue then zset_remove i (zset_at k s) else zset_at k s)" for k
    using zset_frames(3,4) [of k "delayed_key queue" i s] zset_at_zrem [of k "delayed_key queue" i s] z by simp_all
  show "list_at k (move_ready queue i s) =
     (if k = waiting_key queue \<and> i \<in> zset_members (zset_at (delayed_key queue) s)
      then list_at k s @ [i] else list_at k s)"
    "zset_at k (move_ready queue i s) =
     (if k = delayed_key queue then zset_remove i (zset_at k s) else zset_at k s)"
    "get_job k (move_ready queue i s) = get_job k s"
    by (auto simp: move_ready_def z r views)
qed

lemma zsets_wf_move_ready: "zsets_wf s \<Longrightarrow> zsets_wf (move_ready queue i s)"
  using zsets_wf_zrem [of s "delayed_key queue" i]
  by (cases "zrem (delayed_key queue) i s") (simp add: move_ready_def)

lemma fold_move_ready_frame:
  "zsets_wf s \<Longrightarrow> zsets_wf (fold (move_ready queue) is' s) \<and>
     get_job k (fold (move_ready queue) is' s) = get_job k s"
  by (induction is' arbitrary: s) (simp_all add: zsets_wf_move_ready)

lemma mset_set_moved:
  "finite A \<Longrightarrow> i \<in> A \<Longrightarrow> add_mset i (mset_set (A - {i})) = mset_set A"
  using mset_set.remove [of A i] by simp

lemma held_move_ready:
  assumes "zsets_wf (q_store q)"
  shows "held queue (with_store (move_ready queue i) q) = held queue q"
proof (cases "i \<in> zset_members (delayed queue q)")
  case True
  then show ?thesis
    using mset_set_moved [OF finite_delayed [OF assms] True]
    by (simp add: held_def zset_members_remove)
qed (simp add: held_def zset_members_remove)

lemma with_store_comp: "with_store f (with_store g q) = with_store (f \<circ> g) q"
  by (simp add: with_store_def)

lemma held_fold_move_ready:
  "zsets_wf (q_store q) \<Longrightarrow> held queue (with_store (fold (move_ready queue) ready) q) = held queue q"
proof (induction ready arbitrary: q)
  case Nil
  then show ?case by (simp add: with_store_def held_def)
next
  case (Cons i ready)
  have "held queue (with_store (fold (move_ready queue) ready) (with_store (move_ready queue i) q)) =
      held queue (with_store (move_ready queue i) q)"
    using Cons.prems by (intro Cons.IH) (simp add: zsets_wf_move_ready)
  then show ?case
    using held_move_ready [OF Cons.prems] by (simp add: with_store_comp comp_def)
qed

lemma held_move_delayed:
  "zsets_wf (q_store q) \<Longrightarrow> held queue (move_delayed_to_waiting ord now queue q) = held queue q"
  using held_fold_move_ready [of q queue]
  by (simp add: move_delayed_to_waiting_def Let_def held_def)

lemma move_delayed_frame:
  "zsets_wf (q_store q) \<Longrightarrow> zsets_wf (q_store (move_delayed_to_waiting ord now queue q)) \<and>
     job_at k i (move_delayed_to_waiting ord now queue q) = job_at k i q"
  by (simp add: move_delayed_to_waiting_def Let_def job_at_def fold_move_ready_frame)

lemma dlq_fold_move_ready: "list_at (dlq_key k) (fold (move_ready queue) ready s) = list_at (dlq_key k) s"
  by (induction ready arbitrary: s) simp_all

lemma move_delayed_dlq [simp]: "dlq k (move_delayed_to_waiting ord now queue q) = dlq k q"
  by (simp add: move_delayed_to_waiting_def Let_def dlq_fold_move_ready)

subsection \<open>Failed jobs\<close>

lemma move_to_dlq_views [simp]:
  "waiting k (move_to_dlq to_text now queue j error q) = waiting k q"
  "active queue (move_to_dlq to_text now queue j error q) = remove1 (job_id j) (active queue q)"
  "delayed k (move_to_dlq to_text now queue j error q) = delayed k q"
  "dlq queue (move_to_dlq to_text now queue j error q) = to_text (failed_data j error now) # dlq queue q"
  "job_at queue i (move_to_dlq to_text now queue j error q) =
     (if i = job_id j then None else job_at queue i q)"
  "zsets_wf (q_store (move_to_dlq to_text now queue j error q)) = zsets_wf (q_store q)"
  by (simp_all add: move_to_dlq_def Let_def lrem_list_one job_at_def)

lemma schedule_retry_views:
  "list_at (waiting_key k) (schedule_retry now queue i j s) = list_at (waiting_key k) s"
  "list_at (active_key queue) (schedule_retry now queue i j s) = remove1 i (list_at (active_key queue) s)"
  "list_at (dlq_key k) (schedule_retry now queue i j s) = list_at (dlq_key k) s"
  "zset_at (delayed_key queue) (schedule_retry now queue i j s) =
     zset_add (sint (now + calculate_backoff j)) i (zset_at (delayed_key queue) s)"
  "get_job (job_key queue k) (schedule_retry now queue i j s) =
     (if k = i then Some (job_to_value (j\<lparr>process_at := Some (now + calculate_backoff j)\<rparr>))
      else get_job (job_key queue k) s)"
  "zsets_wf s \<Longrightarrow> zsets_wf (schedule_retry now queue i j s)"
  by (simp_all add: schedule_retry_def Let_def lrem_list_one zsets_wf_zadd)

lemma job_at_retry [simp]:
  "job_at queue k (with_store (schedule_retry now queue i j) q) =
     (if k = i then Some (j\<lparr>process_at := Some (now + calculate_backoff j)\<rparr>) else job_at queue k q)"
  by (simp add: job_at_def schedule_retry_views job_round_trip)

lemma nack_found:
  assumes "job_at queue i q = Some j"
  shows "nack to_text now queue i error q =
    (let k = increment_attempts (apply_subscription_overrides q j)
     in (Ok (), if is_exhausted k then move_to_dlq to_text now queue k error q
                else with_store (schedule_retry now queue i k) q))"
  using assms by (auto simp: nack_def job_at_def Let_def split: option.splits bind_splits)

end
