(* ===== verification/Queue_Steps.thy ===== *)
theory Queue_Steps
  imports Queue_Laws
begin

text \<open>
  The life of a job in the built-in queue as a step relation: publishing, taking, acknowledging
  and refusing jobs, and moving delayed jobs, in any order.  A step is labelled with what
  happens to the jobs; the invariant says where every identifier is, and the conservation
  theorem accounts for every job that was published.
\<close>

section \<open>Steps\<close>

datatype queue_event = Published string | Moved | Acknowledged string | DeadLettered string

text \<open>What refusing a job does to it.\<close>

definition nack_event :: "string \<Rightarrow> string \<Rightarrow> queue_impl \<Rightarrow> queue_event" where
  "nack_event queue i q =
     (case job_at queue i q of
        Some j \<Rightarrow> if is_exhausted (increment_attempts (apply_subscription_overrides q j))
                 then DeadLettered i else Moved
      | None \<Rightarrow> Moved)"

inductive queue_step ::
    "(string set \<Rightarrow> string list) \<Rightarrow> (json \<Rightarrow> string) \<Rightarrow> string \<Rightarrow> queue_impl \<Rightarrow> queue_event \<Rightarrow> queue_impl \<Rightarrow> bool"
  for ord :: "string set \<Rightarrow> string list" and to_text :: "json \<Rightarrow> string" and queue :: string where
  step_push_job: "job_queue j = queue \<Longrightarrow> job_id j \<notin># held queue q \<Longrightarrow>
    queue_step ord to_text queue q (Published (job_id j)) (snd (push_job j q))"
| step_push: "uuid \<notin># held queue q \<Longrightarrow>
    queue_step ord to_text queue q (Published uuid) (snd (push uuid now queue data trace bag q))"
| step_push_fifo: "uuid \<notin># held queue q \<Longrightarrow>
    queue_step ord to_text queue q (Published uuid) (snd (push_fifo uuid now queue data grp trace bag q))"
| step_push_delayed: "uuid \<notin># held queue q \<Longrightarrow>
    queue_step ord to_text queue q (Published uuid)
      (snd (push_delayed uuid made now queue data delay trace bag q))"
| step_pop: "queue_step ord to_text queue q Moved (snd (pop queue q))"
| step_ack: "i \<in> set (active queue q) \<Longrightarrow> queue_step ord to_text queue q (Acknowledged i) (ack queue i q)"
| step_nack: "i \<in> set (active queue q) \<Longrightarrow>
    queue_step ord to_text queue q (nack_event queue i q) (snd (nack to_text now queue i error q))"
| step_move: "queue_step ord to_text queue q Moved (move_delayed_to_waiting ord now queue q)"
| step_subscribe: "queue_step ord to_text queue q Moved (snd (subscribe handle k config q))"
| step_unsubscribe: "queue_step ord to_text queue q Moved (unsubscribe handle q)"

inductive queue_run ::
    "(string set \<Rightarrow> string list) \<Rightarrow> (json \<Rightarrow> string) \<Rightarrow> string \<Rightarrow> queue_impl \<Rightarrow> queue_event list \<Rightarrow> queue_impl \<Rightarrow> bool"
  for ord :: "string set \<Rightarrow> string list" and to_text :: "json \<Rightarrow> string" and queue :: string where
  run_start: "queue_run ord to_text queue q [] q"
| run_step: "queue_run ord to_text queue q es q' \<Longrightarrow> queue_step ord to_text queue q' e q'' \<Longrightarrow>
    queue_run ord to_text queue q (e # es) q''"

fun published :: "queue_event \<Rightarrow> string multiset" where
  "published (Published i) = {#i#}"
| "published _ = {#}"

fun acknowledged :: "queue_event \<Rightarrow> string multiset" where
  "acknowledged (Acknowledged i) = {#i#}"
| "acknowledged _ = {#}"

fun dead_lettered :: "queue_event \<Rightarrow> string multiset" where
  "dead_lettered (DeadLettered i) = {#i#}"
| "dead_lettered _ = {#}"

definition ids :: "(queue_event \<Rightarrow> string multiset) \<Rightarrow> queue_event list \<Rightarrow> string multiset" where
  "ids f es = sum_list (map f es)"

section \<open>The invariant\<close>

text \<open>Every identifier is in one place only and has a record that can be read.\<close>

definition placed :: "string \<Rightarrow> queue_impl \<Rightarrow> bool" where
  "placed queue q \<longleftrightarrow> zsets_wf (q_store q) \<and>
     (\<forall>i. count (held queue q) i \<le> 1) \<and>
     (\<forall>i. i \<in># held queue q \<longrightarrow> (\<exists>j. job_at queue i q = Some j \<and> job_id j = i))"

lemma placedI:
  "zsets_wf (q_store q) \<Longrightarrow> (\<And>i. count (held queue q) i \<le> 1) \<Longrightarrow>
   (\<And>i. i \<in># held queue q \<Longrightarrow> \<exists>j. job_at queue i q = Some j \<and> job_id j = i) \<Longrightarrow> placed queue q"
  by (simp add: placed_def)

lemma placedD:
  assumes "placed queue q"
  shows "zsets_wf (q_store q)" and "count (held queue q) i \<le> 1"
    and "i \<in># held queue q \<Longrightarrow> \<exists>j. job_at queue i q = Some j \<and> job_id j = i"
  using assms by (simp_all add: placed_def)

lemma placed_same:
  assumes "placed queue q" and "held queue q' = held queue q" and "zsets_wf (q_store q')"
    and "\<And>i. i \<in># held queue q \<Longrightarrow> job_at queue i q' = job_at queue i q"
  shows "placed queue q'"
  using placedD [OF assms(1)] assms(2-4) by (auto intro: placedI)

lemma placed_add:
  assumes "placed queue q" and "held queue q' = add_mset (job_id j) (held queue q)" and "zsets_wf (q_store q')"
    and "job_id j \<notin># held queue q"
    and "\<And>i. job_at queue i q' = (if i = job_id j then Some j else job_at queue i q)"
  shows "placed queue q'"
  using placedD [OF assms(1)] assms(2-5) by (auto intro!: placedI simp: not_in_iff)

lemma placed_remove:
  assumes "placed queue q" and "add_mset i (held queue q') = held queue q" and "zsets_wf (q_store q')"
    and "\<And>k. k \<noteq> i \<Longrightarrow> job_at queue k q' = job_at queue k q"
  shows "placed queue q'"
proof (rule placedI)
  have eq: "count (held queue q) k = count (held queue q') k + (if k = i then 1 else 0)" for k
    by (simp flip: assms(2))
  show "count (held queue q') k \<le> 1" for k
    using placedD(2) [OF assms(1), of k] eq [of k] by linarith
  show "\<exists>j. job_at queue k q' = Some j \<and> job_id j = k" if "k \<in># held queue q'" for k
  proof -
    have "k \<noteq> i" using that placedD(2) [OF assms(1), of i] eq [of i] by (auto simp: count_eq_zero_iff)
    moreover have "k \<in># held queue q" using that by (simp flip: assms(2))
    ultimately show ?thesis using placedD(3) [OF assms(1)] assms(4) by simp
  qed
qed fact

section \<open>What every step does\<close>

text \<open>The places a step changes, the dead-letter list and the invariant, in one statement.\<close>

definition accounts :: "string \<Rightarrow> queue_impl \<Rightarrow> queue_event \<Rightarrow> queue_impl \<Rightarrow> bool" where
  "accounts queue q e q' \<longleftrightarrow>
     placed queue q' \<and>
     published e + held queue q = held queue q' + acknowledged e + dead_lettered e \<and>
     length (dlq queue q') = length (dlq queue q) + size (dead_lettered e)"

lemma accounts_push_job:
  assumes "placed queue q" and "job_queue j = queue" and "job_id j \<notin># held queue q"
  shows "accounts queue q (Published (job_id j)) (snd (push_job j q))"
proof -
  have "placed queue (snd (push_job j q))"
    using placed_add [OF assms(1) held_push_job [OF assms(2)] _ assms(3)] placedD(1) [OF assms(1)] assms(2)
    by auto
  then show ?thesis using assms(2) by (simp add: accounts_def held_push_job)
qed

lemma push_is_push_job:
  "snd (push uuid now queue data trace bag q) =
     snd (push_job (job_new uuid now queue data (cfg_max_attempts (q_config q))
       (cfg_backoff_ms (q_config q)) trace bag) q)"
  by (simp add: push_def push_job_def Let_def job_new_def new_with_group_def)

lemma push_fifo_stores:
  "q_store (snd (push_fifo uuid now queue data grp trace bag q)) =
     q_store (snd (push_job (new_with_group uuid now queue data (cfg_max_attempts (q_config q))
       (cfg_backoff_ms (q_config q)) (Some grp) trace bag) q))"
  by (simp add: push_fifo_def push_job_def Let_def new_with_group_def)

lemma accounts_cong:
  assumes "q_store q2 = q_store q1"
  shows "accounts queue q e q2 \<longleftrightarrow> accounts queue q e q1"
  using assms by (simp add: accounts_def placed_def held_def job_at_def)

lemma accounts_push_fifo:
  assumes "placed queue q" and "uuid \<notin># held queue q"
  shows "accounts queue q (Published uuid) (snd (push_fifo uuid now queue data grp trace bag q))"
  unfolding accounts_cong [OF push_fifo_stores]
  using accounts_push_job [OF assms(1), of "new_with_group uuid now queue data (cfg_max_attempts (q_config q))
    (cfg_backoff_ms (q_config q)) (Some grp) trace bag"] assms(2)
  by (simp add: new_with_group_def)

lemma accounts_push:
  assumes "placed queue q" and "uuid \<notin># held queue q"
  shows "accounts queue q (Published uuid) (snd (push uuid now queue data trace bag q))"
  unfolding push_is_push_job
  using accounts_push_job [OF assms(1), of "job_new uuid now queue data (cfg_max_attempts (q_config q))
    (cfg_backoff_ms (q_config q)) trace bag"] assms(2)
  by (simp add: job_new_def new_with_group_def)

lemma mset_set_added: "finite A \<Longrightarrow> i \<notin> A \<Longrightarrow> mset_set (insert i A) = add_mset i (mset_set A)"
  by (rule mset_set.insert)

lemma accounts_push_delayed:
  assumes "placed queue q" and "uuid \<notin># held queue q"
  shows "accounts queue q (Published uuid) (snd (push_delayed uuid made now queue data delay trace bag q))"
proof -
  let ?q = "snd (push_delayed uuid made now queue data delay trace bag q)"
  define j where "j = (job_new uuid made queue data (cfg_max_attempts (q_config q))
    (cfg_backoff_ms (q_config q)) trace bag)\<lparr>process_at := Some (now + delay)\<rparr>"
  note wf = placedD(1) [OF assms(1)]
  have id: "job_id j = uuid" by (simp add: j_def job_new_def new_with_group_def)
  have store: "q_store ?q = zadd (delayed_key queue) (now + delay) uuid
      (set_job (job_key queue uuid) (job_to_value j) (q_store q))"
    by (simp add: push_delayed_def Let_def j_def job_new_def new_with_group_def)
  have notin: "uuid \<notin> zset_members (delayed queue q)" using assms(2) by (simp add: in_held [OF wf])
  have held: "held queue ?q = add_mset uuid (held queue q)"
    using notin by (simp add: held_def store zset_members_add zset_at_wf [OF wf] mset_set_added
        finite_delayed [OF wf])
  have "placed queue ?q"
    by (rule placed_add [OF assms(1), where j = j])
      (simp_all add: id held assms(2) store zsets_wf_zadd wf job_at_def job_round_trip)
  then show ?thesis by (simp add: accounts_def held store)
qed

lemma accounts_pop: "placed queue q \<Longrightarrow> accounts queue q Moved (snd (pop queue q))"
  using placed_same [of queue q "snd (pop queue q)"] placedD(1) [of queue q]
  by (simp add: accounts_def held_pop)

lemma accounts_ack:
  assumes "placed queue q" and "i \<in> set (active queue q)"
  shows "accounts queue q (Acknowledged i) (ack queue i q)"
  using placed_remove [OF assms(1) held_ack [OF assms(2)]] placedD(1) [OF assms(1)] held_ack [OF assms(2)]
  by (simp add: accounts_def)

lemma accounts_move:
  "placed queue q \<Longrightarrow> accounts queue q Moved (move_delayed_to_waiting ord now queue q)"
  using placed_same [of queue q] placedD(1) [of queue q] held_move_delayed [of q queue]
    move_delayed_frame [of q]
  by (simp add: accounts_def)

subsection \<open>Refusing\<close>

lemma active_not_delayed:
  assumes "placed queue q" and "i \<in> set (active queue q)"
  shows "i \<notin> zset_members (delayed queue q)"
proof
  assume "i \<in> zset_members (delayed queue q)"
  then have "count (mset_set (zset_members (delayed queue q))) i = 1"
    using finite_delayed [OF placedD(1) [OF assms(1)]] by simp
  moreover have "1 \<le> count (mset (active queue q)) i"
    using assms(2) by (simp add: Suc_le_eq del: count_mset)
  ultimately have "2 \<le> count (held queue q) i" unfolding held_def count_union by linarith
  with placedD(2) [OF assms(1), of i] show False by simp
qed

lemma held_retry:
  assumes "placed queue q" and "i \<in> set (active queue q)"
  shows "held queue (with_store (schedule_retry now queue i j) q) = held queue q"
  using active_not_delayed [OF assms] assms(2) placedD(1) [OF assms(1)]
  by (simp add: held_def schedule_retry_views zset_members_add zset_at_wf mset_set_added finite_delayed)

lemma accounts_retry:
  assumes "placed queue q" and "i \<in> set (active queue q)" and "job_id j = i"
  shows "accounts queue q Moved (with_store (schedule_retry now queue i j) q)"
proof -
  let ?q = "with_store (schedule_retry now queue i j) q"
  note wf = placedD(1) [OF assms(1)]
  have "placed queue ?q"
  proof (rule placedI)
    show "zsets_wf (q_store ?q)" using wf by (simp add: schedule_retry_views)
    show "count (held queue ?q) k \<le> 1" for k
      using placedD(2) [OF assms(1)] by (simp add: held_retry [OF assms(1,2)])
    show "\<exists>j. job_at queue k ?q = Some j \<and> job_id j = k" if "k \<in># held queue ?q" for k
      using that placedD(3) [OF assms(1), of k] assms(3)
      by (simp add: held_retry [OF assms(1,2)])
  qed
  then show ?thesis by (simp add: accounts_def held_retry [OF assms(1,2)] schedule_retry_views)
qed

lemma accounts_dead:
  assumes "placed queue q" and "i \<in> set (active queue q)" and "job_id j = i"
  shows "accounts queue q (DeadLettered i) (move_to_dlq to_text now queue j error q)"
proof -
  let ?q = "move_to_dlq to_text now queue j error q"
  have held: "add_mset i (held queue ?q) = held queue q"
    using assms(2,3) by (simp add: held_def)
  have "placed queue ?q"
    using placedD(1) [OF assms(1)] assms(3) by (intro placed_remove [OF assms(1) held]) simp_all
  then show ?thesis using held by (simp add: accounts_def)
qed

lemma accounts_nack:
  assumes "placed queue q" and "i \<in> set (active queue q)"
  shows "accounts queue q (nack_event queue i q) (snd (nack to_text now queue i error q))"
proof -
  have "i \<in># held queue q" using assms(2) by (simp add: in_held [OF placedD(1) [OF assms(1)]])
  then obtain j where j: "job_at queue i q = Some j" "job_id j = i" using placedD(3) [OF assms(1)] by blast
  then show ?thesis
    using accounts_retry [OF assms] accounts_dead [OF assms]
    by (simp add: nack_found [OF j(1)] nack_event_def Let_def)
qed

lemma subscribe_store: "q_store (snd (subscribe handle k config q)) = q_store q"
  by (simp add: subscribe_def Let_def split: option.split)

lemma accounts_refl: "placed queue q \<Longrightarrow> q_store q' = q_store q \<Longrightarrow> accounts queue q Moved q'"
  using accounts_cong [of q' q queue q Moved] by (simp add: accounts_def)

lemma step_accounts: "queue_step ord to_text queue q e q' \<Longrightarrow> placed queue q \<Longrightarrow> accounts queue q e q'"
proof (induction rule: queue_step.induct)
  case (step_subscribe q handle k config)
  then show ?case by (simp add: accounts_refl subscribe_store)
next
  case (step_unsubscribe q handle)
  then show ?case by (simp add: accounts_refl unsubscribe_def)
qed (simp_all add: accounts_push_job accounts_push accounts_push_fifo accounts_push_delayed
    accounts_pop accounts_ack accounts_nack accounts_move)

lemma ids_Cons [simp]: "ids f (e # es) = f e + ids f es"
  by (simp add: ids_def)

lemma ids_Nil [simp]: "ids f [] = {#}"
  by (simp add: ids_def)

lemma run_accounts:
  assumes "queue_run ord to_text queue q es q'" and "placed queue q"
  shows "placed queue q' \<and>
    ids published es + held queue q = held queue q' + ids acknowledged es + ids dead_lettered es \<and>
    length (dlq queue q') = length (dlq queue q) + size (ids dead_lettered es)"
  using assms
proof (induction rule: queue_run.induct)
  case (run_step q es q' e q'')
  then have IH: "placed queue q'"
    "ids published es + held queue q = held queue q' + ids acknowledged es + ids dead_lettered es"
    "length (dlq queue q') = length (dlq queue q) + size (ids dead_lettered es)" by auto
  have step: "placed queue q''"
    "published e + held queue q' = held queue q'' + acknowledged e + dead_lettered e"
    "length (dlq queue q'') = length (dlq queue q') + size (dead_lettered e)"
    using step_accounts [OF run_step.hyps(2) IH(1)] by (simp_all add: accounts_def)
  have "ids published (e # es) + held queue q =
      published e + held queue q' + ids acknowledged es + ids dead_lettered es"
    using IH(2) by (simp add: ac_simps)
  also have "\<dots> = held queue q'' + ids acknowledged (e # es) + ids dead_lettered (e # es)"
    using step(2) by (simp add: ac_simps)
  finally show ?case using step(1,3) IH(3) by simp
qed simp

section \<open>Properties\<close>


definition empty_queue :: queue_impl where
  "empty_queue = queue_new (qkv_new empty_kv None Map.empty Map.empty) default_queue_config"

lemma empty_queue_views [simp]:
  "list_at k (q_store empty_queue) = []" "zset_at k (q_store empty_queue) = []"
  "zsets_wf (q_store empty_queue)" "get_job k (q_store empty_queue) = None"
  "q_config empty_queue = default_queue_config" "q_subs empty_queue k2 = None"
  by (simp_all add: empty_queue_def queue_new_def qkv_new_def list_at_def zset_at_def zsets_wf_def
      get_job_def kv_get_def empty_kv_def)

lemma empty_queue_held [simp]: "held queue empty_queue = {#}"
  by (simp add: held_def zset_members_def)

lemma empty_queue_placed: "placed queue empty_queue"
  by (simp add: placed_def)

text \<open>A run of three steps: publish, take, acknowledge.\<close>

definition sample_queue :: queue_impl where
  "sample_queue = snd (push ''i'' 5 ''q'' Null None None empty_queue)"

lemma sample_waiting: "waiting ''q'' sample_queue = [''i'']"
  unfolding sample_queue_def push_is_push_job by (simp add: job_new_def new_with_group_def)

lemma sample_published: "queue_run ord to_text ''q'' empty_queue [Published ''i''] sample_queue"
  unfolding sample_queue_def by (rule run_step [OF run_start step_push]) simp

lemma sample_held: "held ''q'' sample_queue = {#''i''#}" and sample_placed: "placed ''q'' sample_queue"
  using run_accounts [OF sample_published [where ord = "\<lambda>S. []" and to_text = "\<lambda>v. []"] empty_queue_placed]
  by simp_all



text \<open>C6: every job has one place and one record.  In every state that a run of the queue can
  reach, the waiting list and the active list have no identifier twice and share none, none
  of theirs is in the delayed set, and every identifier in one of the three has a record that
  can be read and that names it; so a job is never handed out while it is waiting or delayed,
  and no retry is scheduled twice.\<close>

theorem every_job_has_one_place:
  assumes "queue_run ord to_text queue q es q'" and "placed queue q"
  shows "distinct (waiting queue q' @ active queue q') \<and>
    set (waiting queue q' @ active queue q') \<inter> zset_members (delayed queue q') = {} \<and>
    (\<forall>i \<in> set (waiting queue q') \<union> set (active queue q') \<union> zset_members (delayed queue q').
       \<exists>j. job_at queue i q' = Some j \<and> job_id j = i)"
proof -
  have p: "placed queue q'" using run_accounts [OF assms] by simp
  note wf = placedD(1) [OF p]
  have le: "count (mset (waiting queue q' @ active queue q')) i +
      count (mset_set (zset_members (delayed queue q'))) i \<le> 1" for i
    using placedD(2) [OF p, of i] by (simp add: held_def)
  have "count (mset (waiting queue q' @ active queue q')) i \<le> 1" for i
    using le [of i] by linarith
  then have "distinct (waiting queue q' @ active queue q')"
    by (metis count_mset distinct_count_atmost_1 count_mset_0_iff nat_less_le less_one not_less)
  moreover have "i \<notin> zset_members (delayed queue q')" if "i \<in> set (waiting queue q' @ active queue q')" for i
  proof
    assume "i \<in> zset_members (delayed queue q')"
    then have "count (mset_set (zset_members (delayed queue q'))) i = 1"
      using finite_delayed [OF wf] by simp
    with le [of i] have "count (mset (waiting queue q' @ active queue q')) i = 0" by linarith
    with that show False by (metis count_mset_0_iff)
  qed
  moreover have "\<exists>j. job_at queue i q' = Some j \<and> job_id j = i"
    if "i \<in> set (waiting queue q') \<union> set (active queue q') \<union> zset_members (delayed queue q')" for i
    using that placedD(3) [OF p, of i] by (auto simp: in_held [OF wf])
  ultimately show ?thesis by blast
qed

theorem every_job_has_one_place_witness:
  "\<exists>j. job_at ''q'' ''i'' sample_queue = Some j \<and> job_id j = ''i''"
  using every_job_has_one_place [OF sample_published empty_queue_placed] by (simp add: sample_waiting)

text \<open>C7: the waiting list is a first-in first-out queue of jobs.  Publishing jobs with fresh
  identifiers, taking jobs and acknowledging jobs that are no longer waiting, in any order,
  gives the answers of a plain list that is extended at its end and read at its front: every
  job comes out unchanged, once, and in the order of publication.\<close>

theorem queue_refines_fifo:
  assumes "waiting_ok queue q" and "fifo_ok (publishable queue) acknowledgeable ops (waiting_jobs queue q)"
  shows "let (answers, q') = fifo_run (\<lambda>j q. snd (push_job j q)) (pop queue) (ack queue) ops q
    in (answers, waiting_jobs queue q') = list_run ops (waiting_jobs queue q)"
  using jobs_fifo.run_refines_list [OF assms] by (simp add: split_def Let_def)

theorem queue_refines_fifo_witness:
  "let j = sample_job; k = sample_job\<lparr>job_id := ''k''\<rparr>
   in fst (fifo_run (\<lambda>j q. snd (push_job j q)) (pop ''q'') (ack ''q'')
        [Enq j, Enq k, Deq, Other (job_id j), Deq, Deq] empty_queue) = [Some j, Some k, None]"
proof -
  let ?ops = "[Enq sample_job, Enq (sample_job\<lparr>job_id := ''k''\<rparr>), Deq, Other (job_id sample_job), Deq, Deq]"
  have "waiting_ok ''q'' empty_queue" by (simp add: waiting_ok_def)
  moreover have "fifo_ok (publishable ''q'') acknowledgeable ?ops (waiting_jobs ''q'' empty_queue)"
    by (simp add: waiting_jobs_def publishable_def acknowledgeable_def sample_job_def job_new_def
        new_with_group_def)
  ultimately show ?thesis
    using queue_refines_fifo [of "''q''" empty_queue ?ops]
    by (simp add: waiting_jobs_def list_deq_def split_def Let_def)
qed

text \<open>C19: refusing an active job uses up one attempt.  With the subscription's limits applied, a
  job that has attempts left leaves the active list for the delayed set, due after its
  back-off, with the attempt counted in its record; a job that has none left leaves it for the
  dead-letter queue with its last error and loses its record; no other list changes.\<close>

theorem nack_retries_or_buries:
  assumes "job_at queue i q = Some j" and "job_id j = i" and "zsets_wf (q_store q)"
  shows "let k = increment_attempts (apply_subscription_overrides q j);
             (r, q') = nack to_text now queue i error q;
             due = now + calculate_backoff k
    in r = Ok () \<and> active queue q' = remove1 i (active queue q) \<and> waiting queue q' = waiting queue q \<and>
       (if is_exhausted k
        then dlq queue q' = to_text (failed_data k error now) # dlq queue q \<and>
             job_at queue i q' = None \<and> delayed queue q' = delayed queue q
        else dlq queue q' = dlq queue q \<and> job_at queue i q' = Some (k\<lparr>process_at := Some due\<rparr>) \<and>
             (\<forall>s x. zset_has (delayed queue q') s x \<longleftrightarrow>
                (if x = i then s = sint due else zset_has (delayed queue q) s x)))"
  using assms(2)
  by (simp add: nack_found [OF assms(1)] Let_def schedule_retry_views
      zset_has_add zset_at_wf [OF assms(3)])

theorem nack_retries_or_buries_witness:
  "job_at ''q'' ''id'' (snd (nack (\<lambda>v. []) 100 ''q'' ''id'' ''e'' (snd (push_job sample_job empty_queue)))) =
     Some (sample_job\<lparr>attempts_made := 2, process_at := Some 2100\<rparr>)"
proof -
  let ?q = "snd (push_job sample_job empty_queue)"
  have j: "job_at ''q'' ''id'' ?q = Some sample_job" "job_id sample_job = ''id''" "zsets_wf (q_store ?q)"
    using push_job_views(5) [of sample_job "''id''" empty_queue]
    by (simp_all add: sample_job_def job_new_def new_with_group_def)
  have "increment_attempts (apply_subscription_overrides ?q sample_job) = sample_job\<lparr>attempts_made := 2\<rparr>"
    by (simp add: apply_subscription_overrides_def push_job_def increment_attempts_def sample_job_def)
  moreover have "\<not> is_exhausted (sample_job\<lparr>attempts_made := 2\<rparr>)"
    "calculate_backoff (sample_job\<lparr>attempts_made := 2\<rparr>) = 2000"
    by (simp_all add: is_exhausted_def calculate_backoff_def sample_job_def job_new_def new_with_group_def
        saturating_sub32_def saturating_pow_def saturating_mul_def)
  ultimately show ?thesis
    using nack_retries_or_buries [OF j, of "\<lambda>v. []" 100 "''e''"] by (simp add: Let_def split_def)
qed

text \<open>a due time that does not fit a signed 64-bit number is never reached.  When the clock
  plus the delay is at least \<open>2 ^ 63\<close> the job is filed under a negative score, and since the
  poll only asks for scores from zero on, moving the delayed jobs leaves it in the delayed set
  whatever the clock says.\<close>

theorem far_delays_are_stranded:
  assumes "enumerates ord" and "zsets_wf (q_store q)" and "2 ^ 63 \<le> unat (now + delay)"
  shows "let q' = snd (push_delayed uuid made now queue data delay trace bag q)
    in uuid \<in> zset_members (delayed queue (move_delayed_to_waiting ord later queue q'))"
proof -
  define q' where "q' = snd (push_delayed uuid made now queue data delay trace bag q)"
  have q': "delayed queue q' = zset_add (sint (now + delay)) uuid (delayed queue q)" "zsets_wf (q_store q')"
    by (simp_all add: q'_def push_delayed_def Let_def job_new_def new_with_group_def zsets_wf_zadd assms(2))
  have neg: "sint (now + delay) < 0"
    using assms(3) unat_less_63 [of "now + delay"] uint_of_nonneg [of "now + delay"]
      sint_i64_range [of "now + delay"] by linarith
  have uuid: "zset_has (delayed queue q') s uuid \<longleftrightarrow> s = sint (now + delay)" for s
    by (simp add: q'(1) zset_has_add zset_at_wf [OF assms(2)])
  have "uuid \<notin> set (zrangebyscore ord (delayed_key queue) 0 later (q_store q'))"
    using neg by (simp add: set_zrangebyscore [OF assms(1) zset_at_wf [OF q'(2)]] uuid)
  moreover have "uuid \<in> zset_members (zset_at (delayed_key queue) (fold (move_ready queue) ready s))"
    if "uuid \<in> zset_members (zset_at (delayed_key queue) s)" "uuid \<notin> set ready" for ready s
    using that by (induction ready arbitrary: s) (simp_all add: zset_members_remove)
  moreover have "uuid \<in> zset_members (delayed queue q')" using uuid by (auto simp: zset_members_has)
  ultimately show ?thesis by (simp add: q'_def [symmetric] move_delayed_to_waiting_def Let_def)
qed

lemma enumerates_sorted: "enumerates sorted_list_of_set"
  by (simp add: enumerates_def)

theorem far_delays_are_stranded_witness:
  "''i'' \<in> zset_members (delayed ''q'' (move_delayed_to_waiting sorted_list_of_set 7 ''q''
     (snd (push_delayed ''i'' 5 5 ''q'' Null (2 ^ 63) None None empty_queue))))"
  using far_delays_are_stranded [OF enumerates_sorted, of empty_queue 5 "2 ^ 63" "''i''" 5 "''q''" Null None None 7]
  by (simp add: Let_def)

subsection \<open>The order of due jobs\<close>

lemma sorted_concat_scores:
  "sorted (map fst z) \<Longrightarrow> (\<And>s ms x. (s, ms) \<in> set z \<Longrightarrow> x \<in> set (ord ms) \<Longrightarrow> f x = s) \<Longrightarrow>
     sorted (map f (concat (map (\<lambda>(s, ms). ord ms) z)))"
proof (induction z)
  case (Cons e z)
  obtain s ms where e: "e = (s, ms)" by (cases e)
  have "map f (ord ms) = map (\<lambda>x. s) (ord ms)"
    using Cons.prems(2) [of s ms] by (intro map_cong) (simp_all add: e)
  then have "sorted (map f (ord ms))" "f ` set (ord ms) \<subseteq> {s}"
    by (simp_all add: map_replicate_const) (metis image_set set_replicate_conv_if subset_singleton_iff)
  moreover have "\<forall>y \<in> set (concat (map (\<lambda>(s, ms). ord ms) z)). s \<le> f y"
    using Cons.prems by (fastforce simp: e)
  moreover have "sorted (map f (concat (map (\<lambda>(s, ms). ord ms) z)))"
    using Cons.prems by (intro Cons.IH) auto
  ultimately show ?case by (auto simp: e sorted_append)
qed simp

lemma fold_move_ready_moves:
  assumes "distinct ready" and "set ready \<subseteq> zset_members (zset_at (delayed_key queue) s)"
  shows "list_at (waiting_key queue) (fold (move_ready queue) ready s) = list_at (waiting_key queue) s @ ready \<and>
    (\<forall>score x. zset_has (zset_at (delayed_key queue) (fold (move_ready queue) ready s)) score x \<longleftrightarrow>
       zset_has (zset_at (delayed_key queue) s) score x \<and> x \<notin> set ready)"
  using assms
proof (induction ready arbitrary: s)
  case (Cons i ready)
  have "set ready \<subseteq> zset_members (zset_at (delayed_key queue) (move_ready queue i s))"
    using Cons.prems by (auto simp: zset_members_remove)
  from Cons.IH [OF _ this] Cons.prems show ?case by (auto simp: zset_has_remove)
qed simp

text \<open>C20: exactly the jobs that are due leave the delayed set, and they are next in line.  Every
  poll moves the jobs whose score lies between zero and the clock, and no other, to the end of
  the waiting list from which jobs are taken, in ascending order of their due times; so the one
  that fell due last is the first to be taken, and the one due first is behind it.\<close>

theorem due_jobs_go_next:
  assumes "enumerates ord" and "zsets_wf (q_store q)"
  shows "let q' = move_delayed_to_waiting ord now queue q
    in \<exists>ready. waiting queue q' = waiting queue q @ ready \<and> distinct ready \<and>
       (\<forall>x. x \<in> set ready \<longleftrightarrow> (\<exists>s. 0 \<le> s \<and> s \<le> sint now \<and> zset_has (delayed queue q) s x)) \<and>
       (\<forall>s x. zset_has (delayed queue q') s x \<longleftrightarrow>
          zset_has (delayed queue q) s x \<and> \<not> (0 \<le> s \<and> s \<le> sint now)) \<and>
       sorted_wrt (\<lambda>x y. \<forall>s t. zset_has (delayed queue q) s x \<and> zset_has (delayed queue q) t y \<longrightarrow> s \<le> t) ready"
proof -
  let ?z = "delayed queue q"
  let ?ready = "zrangebyscore ord (delayed_key queue) 0 now (q_store q)"
  note wf = zset_at_wf [OF assms(2), of "delayed_key queue"]
  have mem: "x \<in> set ?ready \<longleftrightarrow> (\<exists>s. 0 \<le> s \<and> s \<le> sint now \<and> zset_has ?z s x)" for x
    by (simp add: set_zrangebyscore [OF assms(1) wf])
  have dist: "distinct ?ready" by (rule distinct_zrangebyscore [OF assms(1) wf])
  have sub: "set ?ready \<subseteq> zset_members ?z" by (auto simp: mem zset_members_has)
  define f where "f x = (THE s. zset_has ?z s x)" for x
  have f: "f x = s" if "zset_has ?z s x" for s x
    unfolding f_def using that zset_has_unique [OF wf _ that] by blast
  have has: "zset_has ?z s x" if "(s, ms) \<in> set ?z" "x \<in> set (ord ms)" for s ms x
    using that enumeratesD [OF assms(1)] zset_wfD(2) [OF wf that(1)] by (auto simp: zset_has_def)
  have "sorted (map f ?ready)"
    unfolding zrangebyscore_def using zset_wfD(1) [OF wf] f [OF has]
    by (intro sorted_concat_scores) (auto simp: map_sorted_def strict_sorted_iff sorted_filter)
  then have "sorted_wrt (\<lambda>x y. f x \<le> f y) ?ready" by (simp add: sorted_wrt_map)
  then have order: "sorted_wrt (\<lambda>x y. \<forall>s t. zset_has ?z s x \<and> zset_has ?z t y \<longrightarrow> s \<le> t) ?ready"
    by (rule sorted_wrt_mono_rel [rotated]) (auto simp: f)
  have "waiting queue (move_delayed_to_waiting ord now queue q) = waiting queue q @ ?ready \<and>
      (\<forall>s x. zset_has (delayed queue (move_delayed_to_waiting ord now queue q)) s x \<longleftrightarrow>
         zset_has ?z s x \<and> x \<notin> set ?ready)"
    using fold_move_ready_moves [OF dist sub] by (simp add: move_delayed_to_waiting_def Let_def)
  then show ?thesis using mem dist order zset_has_unique [OF wf] by (auto intro!: exI [of _ ?ready])
qed

definition two_delayed :: queue_impl where
  "two_delayed = snd (push_delayed ''b'' 0 4 ''q'' Null 3 None None
     (snd (push_delayed ''a'' 0 4 ''q'' Null 1 None None empty_queue)))"

lemma two_delayed_wf: "zsets_wf (q_store two_delayed)"
  by (simp add: two_delayed_def push_delayed_def Let_def zsets_wf_zadd)

lemma two_delayed_has:
  "zset_has (delayed ''q'' two_delayed) s x \<longleftrightarrow> x = ''b'' \<and> s = 7 \<or> x = ''a'' \<and> s = 5"
proof -
  have "zset_wf (zset_add 5 ''a'' [])" by (rule zset_wf_add) simp
  then show ?thesis
    by (auto simp: two_delayed_def push_delayed_def Let_def job_new_def new_with_group_def zset_has_add
        zset_has_def [of "[]"])
qed

lemma two_delayed_due:
  "(\<exists>s. 0 \<le> s \<and> s \<le> sint (9 :: i64) \<and> zset_has (delayed ''q'' two_delayed) s x) \<longleftrightarrow> x \<in> {''a'', ''b''}"
proof
  assume "x \<in> {''a'', ''b''}"
  then consider "zset_has (delayed ''q'' two_delayed) 5 x" | "zset_has (delayed ''q'' two_delayed) 7 x"
    by (auto simp: two_delayed_has)
  then show "\<exists>s. 0 \<le> s \<and> s \<le> sint (9 :: i64) \<and> zset_has (delayed ''q'' two_delayed) s x"
    by cases (auto intro: exI [of _ 5] exI [of _ 7])
qed (auto simp: two_delayed_has)

lemma two_delayed_job: "map_option job_id (job_at ''q'' ''b'' two_delayed) = Some ''b''"
  by (simp add: two_delayed_def push_delayed_def Let_def job_at_def job_round_trip
      job_new_def new_with_group_def)

theorem due_jobs_go_next_witness:
  "waiting ''q'' (move_delayed_to_waiting sorted_list_of_set 9 ''q'' two_delayed) = [''a'', ''b''] \<and>
   map_option job_id (fst (pop ''q'' (move_delayed_to_waiting sorted_list_of_set 9 ''q'' two_delayed))) = Some ''b''"
proof -
  let ?q = "move_delayed_to_waiting sorted_list_of_set 9 ''q'' two_delayed"
  have empty: "waiting ''q'' two_delayed = []" by (simp add: two_delayed_def push_delayed_def Let_def)
  from due_jobs_go_next [OF enumerates_sorted two_delayed_wf, of 9 "''q''", unfolded Let_def empty append_Nil]
  obtain ready where r: "waiting ''q'' ?q = ready" "distinct ready"
      "\<forall>x. x \<in> set ready \<longleftrightarrow> (\<exists>s. 0 \<le> s \<and> s \<le> sint (9 :: i64) \<and> zset_has (delayed ''q'' two_delayed) s x)"
      "sorted_wrt (\<lambda>x y. \<forall>s t. zset_has (delayed ''q'' two_delayed) s x \<and>
         zset_has (delayed ''q'' two_delayed) t y \<longrightarrow> s \<le> t) ready"
    by (elim exE conjE) (rule that)
  have members: "set ready = {''a'', ''b''}" using r(3) unfolding two_delayed_due by blast
  have "length ready = 2" using distinct_card [OF r(2)] members by simp
  then obtain x y where xy: "ready = [x, y]" by (auto simp: numeral_2_eq_2 length_Suc_conv)
  have "ready \<noteq> [''b'', ''a'']" using r(4) by (auto simp: two_delayed_has)
  with members xy have w: "waiting ''q'' ?q = [''a'', ''b'']"
    unfolding r(1) by (auto simp: doubleton_eq_iff)
  have "job_at ''q'' ''b'' ?q = job_at ''q'' ''b'' two_delayed" using move_delayed_frame [OF two_delayed_wf] by blast
  then show ?thesis using two_delayed_job by (simp add: w pop_result)
qed

end
