(* ===== verification/Queue_Dlq.thy ===== *)
theory Queue_Dlq
  imports Queue_Steps
begin

text \<open>
  Laws of the dead-letter queue.  The printer \<open>to_text\<close> and the reader \<open>of_text\<close> belong to
  \<open>serde_json\<close>; where a law needs that an entry can be read back, it says so of the one value
  that was written.
\<close>

section \<open>Redriving everything\<close>

lemma map_filter_snoc:
  "List.map_filter f (xs @ [x]) = List.map_filter f xs @ (case f x of None \<Rightarrow> [] | Some y \<Rightarrow> [y])"
  by (simp add: List.map_filter_def split: option.split)

lemma find_append: "find P (xs @ ys) = (case find P xs of None \<Rightarrow> find P ys | Some x \<Rightarrow> Some x)"
  by (induction xs) auto

lemma redrive_job_views [simp]:
  "list_at k (redrive_job queue j s) =
     (if k = waiting_key queue then job_id j # list_at k s else list_at k s)"
  "zset_at k (redrive_job queue j s) = zset_at k s"
  "get_job k (redrive_job queue j s) =
     (if k = job_key queue (job_id j) then Some (job_to_value (j\<lparr>attempts_made := 0\<rparr>)) else get_job k s)"
  by (simp_all add: redrive_job_def)

text \<open>The jobs of the entries that can be read, in the order of the list.\<close>

definition dead_jobs :: "(string \<Rightarrow> json option) \<Rightarrow> string list \<Rightarrow> job list" where
  "dead_jobs of_text items = List.map_filter (dlq_job of_text) items"

lemma dead_jobs_snoc:
  "dead_jobs of_text (items @ [item]) =
     dead_jobs of_text items @ (case dlq_job of_text item of None \<Rightarrow> [] | Some j \<Rightarrow> [j])"
  by (simp add: dead_jobs_def map_filter_snoc)

lemma redrive_loop_unfold:
  assumes "list_at (dlq_key queue) s = items @ [item]"
  shows "redrive_loop of_text queue n s =
    (case dlq_job of_text item of
       None \<Rightarrow> redrive_loop of_text queue n (snd (rpop (dlq_key queue) s))
     | Some j \<Rightarrow> redrive_loop of_text queue (n + 1) (redrive_job queue j (snd (rpop (dlq_key queue) s))))"
  using assms by (subst redrive_loop.simps, subst rpop_cases) simp

lemma redrive_loop_empty:
  "list_at (dlq_key queue) s = [] \<Longrightarrow> redrive_loop of_text queue n s = (n, snd (rpop (dlq_key queue) s))"
  by (subst redrive_loop.simps, subst rpop_cases) simp

definition redriven_record :: "job list \<Rightarrow> string \<Rightarrow> json option" where
  "redriven_record js i =
     (case find (\<lambda>j. job_id j = i) js of
        None \<Rightarrow> None | Some j \<Rightarrow> Some (job_to_value (j\<lparr>attempts_made := 0\<rparr>)))"

lemma redrive_loop_result:
  assumes "list_at (dlq_key queue) s = items"
  shows "let (m, s') = redrive_loop of_text queue n s; js = dead_jobs of_text items
    in m = n + of_nat (length js) \<and> list_at (dlq_key queue) s' = [] \<and>
       list_at (waiting_key queue) s' = map job_id js @ list_at (waiting_key queue) s \<and>
       list_at (active_key queue) s' = list_at (active_key queue) s \<and>
       zset_at (delayed_key queue) s' = zset_at (delayed_key queue) s \<and>
       get_job (job_key queue i) s' =
         (case redriven_record js i of None \<Rightarrow> get_job (job_key queue i) s | Some v \<Rightarrow> Some v)"
  using assms
proof (induction items arbitrary: n s rule: rev_induct)
  case Nil
  then show ?case
    by (simp add: redrive_loop_empty dead_jobs_def redriven_record_def List.map_filter_def)
next
  case (snoc item items)
  let ?s = "snd (rpop (dlq_key queue) s)"
  have rest: "list_at (dlq_key queue) ?s = items" using snoc.prems by simp
  show ?case
  proof (cases "dlq_job of_text item")
    case None
    then show ?thesis
      using snoc.IH [OF rest, of n]
      by (simp add: redrive_loop_unfold [OF snoc.prems] dead_jobs_snoc split_def Let_def
          split: option.split)
  next
    case (Some j)
    then show ?thesis
      using snoc.IH [of "redrive_job queue j ?s" "n + 1"] rest
      by (auto simp: redrive_loop_unfold [OF snoc.prems] dead_jobs_snoc split_def Let_def
          redriven_record_def find_append split: option.splits)
  qed
qed

lemma lremove_first_head:
  "list_at k s = x # xs \<Longrightarrow> P x \<Longrightarrow> lremove_first_by k P s = (Some x, put_list k xs s)"
  by (simp add: lremove_first_by_def)

lemma lremove_first_none:
  "list_all (\<lambda>x. \<not> P x) (list_at k s) \<Longrightarrow> lremove_first_by k P s = (None, s)"
proof -
  assume "list_all (\<lambda>x. \<not> P x) (list_at k s)"
  then have "dropWhile (Not \<circ> P) (list_at k s) = []" by (simp add: list_all_iff)
  then show ?thesis by (simp only: lremove_first_by_def list.case)
qed

text \<open>Reading back the entry of a job.\<close>

definition reads_back :: "(string \<Rightarrow> json option) \<Rightarrow> (json \<Rightarrow> string) \<Rightarrow> json \<Rightarrow> bool" where
  "reads_back of_text to_text v \<longleftrightarrow> of_text (to_text v) = Some v"

lemma failed_data_read:
  assumes "reads_back of_text to_text (failed_data j error now)"
  shows "dlq_job of_text (to_text (failed_data j error now)) = Some j"
    and "dlq_entry_matches of_text (job_id j) (to_text (failed_data j error now))"
proof -
  let ?item = "to_text (failed_data j error now)"
  have "of_text ?item = Some (failed_data j error now)" using assms by (simp add: reads_back_def)
  moreover have "json_get (failed_data j error now) ''job'' = Some (job_to_value j)"
    by (simp add: failed_data_def)
  moreover have "json_get (job_to_value j) ''id'' = Some (String (job_id j))"
    by (simp add: job_to_value_def)
  ultimately show "dlq_job of_text ?item = Some j" "dlq_entry_matches of_text (job_id j) ?item"
    by (simp_all add: dlq_job_def dlq_entry_matches_def job_round_trip)
qed

lemma find_buried:
  assumes "reads_back of_text to_text (failed_data j error now)"
  shows "dlq_find_and_remove of_text queue (job_id j) (move_to_dlq to_text now queue j error q) =
    (Some (j, to_text (failed_data j error now)),
     with_store (put_list (dlq_key queue) (dlq queue q)) (move_to_dlq to_text now queue j error q))"
  using lremove_first_head [where P = "dlq_entry_matches of_text (job_id j)", OF move_to_dlq_views(4) [where to_text = to_text] failed_data_read(2) [OF assms]]
  by (simp add: dlq_find_and_remove_def failed_data_read(1) [OF assms] with_store_def)

lemma find_none:
  "list_all (\<lambda>item. \<not> dlq_entry_matches of_text mid item) (dlq queue q) \<Longrightarrow>
     dlq_find_and_remove of_text queue mid q = (None, q)"
  by (simp add: dlq_find_and_remove_def lremove_first_none)

lemma peek_buried:
  assumes "reads_back of_text to_text (failed_data j error now)"
  shows "dlq_peek of_text queue 0 1 (move_to_dlq to_text now queue j error q) =
    [dlq_message_of (to_text (failed_data j error now)) (failed_data j error now)]"
  by (simp add: dlq_peek_def lrange_def List.map_filter_def assms [unfolded reads_back_def])

lemma dlq_message_fields:
  "dlq_id (dlq_message_of item (failed_data j error now)) = job_id j"
  "dlq_payload (dlq_message_of item (failed_data j error now)) = job_data j"
  "dlq_error (dlq_message_of item (failed_data j error now)) = error"
  "dlq_retries (dlq_message_of item (failed_data j error now)) = attempts_made j"
  by (simp_all add: dlq_message_of_def Let_def failed_data_def job_to_value_def effective_def
      u32_value_def number_of_u64_def)

lemma find_by_id:
  "distinct (map f xs) \<Longrightarrow> x \<in> set xs \<Longrightarrow> find (\<lambda>y. f y = f x) xs = Some x"
  by (induction xs) force+

section \<open>Properties\<close>

text \<open>C21: redriving empties the dead-letter queue and returns every job it can read.  The jobs
  join the waiting list behind those already waiting, the job that failed first in front of
  the ones that failed later, each with its attempts reset in its record; the answer is their
  number.  An entry that cannot be read is dropped.\<close>

theorem redrive_returns_dead_jobs:
  "let (n, q') = dlq_redrive of_text queue q; js = dead_jobs of_text (dlq queue q)
   in n = of_nat (length js) \<and> dlq queue q' = [] \<and>
      rev (waiting queue q') = rev (waiting queue q) @ map job_id (rev js) \<and>
      active queue q' = active queue q \<and> delayed queue q' = delayed queue q \<and>
      (distinct (map job_id js) \<longrightarrow>
        (\<forall>j \<in> set js. job_at queue (job_id j) q' = Some (j\<lparr>attempts_made := 0\<rparr>)))"
proof -
  let ?js = "dead_jobs of_text (dlq queue q)"
  obtain n s where loop: "redrive_loop of_text queue 0 (q_store q) = (n, s)"
    by (cases "redrive_loop of_text queue 0 (q_store q)")
  note res = redrive_loop_result [OF refl, where queue = queue and s = "q_store q" and of_text = of_text and n = 0, unfolded loop Let_def prod.case]
  obtain q' where red: "dlq_redrive of_text queue q = (n, q')" and store: "q_store q' = s"
    by (simp add: dlq_redrive_def loop Let_def)
  have stored: "job_at queue (job_id j) q' = Some (j\<lparr>attempts_made := 0\<rparr>)"
    if "distinct (map job_id ?js)" "j \<in> set ?js" for j
  proof -
    have "find (\<lambda>k. job_id k = job_id j) ?js = Some j" using that by (rule find_by_id)
    then show ?thesis
      using res [of "job_id j"] by (simp add: job_at_def store redriven_record_def job_round_trip)
  qed
  show ?thesis
    using res stored by (simp add: red store rev_map)
qed

definition sample_dead :: "string \<Rightarrow> json option" where
  "sample_dead item = (if item = ''x'' then Some (failed_data sample_job ''e'' 9) else None)"

lemma sample_dead_job: "dead_jobs sample_dead [''y'', ''x''] = [sample_job]"
  by (simp add: dead_jobs_def List.map_filter_def dlq_job_def sample_dead_def failed_data_def job_round_trip)

theorem redrive_returns_dead_jobs_witness:
  "let q = with_store (put_list (dlq_key ''q'') [''y'', ''x'']) empty_queue;
       (n, q') = dlq_redrive sample_dead ''q'' q
   in n = 1 \<and> dlq ''q'' q' = [] \<and> waiting ''q'' q' = [''id''] \<and>
      job_at ''q'' ''id'' q' = Some (sample_job\<lparr>attempts_made := 0\<rparr>)"
  using redrive_returns_dead_jobs [of sample_dead "''q''" "with_store (put_list (dlq_key ''q'') [''y'', ''x'']) empty_queue"]
  by (simp add: sample_dead_job split_def Let_def) (simp add: sample_job_def job_new_def new_with_group_def)

text \<open>a dead-lettered job can be shown, redriven or discarded by its identifier.  When the
  entry that was written can be read back, the list shows it with its identifier, payload,
  error and attempts, redriving it puts the job back at the end of the waiting list with its
  attempts reset, discarding it drops it, and both leave the other entries alone.  An
  identifier that no entry has is refused and changes nothing.\<close>

theorem dead_letters_are_addressable:
  assumes "reads_back of_text to_text (failed_data j error now)"
  shows "let q' = move_to_dlq to_text now queue j error q;
             (found, q2) = dlq_redrive_message of_text queue (job_id j) q';
             (dropped, q3) = dlq_discard_message of_text queue (job_id j) q'
    in map dlq_id (dlq_peek of_text queue 0 1 q') = [job_id j] \<and>
       map dlq_payload (dlq_peek of_text queue 0 1 q') = [job_data j] \<and>
       map dlq_error (dlq_peek of_text queue 0 1 q') = [error] \<and>
       map dlq_retries (dlq_peek of_text queue 0 1 q') = [attempts_made j] \<and>
       found \<and> dlq queue q2 = dlq queue q \<and> waiting queue q2 = job_id j # waiting queue q \<and>
       job_at queue (job_id j) q2 = Some (j\<lparr>attempts_made := 0\<rparr>) \<and>
       dropped \<and> dlq queue q3 = dlq queue q \<and> waiting queue q3 = waiting queue q \<and>
       (\<forall>mid. list_all (\<lambda>item. \<not> dlq_entry_matches of_text mid item) (dlq queue q) \<longrightarrow>
          dlq_redrive_message of_text queue mid q = (False, q) \<and>
          dlq_discard_message of_text queue mid q = (False, q))"
  using find_buried [OF assms, of queue q]
  by (simp add: dlq_redrive_message_def dlq_discard_message_def find_none peek_buried [OF assms]
      dlq_message_fields Let_def job_at_def job_round_trip)

theorem dead_letters_are_addressable_witness:
  "let q' = move_to_dlq (\<lambda>v. ''x'') 9 ''q'' sample_job ''e'' empty_queue;
       (found, q2) = dlq_redrive_message sample_dead ''q'' (job_id sample_job) q'
   in map dlq_error (dlq_peek sample_dead ''q'' 0 1 q') = [''e''] \<and> found \<and> dlq ''q'' q2 = []"
proof -
  have "reads_back sample_dead (\<lambda>v. ''x'') (failed_data sample_job ''e'' 9)"
    by (simp add: reads_back_def sample_dead_def)
  from dead_letters_are_addressable [OF this, of "''q''" empty_queue] show ?thesis
    by (simp add: Let_def split_def)
qed

end
