(* ===== verification/Queue_Workers.thy ===== *)
theory Queue_Workers
  imports Queue_Dlq
begin

text \<open>
  The consumers of the built-in queue (last part of \<open>engine/src/builtins/queue.rs\<close>): the retry
  loop of the first-in first-out workers, and the three kinds of worker.  A handler is a
  parameter: \<open>handle n j\<close> is the outcome of its call number \<open>n\<close>, and \<open>clock n\<close> the time after
  that call.  The body of a poll runs without interleaving; a spawned task is a job in the list
  of running jobs, and its completion is a step of its own.
\<close>

section \<open>Inline retry\<close>

type_synonym handler = "nat \<Rightarrow> job \<Rightarrow> (string, unit) result"

lemma retry_measure:
  assumes "\<not> is_exhausted (increment_attempts j)"
  shows "2 ^ 32 - unat (attempts_made (increment_attempts j) + 1) < 2 ^ 32 - unat (attempts_made j + 1)"
    and "unat (attempts_made j + 1 + 1) = unat (attempts_made j + 1) + 1"
proof -
  have "unat (attempts_made j + 1) < unat (max_attempts j)"
    using assms by (simp add: is_exhausted_def word_less_nat_alt not_le)
  moreover have "unat (max_attempts j) < 2 ^ 32" using unsigned_less [of "max_attempts j"] by simp
  ultimately have small: "unat (attempts_made j + 1) + 1 < 2 ^ 32" by linarith
  then show suc: "unat (attempts_made j + 1 + 1) = unat (attempts_made j + 1) + 1"
    by (subst unat_word_ariths(1)) simp
  show "2 ^ 32 - unat (attempts_made (increment_attempts j) + 1) < 2 ^ 32 - unat (attempts_made j + 1)"
    using small by (simp only: increment_attempts_simps suc)
qed

text \<open>The loop returns the number of handler calls made so far, the delays slept, and the queue.\<close>

function inline_retry ::
    "(json \<Rightarrow> string) \<Rightarrow> (nat \<Rightarrow> u64) \<Rightarrow> handler \<Rightarrow> string \<Rightarrow> nat \<Rightarrow> job \<Rightarrow> queue_impl \<Rightarrow>
     nat \<times> u64 list \<times> queue_impl" where
  "inline_retry to_text clock handle queue n j q =
     (case handle n j of
        Ok u \<Rightarrow> (Suc n, [], ack queue (job_id j) q)
      | Err error \<Rightarrow>
          let j = increment_attempts j
          in if is_exhausted j then (Suc n, [], move_to_dlq to_text (clock n) queue j error q)
             else
               let (m, delays, q) = inline_retry to_text clock handle queue (Suc n) j
                     (with_store (set_job (job_key queue (job_id j)) (job_to_value j)) q)
               in (m, calculate_backoff j # delays, q))"
  by pat_completeness auto

termination inline_retry
  by (relation "measure (\<lambda>(to_text, clock, handle, queue, n, j, q). 2 ^ 32 - unat (attempts_made j + 1))")
    (use retry_measure(1) in auto)

declare inline_retry.simps [simp del]

definition process_job_with_inline_retry ::
    "(json \<Rightarrow> string) \<Rightarrow> (nat \<Rightarrow> u64) \<Rightarrow> handler \<Rightarrow> string \<Rightarrow> job \<Rightarrow> queue_impl \<Rightarrow> nat \<times> u64 list \<times> queue_impl" where
  "process_job_with_inline_retry to_text clock handle queue j q =
     inline_retry to_text clock handle queue 0 (apply_subscription_overrides q j) q"

section \<open>Workers\<close>

subsection \<open>Concurrent worker\<close>

record worker =
  w_permits :: nat
  w_running :: "job list"

definition worker_new :: "u32 \<Rightarrow> worker" where
  "worker_new concurrency = \<lparr>w_permits = unat concurrency, w_running = []\<rparr>"

text \<open>Without a permit the job is put back at the front and taken off the active list.\<close>

definition put_back :: "string \<Rightarrow> string \<Rightarrow> queue_impl \<Rightarrow> queue_impl" where
  "put_back queue i q =
     with_store (\<lambda>s. snd (lrem (active_key queue) 1 i (lpush (waiting_key queue) i s))) q"

function process_available_jobs :: "string \<Rightarrow> worker \<Rightarrow> queue_impl \<Rightarrow> worker \<times> queue_impl" where
  "process_available_jobs queue w q =
     (case pop queue q of
        (None, q) \<Rightarrow> (w, q)
      | (Some j, q) \<Rightarrow>
          if w_permits w = 0 then (w, put_back queue (job_id j) q)
          else process_available_jobs queue
                 (w\<lparr>w_permits := w_permits w - 1, w_running := j # w_running w\<rparr>) q)"
  by pat_completeness auto

termination process_available_jobs
  by (relation "measure (\<lambda>(queue, w, q). w_permits w)") auto

declare process_available_jobs.simps [simp del]

definition worker_poll ::
    "(string set \<Rightarrow> string list) \<Rightarrow> i64 \<Rightarrow> string \<Rightarrow> worker \<Rightarrow> queue_impl \<Rightarrow> worker \<times> queue_impl" where
  "worker_poll ord now queue w q = process_available_jobs queue w (move_delayed_to_waiting ord now queue q)"

text \<open>The end of a spawned task: the outcome is reported and the permit released.\<close>

definition worker_finish ::
    "(json \<Rightarrow> string) \<Rightarrow> u64 \<Rightarrow> string \<Rightarrow> job \<Rightarrow> (string, unit) result \<Rightarrow> worker \<Rightarrow> queue_impl \<Rightarrow>
     worker \<times> queue_impl" where
  "worker_finish to_text now queue j outcome w q =
     (w\<lparr>w_permits := w_permits w + 1, w_running := remove1 j (w_running w)\<rparr>,
      case outcome of
        Ok u \<Rightarrow> ack queue (job_id j) q
      | Err error \<Rightarrow> snd (nack to_text now queue (job_id j) error q))"

subsection \<open>Grouped first-in first-out worker\<close>

record grouped_worker =
  g_active :: "string set"
  g_running :: "(string \<times> job) list"

definition grouped_new :: grouped_worker where
  "grouped_new = \<lparr>g_active = {}, g_running = []\<rparr>"

definition job_group :: "job \<Rightarrow> string" where
  "job_group j = effective (group_id j) ''default''"

lemma pop_Some_shrinks:
  "pop queue q = (Some j, q') \<Longrightarrow> length (waiting queue q') < length (waiting queue q)"
  using pop_result [of queue q] pop_views(1) [of queue q] by (auto split: if_splits)

function take_groups ::
    "string \<Rightarrow> nat \<Rightarrow> grouped_worker \<Rightarrow> string list \<Rightarrow> queue_impl \<Rightarrow> grouped_worker \<times> string list \<times> queue_impl" where
  "take_groups queue limit w skipped q =
     (if limit \<le> card (g_active w) then (w, skipped, q)
      else
        (case pop queue q of
           (None, q') \<Rightarrow> (w, skipped, q')
         | (Some j, q') \<Rightarrow>
             if job_group j \<in> g_active w then take_groups queue limit w (skipped @ [job_id j]) q'
             else take_groups queue limit
               (w\<lparr>g_active := insert (job_group j) (g_active w), g_running := (job_group j, j) # g_running w\<rparr>)
               skipped q'))"
  by pat_completeness auto

termination take_groups
  by (relation "measure (\<lambda>(queue, limit, w, skipped, q). length (waiting queue q))")
    (auto dest: pop_Some_shrinks [OF sym])

declare take_groups.simps [simp del]

definition process_available_groups ::
    "string \<Rightarrow> nat \<Rightarrow> grouped_worker \<Rightarrow> queue_impl \<Rightarrow> grouped_worker \<times> queue_impl" where
  "process_available_groups queue limit w q =
     (case take_groups queue limit w [] q of
        (w, skipped, q) \<Rightarrow> (w, fold (put_back queue) skipped q))"

definition grouped_poll ::
    "(string set \<Rightarrow> string list) \<Rightarrow> i64 \<Rightarrow> string \<Rightarrow> nat \<Rightarrow> grouped_worker \<Rightarrow> queue_impl \<Rightarrow>
     grouped_worker \<times> queue_impl" where
  "grouped_poll ord now queue limit w q =
     process_available_groups queue limit w (move_delayed_to_waiting ord now queue q)"

definition grouped_finish ::
    "(json \<Rightarrow> string) \<Rightarrow> (nat \<Rightarrow> u64) \<Rightarrow> handler \<Rightarrow> string \<Rightarrow> string \<times> job \<Rightarrow> grouped_worker \<Rightarrow> queue_impl \<Rightarrow>
     grouped_worker \<times> queue_impl" where
  "grouped_finish to_text clock handle queue e w q =
     (w\<lparr>g_active := g_active w - {fst e}, g_running := remove1 e (g_running w)\<rparr>,
      snd (snd (process_job_with_inline_retry to_text clock handle queue (snd e) q)))"

subsection \<open>Single first-in first-out worker\<close>

definition process_next_job ::
    "(json \<Rightarrow> string) \<Rightarrow> (nat \<Rightarrow> u64) \<Rightarrow> handler \<Rightarrow> string \<Rightarrow> queue_impl \<Rightarrow> queue_impl" where
  "process_next_job to_text clock handle queue q =
     (case pop queue q of
        (None, q) \<Rightarrow> q
      | (Some j, q) \<Rightarrow> snd (snd (process_job_with_inline_retry to_text clock handle queue j q)))"

definition fifo_poll ::
    "(string set \<Rightarrow> string list) \<Rightarrow> i64 \<Rightarrow> (json \<Rightarrow> string) \<Rightarrow> (nat \<Rightarrow> u64) \<Rightarrow> handler \<Rightarrow> string \<Rightarrow>
     queue_impl \<Rightarrow> queue_impl" where
  "fifo_poll ord now to_text clock handle queue q =
     process_next_job to_text clock handle queue (move_delayed_to_waiting ord now queue q)"

section \<open>The retry loop ends\<close>

text \<open>The job as the handler sees it at its \<open>k\<close>-th call.\<close>

definition nth_attempt :: "nat \<Rightarrow> job \<Rightarrow> job" where
  "nth_attempt k j = j\<lparr>attempts_made := attempts_made j + of_nat k\<rparr>"

lemma nth_attempt_0 [simp]: "nth_attempt 0 j = j"
  by (simp add: nth_attempt_def)

lemma nth_attempt_Suc: "nth_attempt k (increment_attempts j) = nth_attempt (Suc k) j"
  by (simp add: nth_attempt_def increment_attempts_def add.assoc)

lemma set_job_views [simp]:
  "waiting k (with_store (set_job x v) q) = waiting k q" "active k (with_store (set_job x v) q) = active k q"
  "delayed k (with_store (set_job x v) q) = delayed k q" "dlq k (with_store (set_job x v) q) = dlq k q"
  "zsets_wf (q_store (with_store (set_job x v) q)) = zsets_wf (q_store q)"
  "job_at queue i (with_store (set_job (job_key queue k2) v) q) =
     (if i = k2 then job_of_value v else job_at queue i q)"
  by (simp_all add: job_at_def)

lemma inline_retry_views:
  assumes "inline_retry to_text clock handle queue n j q = (m, delays, q')"
  shows "waiting k q' = waiting k q \<and> active queue q' = remove1 (job_id j) (active queue q) \<and>
    delayed k q' = delayed k q \<and> zsets_wf (q_store q') = zsets_wf (q_store q) \<and>
    job_at queue i q' = (if i = job_id j then None else job_at queue i q)"
  using assms
proof (induction to_text clock handle queue n j q arbitrary: m delays q' rule: inline_retry.induct)
  case (1 to_text clock handle queue n j q)
  let ?q = "with_store (set_job (job_key queue (job_id j)) (job_to_value (increment_attempts j))) q"
  show ?case
  proof (cases "handle n j")
    case (Inr u)
    then show ?thesis using "1.prems" by (auto simp: inline_retry.simps [of to_text clock handle queue n j q])
  next
    case (Inl error)
    show ?thesis
    proof (cases "is_exhausted (increment_attempts j)")
      case True
      then show ?thesis using "1.prems" Inl
        by (auto simp: inline_retry.simps [of to_text clock handle queue n j q] Let_def)
    next
      case False
      obtain delays' where rec: "inline_retry to_text clock handle queue (Suc n) (increment_attempts j) ?q =
          (m, delays', q')"
        using "1.prems" Inl False
        by (auto simp: inline_retry.simps [of to_text clock handle queue n j q] Let_def split: prod.splits)
      then show ?thesis using "1.IH" [OF Inl refl False, of m delays' q'] by simp
    qed
  qed
qed

text \<open>The number of calls that a job may still get: at least one.\<close>

definition attempts_left :: "job \<Rightarrow> nat" where
  "attempts_left j = max 1 (unat (max_attempts j) - unat (attempts_made j))"

text \<open>The loop made \<open>Suc k\<close> calls, of which only the last may have succeeded.\<close>

definition retried ::
    "(json \<Rightarrow> string) \<Rightarrow> (nat \<Rightarrow> u64) \<Rightarrow> handler \<Rightarrow> string \<Rightarrow> nat \<Rightarrow> job \<Rightarrow> queue_impl \<Rightarrow> nat \<Rightarrow> u64 list \<Rightarrow>
     queue_impl \<Rightarrow> bool" where
  "retried to_text clock handle queue n j q k delays q' \<longleftrightarrow>
     k < attempts_left j \<and> length delays = k \<and>
     (\<forall>i < k. (\<exists>e. handle (n + i) (nth_attempt i j) = Err e) \<and>
        unat (delays ! i) = min (unat (backoff_delay_ms j) * 2 ^ (unat (attempts_made j) + i)) (2 ^ 64 - 1)) \<and>
     (case handle (n + k) (nth_attempt k j) of
        Ok u \<Rightarrow> dlq queue q' = dlq queue q
      | Err e \<Rightarrow> Suc k = attempts_left j \<and>
          dlq queue q' = to_text (failed_data (nth_attempt (Suc k) j) e (clock (n + k))) # dlq queue q)"

lemma unat_increment:
  "unat (attempts_made j) < 2 ^ 32 - 1 \<Longrightarrow>
     unat (attempts_made (increment_attempts j)) = Suc (unat (attempts_made j))"
  by (simp add: unat_word_ariths)

lemma exhausted_iff:
  "unat (attempts_made j) < 2 ^ 32 - 1 \<Longrightarrow>
     is_exhausted (increment_attempts j) \<longleftrightarrow> attempts_left j = 1"
  using unat_increment [of j] by (auto simp: is_exhausted_def word_le_nat_alt attempts_left_def)

lemma retried_step:
  assumes a: "unat (attempts_made j) < 2 ^ 32 - 1" and fail: "handle n j = Err error"
    and more: "\<not> is_exhausted (increment_attempts j)"
    and rest: "retried to_text clock handle queue (Suc n) (increment_attempts j) q1 k delays q'"
    and same: "dlq queue q1 = dlq queue q"
  shows "retried to_text clock handle queue n j q (Suc k) (calculate_backoff (increment_attempts j) # delays) q'"
proof -
  have left: "attempts_left j = Suc (attempts_left (increment_attempts j))"
    using more unat_increment [OF a] by (auto simp: is_exhausted_def word_le_nat_alt attempts_left_def)
  have first: "unat (calculate_backoff (increment_attempts j)) =
      min (unat (backoff_delay_ms j) * 2 ^ unat (attempts_made j)) (2 ^ 64 - 1)"
    using unat_increment [OF a] by (simp add: unat_calculate_backoff)
  have "(\<exists>e. handle (n + i) (nth_attempt i j) = Err e) \<and>
      unat ((calculate_backoff (increment_attempts j) # delays) ! i) =
        min (unat (backoff_delay_ms j) * 2 ^ (unat (attempts_made j) + i)) (2 ^ 64 - 1)" if "i < Suc k" for i
    using that rest fail first unat_increment [OF a]
    by (cases i) (auto simp: retried_def nth_attempt_Suc)
  then show ?thesis using rest same left by (auto simp: retried_def nth_attempt_Suc split: sum.splits)
qed

lemma inline_retry_retried:
  assumes "inline_retry to_text clock handle queue n j q = (m, delays, q')"
    and "unat (attempts_made j) < 2 ^ 32 - 1"
  shows "\<exists>k. m = n + Suc k \<and> retried to_text clock handle queue n j q k delays q'"
  using assms
proof (induction to_text clock handle queue n j q arbitrary: m delays q' rule: inline_retry.induct)
  case (1 to_text clock handle queue n j q)
  let ?j = "increment_attempts j"
  let ?q = "with_store (set_job (job_key queue (job_id ?j)) (job_to_value ?j)) q"
  note unfold = inline_retry.simps [of to_text clock handle queue n j q]
  show ?case
  proof (cases "handle n j")
    case (Inr u)
    then have "m = Suc n" "retried to_text clock handle queue n j q 0 delays q'"
      using "1.prems" by (auto simp: unfold retried_def attempts_left_def)
    then show ?thesis by auto
  next
    case (Inl error)
    show ?thesis
    proof (cases "is_exhausted ?j")
      case True
      then have "m = Suc n" "retried to_text clock handle queue n j q 0 delays q'"
        using "1.prems" Inl exhausted_iff [of j] nth_attempt_Suc [of 0 j]
        by (auto simp: unfold retried_def Let_def)
      then show ?thesis by auto
    next
      case False
      obtain ds where rec: "inline_retry to_text clock handle queue (Suc n) ?j ?q = (m, ds, q')"
        and delays: "delays = calculate_backoff ?j # ds"
        using "1.prems"(1) Inl False by (auto simp: unfold Let_def split: prod.splits)
      have "unat (max_attempts j) < 2 ^ 32" using unsigned_less [of "max_attempts j"] by simp
      then have "unat (attempts_made ?j) < 2 ^ 32 - 1"
        using False by (auto simp: is_exhausted_def word_le_nat_alt not_le)
      from "1.IH" [OF Inl refl False rec this] obtain k
        where k: "m = Suc n + Suc k" "retried to_text clock handle queue (Suc n) ?j ?q k ds q'" by blast
      have "retried to_text clock handle queue n j q (Suc k) delays q'"
        unfolding delays by (rule retried_step [where handle = handle, OF "1.prems"(2) Inl False k(2)]) simp
      with k(1) show ?thesis by auto
    qed
  qed
qed

section \<open>Properties\<close>

text \<open>C4: the retry loop always ends, and the job with it.  Whatever the handler answers, with
  the limits of the subscription applied, the loop calls it at most as often as attempts are
  left (and at least once), sleeping between two calls for the back-off that doubles each time;
  every call but the last failed; after the last one the job is off the active list and its
  record is gone, and it has either been handled or, exactly when the attempts ran out, been
  moved to the dead-letter queue with the last error.\<close>

theorem inline_retry_ends:
  assumes "unat (attempts_made j) < 2 ^ 32 - 1"
  shows "let (calls, delays, q') = process_job_with_inline_retry to_text clock handle queue j q;
             k = apply_subscription_overrides q j
    in 1 \<le> calls \<and> calls \<le> attempts_left k \<and> length delays = calls - 1 \<and>
       (\<forall>i < calls - 1. (\<exists>e. handle i (nth_attempt i k) = Err e) \<and>
          unat (delays ! i) = min (unat (backoff_delay_ms k) * 2 ^ (unat (attempts_made k) + i)) (2 ^ 64 - 1)) \<and>
       active queue q' = remove1 (job_id j) (active queue q) \<and> job_at queue (job_id j) q' = None \<and>
       waiting queue q' = waiting queue q \<and> delayed queue q' = delayed queue q \<and>
       (case handle (calls - 1) (nth_attempt (calls - 1) k) of
          Ok u \<Rightarrow> dlq queue q' = dlq queue q
        | Err e \<Rightarrow> calls = attempts_left k \<and>
            dlq queue q' = to_text (failed_data (nth_attempt calls k) e (clock (calls - 1))) # dlq queue q)"
proof -
  let ?k = "apply_subscription_overrides q j"
  obtain calls delays q' where run: "inline_retry to_text clock handle queue 0 ?k q = (calls, delays, q')"
    by (metis prod.exhaust)
  from inline_retry_retried [OF run] assms obtain k
    where "calls = Suc k" "retried to_text clock handle queue 0 ?k q k delays q'" by auto
  then show ?thesis
    using inline_retry_views [OF run, of queue "job_id j"]
    by (simp add: process_job_with_inline_retry_def run retried_def Suc_le_eq split: sum.splits)
qed

theorem inline_retry_ends_witness:
  "let (calls, delays, q') = process_job_with_inline_retry (\<lambda>v. ''x'') (\<lambda>n. 9) (\<lambda>n j. Err ''e'') ''q''
         sample_job empty_queue
   in calls = 2 \<and> map unat delays = [2000] \<and> dlq ''q'' q' = [''x'']"
proof -
  have j: "apply_subscription_overrides empty_queue sample_job = sample_job"
    by (simp add: apply_subscription_overrides_def)
  have s: "attempts_made sample_job = 1" "max_attempts sample_job = 3" "backoff_delay_ms sample_job = 1000"
    by (simp_all add: sample_job_def job_new_def new_with_group_def)
  obtain calls delays q' where run: "process_job_with_inline_retry (\<lambda>v. ''x'') (\<lambda>n. 9) (\<lambda>n j. Err ''e'')
      ''q'' sample_job empty_queue = (calls, delays, q')"
    by (metis prod.exhaust)
  have "calls = 2 \<and> length delays = 1 \<and> unat (delays ! 0) = 2000 \<and> dlq ''q'' q' = [''x'']"
    using inline_retry_ends [of sample_job "\<lambda>v. ''x''" "\<lambda>n. 9" "\<lambda>n j. Err ''e''" "''q''" empty_queue]
    by (auto simp: run j s attempts_left_def)
  then show ?thesis by (cases delays) (auto simp: run)
qed

end
