(* ===== verification/Queue_Consumers.thy ===== *)
theory Queue_Consumers
  imports Queue_Workers
begin

text \<open>
  What the workers guarantee: how many handlers run at the same time, that a job that runs is
  on the active list and runs once, that no two jobs of a group run together, and that the
  single worker drains a queue in order.
\<close>

section \<open>Taking and putting back\<close>

lemma pop_placed:
  assumes "placed queue q" and "pop queue q = (r, q')"
  shows "placed queue q' \<and>
    (case r of
       None \<Rightarrow> waiting queue q = [] \<and> active queue q' = active queue q \<and> waiting queue q' = []
     | Some j \<Rightarrow> waiting queue q = waiting queue q' @ [job_id j] \<and>
         active queue q' = job_id j # active queue q \<and> job_at queue (job_id j) q = Some j)"
proof -
  have q': "q' = snd (pop queue q)" and r: "r = fst (pop queue q)" using assms(2) by simp_all
  have placed: "placed queue q'" using accounts_pop [OF assms(1)] by (simp add: accounts_def q')
  show ?thesis
  proof (cases "waiting queue q" rule: rev_cases)
    case Nil
    then show ?thesis using placed by (simp add: q' r pop_result)
  next
    case (snoc older i)
    then obtain j where "job_at queue i q = Some j" "job_id j = i"
      using placedD(3) [OF assms(1), of i] by (auto simp: in_held [OF placedD(1) [OF assms(1)]])
    then show ?thesis using placed snoc by (simp add: q' r pop_result)
  qed
qed

lemma put_back_views [simp]:
  "waiting queue (put_back queue i q) = i # waiting queue q"
  "active queue (put_back queue i q) = remove1 i (active queue q)"
  "delayed k (put_back queue i q) = delayed k q" "job_at k j (put_back queue i q) = job_at k j q"
  "zsets_wf (q_store (put_back queue i q)) = zsets_wf (q_store q)"
  by (simp_all add: put_back_def lrem_list_one job_at_def)

lemma placed_put_back:
  assumes "placed queue q" and "i \<in> set (active queue q)"
  shows "placed queue (put_back queue i q)"
  using assms by (intro placed_same [OF assms(1)]) (simp_all add: held_def placedD(1) [OF assms(1)])

lemma placed_ack: "placed queue q \<Longrightarrow> i \<in> set (active queue q) \<Longrightarrow> placed queue (ack queue i q)"
  using accounts_ack [of queue q i] by (simp add: accounts_def)

lemma placed_nack:
  "placed queue q \<Longrightarrow> i \<in> set (active queue q) \<Longrightarrow> placed queue (snd (nack to_text now queue i error q))"
  using accounts_nack [of queue q i to_text now error] by (simp add: accounts_def)

lemma active_nack:
  assumes "placed queue q" and "i \<in> set (active queue q)"
  shows "active queue (snd (nack to_text now queue i error q)) = remove1 i (active queue q)"
proof -
  obtain j where "job_at queue i q = Some j" "job_id j = i"
    using assms placedD(3) [OF assms(1), of i] by (auto simp: in_held [OF placedD(1) [OF assms(1)]])
  then show ?thesis by (auto simp: nack_found Let_def schedule_retry_views)
qed

lemma published_active:
  assumes "queue_step ord to_text queue q (Published i) q'"
  shows "active queue q' = active queue q"
  using assms
  by (cases rule: queue_step.cases)
    (auto simp: push_is_push_job push_fifo_stores push_delayed_def Let_def nack_event_def
      split: option.splits if_splits)

lemma published_placed:
  "queue_step ord to_text queue q (Published i) q' \<Longrightarrow> placed queue q \<Longrightarrow> placed queue q'"
  using step_accounts by (auto simp: accounts_def)

lemma placed_move: "placed queue q \<Longrightarrow> placed queue (move_delayed_to_waiting ord now queue q)"
  using accounts_move by (simp add: accounts_def)

lemma active_fold_move_ready: "list_at (active_key k) (fold (move_ready queue) ready s) = list_at (active_key k) s"
  by (induction ready arbitrary: s) simp_all

lemma active_move [simp]: "active k (move_delayed_to_waiting ord now queue q) = active k q"
  by (simp add: move_delayed_to_waiting_def Let_def active_fold_move_ready)

lemma distinct_active:
  assumes "placed queue q"
  shows "distinct (active queue q)"
proof -
  have "count (mset (active queue q)) i \<le> 1" for i
    using placedD(2) [OF assms, of i] unfolding held_def count_union by linarith
  then show ?thesis by (metis count_mset_0_iff distinct_count_atmost_1 less_one nat_less_le not_less)
qed

lemma distinct_submset: "distinct ys \<Longrightarrow> mset xs \<subseteq># mset ys \<Longrightarrow> distinct xs"
  by (metis distinct_append mset_eq_imp_distinct_iff mset_append subset_mset.le_iff_add ex_mset)

section \<open>The concurrent worker\<close>

definition worker_ok :: "string \<Rightarrow> nat \<Rightarrow> worker \<times> queue_impl \<Rightarrow> bool" where
  "worker_ok queue c wq \<longleftrightarrow>
     placed queue (snd wq) \<and> w_permits (fst wq) + length (w_running (fst wq)) = c \<and>
     mset (map job_id (w_running (fst wq))) \<subseteq># mset (active queue (snd wq))"

inductive worker_step ::
    "(string set \<Rightarrow> string list) \<Rightarrow> (json \<Rightarrow> string) \<Rightarrow> string \<Rightarrow> worker \<times> queue_impl \<Rightarrow> worker \<times> queue_impl \<Rightarrow> bool"
  for ord :: "string set \<Rightarrow> string list" and to_text :: "json \<Rightarrow> string" and queue :: string where
  poll: "worker_step ord to_text queue (w, q) (worker_poll ord now queue w q)"
| finish: "j \<in> set (w_running w) \<Longrightarrow>
    worker_step ord to_text queue (w, q) (worker_finish to_text now queue j outcome w q)"
| publish: "queue_step ord to_text queue q (Published i) q' \<Longrightarrow> worker_step ord to_text queue (w, q) (w, q')"

lemma process_available_ok:
  "worker_ok queue c (w, q) \<Longrightarrow> worker_ok queue c (process_available_jobs queue w q)"
proof (induction queue w q rule: process_available_jobs.induct)
  case (1 queue w q)
  obtain r q' where pop: "pop queue q = (r, q')" by (cases "pop queue q")
  have p: "placed queue q" using "1.prems" by (simp add: worker_ok_def)
  note popped = pop_placed [OF p pop]
  show ?case
  proof (cases r)
    case None
    then show ?thesis
      using popped "1.prems" pop by (simp add: process_available_jobs.simps [of queue w q] worker_ok_def)
  next
    case (Some j)
    show ?thesis
    proof (cases "w_permits w = 0")
      case True
      then show ?thesis
        using popped "1.prems" pop Some placed_put_back [of queue q' "job_id j"]
        by (simp add: process_available_jobs.simps [of queue w q] worker_ok_def)
    next
      case False
      then have "worker_ok queue c (w\<lparr>w_permits := w_permits w - 1, w_running := j # w_running w\<rparr>, q')"
        using popped "1.prems" Some by (simp add: worker_ok_def)
      from "1.IH" [OF pop [symmetric] Some False this] show ?thesis
        using pop Some False by (simp add: process_available_jobs.simps [of queue w q])
    qed
  qed
qed

lemma mset_diff_back: "M \<subseteq># add_mset x (M - {#x#})"
  by (rule mset_subset_eqI) (simp, arith)

lemma finished_subset:
  assumes "mset (map f xs) \<subseteq># mset ys" and "x \<in> set xs"
  shows "mset (map f (remove1 x xs)) \<subseteq># mset (remove1 (f x) ys)"
proof -
  have "mset (map f (remove1 x xs)) = mset (map f xs) - {#f x#}"
    using assms(2) by (simp add: image_mset_Diff)
  then show ?thesis using assms(1) by (simp add: subset_eq_diff_conv subset_mset.order_trans [OF _ mset_diff_back])
qed

lemma running_active:
  "mset (map f xs) \<subseteq># mset ys \<Longrightarrow> x \<in> set xs \<Longrightarrow> f x \<in> set ys"
  by (metis image_eqI mset_subset_eqD set_map set_mset_mset)

lemma worker_finish_ok:
  assumes "worker_ok queue c (w, q)" and "j \<in> set (w_running w)"
  shows "worker_ok queue c (worker_finish to_text now queue j outcome w q)"
proof -
  from assms(1) have p: "placed queue q" and n: "w_permits w + length (w_running w) = c"
    and sub: "mset (map job_id (w_running w)) \<subseteq># mset (active queue q)" by (simp_all add: worker_ok_def)
  have i: "job_id j \<in> set (active queue q)" using sub assms(2) by (rule running_active)
  have "Suc (length (remove1 j (w_running w))) = length (w_running w)"
    using assms(2) length_pos_if_in_set [OF assms(2)] by (simp add: length_remove1)
  with n finished_subset [OF sub assms(2)] placed_ack [OF p i] placed_nack [OF p i] active_nack [OF p i]
  show ?thesis by (cases outcome) (simp_all add: worker_finish_def worker_ok_def)
qed

definition worker_start :: "string \<Rightarrow> u32 \<Rightarrow> worker \<times> queue_impl \<Rightarrow> bool" where
  "worker_start queue c wq \<longleftrightarrow> fst wq = worker_new c \<and> placed queue (snd wq)"

interpretation concurrent:
  step_invariant "worker_start queue c" "worker_step ord to_text queue" "worker_ok queue (unat c)"
  for ord to_text queue c
proof
  show "worker_ok queue (unat c) s" if "worker_start queue c s" for s
    using that by (simp add: worker_start_def worker_ok_def worker_new_def)
  show "worker_ok queue (unat c) s'" if "worker_ok queue (unat c) s" "worker_step ord to_text queue s s'" for s s'
    using that(2,1)
  proof (induction rule: worker_step.induct)
    case (poll w q now)
    then have "worker_ok queue (unat c) (w, move_delayed_to_waiting ord now queue q)"
      by (simp add: worker_ok_def placed_move)
    then show ?case unfolding worker_poll_def by (rule process_available_ok)
  next
    case (finish j w q now outcome)
    then show ?case by (simp add: worker_finish_ok)
  next
    case (publish q i q' w)
    then show ?case by (auto simp: worker_ok_def published_active published_placed)
  qed
qed

section \<open>The grouped worker\<close>

text \<open>
  The invariant of the loop, with the identifiers that were skipped so far: the active groups
  are those of the running jobs, each once, and everything taken is on the active list.
\<close>

definition taken_ids :: "grouped_worker \<Rightarrow> string list" where
  "taken_ids w = map (\<lambda>e. job_id (snd e)) (g_running w)"

definition groups_ok :: "nat \<Rightarrow> grouped_worker \<Rightarrow> bool" where
  "groups_ok limit w \<longleftrightarrow>
     g_active w = set (map fst (g_running w)) \<and> distinct (map fst (g_running w)) \<and>
     length (g_running w) \<le> limit \<and> list_all (\<lambda>e. fst e = job_group (snd e)) (g_running w)"

definition grouped_ok :: "string \<Rightarrow> nat \<Rightarrow> string list \<Rightarrow> grouped_worker \<times> queue_impl \<Rightarrow> bool" where
  "grouped_ok queue limit skipped wq \<longleftrightarrow>
     placed queue (snd wq) \<and> groups_ok limit (fst wq) \<and>
     mset (taken_ids (fst wq)) + mset skipped \<subseteq># mset (active queue (snd wq))"

lemma groups_ok_card: "groups_ok limit w \<Longrightarrow> card (g_active w) = length (g_running w)"
  unfolding groups_ok_def by (metis distinct_card length_map)

lemma grouped_ok_skip:
  assumes "grouped_ok queue limit skipped (w, q)" and "pop queue q = (Some j, q')"
  shows "grouped_ok queue limit (skipped @ [job_id j]) (w, q')"
  using pop_placed [OF _ assms(2)] assms(1) by (simp add: grouped_ok_def)

lemma grouped_ok_take:
  assumes "grouped_ok queue limit skipped (w, q)" and "pop queue q = (Some j, q')"
    and "\<not> limit \<le> card (g_active w)" and "job_group j \<notin> g_active w"
  shows "grouped_ok queue limit skipped
    (w\<lparr>g_active := insert (job_group j) (g_active w), g_running := (job_group j, j) # g_running w\<rparr>, q')"
proof -
  have g: "groups_ok limit w" using assms(1) by (simp add: grouped_ok_def)
  have "groups_ok limit
      (w\<lparr>g_active := insert (job_group j) (g_active w), g_running := (job_group j, j) # g_running w\<rparr>)"
    using g assms(3,4) groups_ok_card [OF g] by (simp add: groups_ok_def)
  then show ?thesis
    using pop_placed [OF _ assms(2)] assms(1) by (simp add: grouped_ok_def taken_ids_def)
qed

lemma take_groups_ok:
  assumes "grouped_ok queue limit skipped (w, q)" and "take_groups queue limit w skipped q = (w', skipped', q')"
  shows "grouped_ok queue limit skipped' (w', q')"
  using assms
proof (induction queue limit w skipped q rule: take_groups.induct)
  case (1 queue limit w skipped q)
  note unfold = take_groups.simps [of queue limit w skipped q]
  obtain r q1 where pop: "pop queue q = (r, q1)" by (cases "pop queue q")
  show ?case
  proof (cases "limit \<le> card (g_active w)")
    case True
    then show ?thesis using "1.prems" by (simp add: unfold)
  next
    case False
    show ?thesis
    proof (cases r)
      case None
      then show ?thesis
        using "1.prems" False pop pop_placed [OF _ pop] by (simp add: unfold grouped_ok_def)
    next
      case (Some j)
      show ?thesis
      proof (cases "job_group j \<in> g_active w")
        case True
        then show ?thesis
          using "1.IH"(1) [OF False pop [symmetric] Some True grouped_ok_skip] "1.prems" pop Some False
          by (simp add: unfold)
      next
        case new: False
        then show ?thesis
          using "1.IH"(2) [OF False pop [symmetric] Some new grouped_ok_take] "1.prems" pop Some False
          by (simp add: unfold)
      qed
    qed
  qed
qed

lemma put_back_all_ok:
  "grouped_ok queue limit skipped (w, q) \<Longrightarrow> grouped_ok queue limit [] (w, fold (put_back queue) skipped q)"
proof (induction skipped arbitrary: q)
  case (Cons i skipped)
  have sub: "add_mset i (mset (taken_ids w) + mset skipped) \<subseteq># mset (active queue q)"
    using Cons.prems by (simp add: grouped_ok_def)
  then have "i \<in> set (active queue q)" by (auto dest: mset_subset_eqD)
  with Cons.prems sub have "grouped_ok queue limit skipped (w, put_back queue i q)"
    by (simp add: grouped_ok_def placed_put_back insert_subset_eq_iff)
  then show ?case using Cons.IH by simp
qed (simp add: grouped_ok_def)

lemma process_available_groups_ok:
  assumes "grouped_ok queue limit [] (w, q)"
  shows "grouped_ok queue limit [] (process_available_groups queue limit w q)"
proof -
  obtain w' skipped q' where t: "take_groups queue limit w [] q = (w', skipped, q')"
    by (metis prod.exhaust)
  show ?thesis
    using put_back_all_ok [OF take_groups_ok [OF assms t]] by (simp add: process_available_groups_def t)
qed

lemma retry_placed:
  assumes "placed queue q" and "job_id j \<in> set (active queue q)"
    and "process_job_with_inline_retry to_text clock handle queue j q = (calls, delays, q')"
  shows "placed queue q' \<and> active queue q' = remove1 (job_id j) (active queue q) \<and>
    waiting queue q' = waiting queue q \<and> job_at queue (job_id j) q' = None \<and>
    add_mset (job_id j) (held queue q') = held queue q"
proof -
  have views: "waiting queue q' = waiting queue q" "active queue q' = remove1 (job_id j) (active queue q)"
    "delayed queue q' = delayed queue q" "zsets_wf (q_store q') = zsets_wf (q_store q)"
    "job_at queue i q' = (if i = job_id j then None else job_at queue i q)" for i
    using inline_retry_views [OF assms(3) [unfolded process_job_with_inline_retry_def], of queue i] by simp_all
  have held: "add_mset (job_id j) (held queue q') = held queue q"
    using assms(2) by (simp add: held_def views)
  moreover have "placed queue q'"
    using placedD(1) [OF assms(1)] by (intro placed_remove [OF assms(1) held]) (simp_all add: views)
  ultimately show ?thesis using views by simp
qed

inductive grouped_step ::
    "(string set \<Rightarrow> string list) \<Rightarrow> (json \<Rightarrow> string) \<Rightarrow> string \<Rightarrow> nat \<Rightarrow> grouped_worker \<times> queue_impl \<Rightarrow>
     grouped_worker \<times> queue_impl \<Rightarrow> bool"
  for ord :: "string set \<Rightarrow> string list" and to_text :: "json \<Rightarrow> string" and queue :: string and limit :: nat where
  poll: "grouped_step ord to_text queue limit (w, q) (grouped_poll ord now queue limit w q)"
| finish: "e \<in> set (g_running w) \<Longrightarrow>
    grouped_step ord to_text queue limit (w, q) (grouped_finish to_text clock handle queue e w q)"
| publish: "queue_step ord to_text queue q (Published i) q' \<Longrightarrow>
    grouped_step ord to_text queue limit (w, q) (w, q')"

lemma distinct_map_remove1:
  "distinct (map f xs) \<Longrightarrow> x \<in> set xs \<Longrightarrow> set (map f (remove1 x xs)) = set (map f xs) - {f x}"
  by (induction xs) auto

lemma groups_ok_finish:
  assumes "groups_ok limit w" and "e \<in> set (g_running w)"
  shows "groups_ok limit (w\<lparr>g_active := g_active w - {fst e}, g_running := remove1 e (g_running w)\<rparr>)"
proof -
  have "distinct (map fst (remove1 e (g_running w)))"
    using assms(1) by (simp add: groups_ok_def distinct_map inj_on_diff)
  then show ?thesis
    using assms distinct_map_remove1 [OF _ assms(2), of fst] set_remove1_subset [of e "g_running w"]
    by (auto simp: groups_ok_def list_all_iff length_remove1)
qed

lemma grouped_finish_ok:
  assumes "grouped_ok queue limit [] (w, q)" and "e \<in> set (g_running w)"
  shows "grouped_ok queue limit [] (grouped_finish to_text clock handle queue e w q)"
proof -
  from assms(1) have p: "placed queue q" and g: "groups_ok limit w"
    and sub: "mset (map (\<lambda>e. job_id (snd e)) (g_running w)) \<subseteq># mset (active queue q)"
    by (simp_all add: grouped_ok_def taken_ids_def)
  have i: "job_id (snd e) \<in> set (active queue q)" using running_active [OF sub assms(2)] by simp
  obtain calls delays q' where run:
    "process_job_with_inline_retry to_text clock handle queue (snd e) q = (calls, delays, q')"
    by (metis prod.exhaust)
  show ?thesis
    using retry_placed [OF p i run] groups_ok_finish [OF g assms(2)] finished_subset [OF sub assms(2)]
    by (simp add: grouped_finish_def run grouped_ok_def taken_ids_def)
qed

definition grouped_start :: "string \<Rightarrow> grouped_worker \<times> queue_impl \<Rightarrow> bool" where
  "grouped_start queue wq \<longleftrightarrow> fst wq = grouped_new \<and> placed queue (snd wq)"

interpretation grouped:
  step_invariant "grouped_start queue" "grouped_step ord to_text queue limit" "grouped_ok queue limit []"
  for ord to_text queue limit
proof
  show "grouped_ok queue limit [] s" if "grouped_start queue s" for s
    using that by (simp add: grouped_start_def grouped_ok_def grouped_new_def groups_ok_def taken_ids_def)
  show "grouped_ok queue limit [] s'"
    if "grouped_ok queue limit [] s" "grouped_step ord to_text queue limit s s'" for s s'
    using that(2,1)
  proof (induction rule: grouped_step.induct)
    case (poll w q now)
    then have "grouped_ok queue limit [] (w, move_delayed_to_waiting ord now queue q)"
      by (simp add: grouped_ok_def placed_move)
    then show ?case unfolding grouped_poll_def by (rule process_available_groups_ok)
  next
    case (finish e w q clock handle)
    then show ?case by (simp add: grouped_finish_ok)
  next
    case (publish q i q' w)
    then show ?case by (auto simp: grouped_ok_def published_active published_placed)
  qed
qed

section \<open>The single worker\<close>

lemma process_next_job_step:
  assumes "placed queue q"
  shows "placed queue (process_next_job to_text clock handle queue q) \<and>
    (if waiting queue q = [] then held queue (process_next_job to_text clock handle queue q) = held queue q
     else add_mset (last (waiting queue q)) (held queue (process_next_job to_text clock handle queue q)) =
       held queue q) \<and>
    waiting queue (process_next_job to_text clock handle queue q) = butlast (waiting queue q) \<and>
    active queue (process_next_job to_text clock handle queue q) = active queue q \<and>
    (waiting queue q \<noteq> [] \<longrightarrow>
       job_at queue (last (waiting queue q)) (process_next_job to_text clock handle queue q) = None)"
proof -
  obtain r q1 where pop: "pop queue q = (r, q1)" by (cases "pop queue q")
  note popped = pop_placed [OF assms pop]
  have held: "held queue q1 = held queue q" using held_pop [of queue q] pop by simp
  show ?thesis
  proof (cases r)
    case None
    then show ?thesis using popped pop held by (simp add: process_next_job_def)
  next
    case (Some j)
    obtain calls delays q2 where run:
      "process_job_with_inline_retry to_text clock handle queue j q1 = (calls, delays, q2)"
      by (metis prod.exhaust)
    show ?thesis
      using popped pop held Some retry_placed [OF _ _ run] by (simp add: process_next_job_def run)
  qed
qed

fun process_jobs ::
    "(json \<Rightarrow> string) \<Rightarrow> (nat \<Rightarrow> u64) \<Rightarrow> (nat \<Rightarrow> handler) \<Rightarrow> string \<Rightarrow> nat \<Rightarrow> queue_impl \<Rightarrow> queue_impl" where
  "process_jobs to_text clock handle queue 0 q = q"
| "process_jobs to_text clock handle queue (Suc n) q =
     process_jobs to_text clock handle queue n (process_next_job to_text clock (handle n) queue q)"

lemma process_jobs_drain:
  "placed queue q \<Longrightarrow> length (waiting queue q) = n \<Longrightarrow>
     placed queue (process_jobs to_text clock handle queue n q) \<and>
     waiting queue (process_jobs to_text clock handle queue n q) = [] \<and>
     active queue (process_jobs to_text clock handle queue n q) = active queue q \<and>
     mset (waiting queue q) + held queue (process_jobs to_text clock handle queue n q) = held queue q"
proof (induction n arbitrary: q)
  case (Suc n)
  let ?q = "process_next_job to_text clock (handle n) queue q"
  have w: "waiting queue q \<noteq> []" using Suc.prems(2) by auto
  note step = process_next_job_step [OF Suc.prems(1), of to_text clock "handle n"]
  have rest: "placed queue (process_jobs to_text clock handle queue n ?q)"
    "waiting queue (process_jobs to_text clock handle queue n ?q) = []"
    "active queue (process_jobs to_text clock handle queue n ?q) = active queue q"
    "mset (butlast (waiting queue q)) + held queue (process_jobs to_text clock handle queue n ?q) = held queue ?q"
    using Suc.IH [of ?q] step Suc.prems(2) by simp_all
  have "mset (waiting queue q) = add_mset (last (waiting queue q)) (mset (butlast (waiting queue q)))"
    using w by (metis append_butlast_last_id mset_append mset.simps union_mset_add_mset_right add_0_right)
  then show ?case using rest step w by simp
qed simp

section \<open>Properties\<close>

text \<open>C22: a concurrent worker never runs more handlers than its concurrency.  In every state it
  can reach, with jobs published, polls made and tasks finishing in any order, the permits and
  the running jobs add up to the concurrency, no job is running twice, and every running job is
  on the active list of the queue, so it is neither waiting nor delayed.\<close>

theorem concurrency_is_bounded:
  assumes "placed queue q" and "(worker_step ord to_text queue)\<^sup>*\<^sup>* (worker_new c, q) (w, q')"
  shows "w_permits w + length (w_running w) = unat c \<and> distinct (map job_id (w_running w)) \<and>
    job_id ` set (w_running w) \<subseteq> set (active queue q')"
proof -
  have ok: "worker_ok queue (unat c) (w, q')"
    using concurrent.inv_reachable [OF _ assms(2)] assms(1) by (simp add: worker_start_def)
  then have sub: "mset (map job_id (w_running w)) \<subseteq># mset (active queue q')" and p: "placed queue q'"
    by (simp_all add: worker_ok_def)
  have "distinct (map job_id (w_running w))"
    using distinct_active [OF p] sub by (rule distinct_submset)
  then show ?thesis using ok running_active [OF sub] by (auto simp: worker_ok_def)
qed

text \<open>C23: a grouped worker never runs two jobs of a group together and never more groups than
  allowed.  In every state it can reach, the running jobs belong to different groups, which are
  the groups it counts as active, and their number is within the limit.\<close>

theorem groups_run_alone:
  assumes "placed queue q" and "(grouped_step ord to_text queue limit)\<^sup>*\<^sup>* (grouped_new, q) (w, q')"
  shows "distinct (map (\<lambda>e. job_group (snd e)) (g_running w)) \<and>
    g_active w = job_group ` snd ` set (g_running w) \<and> length (g_running w) \<le> limit \<and>
    (\<lambda>e. job_id (snd e)) ` set (g_running w) \<subseteq> set (active queue q')"
proof -
  have ok: "grouped_ok queue limit [] (w, q')"
    using grouped.inv_reachable [OF _ assms(2)] assms(1) by (simp add: grouped_start_def)
  then have sub: "mset (map (\<lambda>e. job_id (snd e)) (g_running w)) \<subseteq># mset (active queue q')"
    and g: "groups_ok limit w" by (simp_all add: grouped_ok_def taken_ids_def)
  have eq: "map (\<lambda>e. job_group (snd e)) (g_running w) = map fst (g_running w)"
    using g by (auto simp: groups_ok_def list_all_iff)
  then have "job_group ` snd ` set (g_running w) = set (map fst (g_running w))"
    by (metis image_image set_map)
  moreover have "distinct (map (\<lambda>e. job_group (snd e)) (g_running w))"
    unfolding eq using g by (simp add: groups_ok_def)
  ultimately show ?thesis using g running_active [OF sub] by (auto simp: groups_ok_def)
qed

text \<open>a single first-in first-out worker drains the queue.  From a state with \<open>n\<close> waiting
  jobs, \<open>n\<close> rounds of the worker leave no job waiting, whatever the handlers answer: each round
  takes the oldest one, and no job but those that were waiting is touched.  A round on an empty
  queue changes nothing that is held.\<close>

theorem single_worker_drains:
  assumes "placed queue q"
  shows "let n = length (waiting queue q); q' = process_jobs to_text clock handle queue n q
    in waiting queue q' = [] \<and> mset (waiting queue q) + held queue q' = held queue q \<and>
       active queue q' = active queue q \<and>
       (waiting queue q \<noteq> [] \<longrightarrow>
         waiting queue (process_next_job to_text clock h queue q) = butlast (waiting queue q) \<and>
         job_at queue (last (waiting queue q)) (process_next_job to_text clock h queue q) = None)"
  using process_jobs_drain [OF assms refl] process_next_job_step [OF assms] by (simp add: Let_def)

theorem single_worker_drains_witness:
  "let q' = process_jobs (\<lambda>v. ''x'') (\<lambda>n. 9) (\<lambda>n k j. Ok ()) ''q'' 1 sample_queue
   in waiting ''q'' q' = [] \<and> held ''q'' q' = {#}"
  using single_worker_drains [OF sample_placed, of "\<lambda>v. ''x''" "\<lambda>n. 9" "\<lambda>n k j. Ok ()"]
  by (simp add: sample_waiting sample_held Let_def)

theorem concurrency_is_bounded_witness:
  "let (w, q') = worker_poll sorted_list_of_set 7 ''q'' (worker_new 1) sample_queue
   in w_permits w + length (w_running w) = 1"
proof -
  obtain w q' where poll: "worker_poll sorted_list_of_set 7 ''q'' (worker_new 1) sample_queue = (w, q')"
    by (metis prod.exhaust)
  have "worker_step sorted_list_of_set (\<lambda>v. []) ''q'' (worker_new 1, sample_queue) (w, q')"
    using worker_step.poll [of sorted_list_of_set "\<lambda>v. []" "''q''" "worker_new 1" sample_queue 7] poll by simp
  from concurrency_is_bounded [OF sample_placed r_into_rtranclp, of _ _ _ w q', OF this] show ?thesis by (simp add: poll)
qed

theorem groups_run_alone_witness:
  "let (w, q') = grouped_poll sorted_list_of_set 7 ''q'' 2 grouped_new sample_queue
   in length (g_running w) \<le> 2 \<and> g_active w = job_group ` snd ` set (g_running w)"
proof -
  obtain w q' where poll: "grouped_poll sorted_list_of_set 7 ''q'' 2 grouped_new sample_queue = (w, q')"
    by (metis prod.exhaust)
  have "grouped_step sorted_list_of_set (\<lambda>v. []) ''q'' 2 (grouped_new, sample_queue) (w, q')"
    using grouped_step.poll [of sorted_list_of_set "\<lambda>v. []" "''q''" 2 grouped_new sample_queue 7] poll by simp
  from groups_run_alone [OF sample_placed r_into_rtranclp, of _ _ _ w q', OF this] show ?thesis by (simp add: poll)
qed

section \<open>An order that is not kept\<close>

lemma take_groups_step:
  assumes "\<not> limit \<le> card (g_active w)" and "waiting queue q = older @ [i]" and "job_at queue i q = Some j"
  shows "take_groups queue limit w skipped q =
    (if job_group j \<in> g_active w then take_groups queue limit w (skipped @ [job_id j]) (snd (pop queue q))
     else take_groups queue limit
       (w\<lparr>g_active := insert (job_group j) (g_active w), g_running := (job_group j, j) # g_running w\<rparr>)
       skipped (snd (pop queue q)))"
proof -
  obtain q' where "pop queue q = (Some j, q')"
    using pop_result [of queue q] assms(2,3) by (cases "pop queue q") simp
  then show ?thesis using assms(1) by (subst take_groups.simps) simp
qed

lemma take_groups_full: "limit \<le> card (g_active w) \<Longrightarrow> take_groups queue limit w skipped q = (w, skipped, q)"
  by (subst take_groups.simps) simp

definition group_job :: "string \<Rightarrow> string \<Rightarrow> job" where
  "group_job i g = new_with_group i 0 ''q'' Null 3 1000 (Some g) None None"

lemma group_job_simps [simp]:
  "job_id (group_job i g) = i" "job_queue (group_job i g) = ''q''" "job_group (group_job i g) = g"
  by (simp_all add: group_job_def new_with_group_def job_group_def effective_def)

definition group_queue :: queue_impl where
  "group_queue = fold (\<lambda>j q. snd (push_job j q))
     [group_job ''a1'' ''a'', group_job ''a2'' ''a'', group_job ''b1'' ''b'', group_job ''a3'' ''a''] empty_queue"

lemma group_queue_waiting: "waiting ''q'' group_queue = [''a3'', ''b1'', ''a2'', ''a1'']"
  by (simp add: group_queue_def)

lemma group_queue_jobs:
  "job_at ''q'' ''a1'' group_queue = Some (group_job ''a1'' ''a'')"
  "job_at ''q'' ''a2'' group_queue = Some (group_job ''a2'' ''a'')"
  "job_at ''q'' ''b1'' group_queue = Some (group_job ''b1'' ''b'')"
  "job_at ''q'' ''a3'' group_queue = Some (group_job ''a3'' ''a'')"
  using push_job_views(5) [where j = "group_job i g" for i g, simplified]
  by (simp_all add: group_queue_def)

text \<open>a job that the grouped worker skips can lose its turn to a later job of its own group.
  Four jobs are published in the order \<open>a1\<close>, \<open>a2\<close>, \<open>b1\<close>, \<open>a3\<close>, three of group \<open>a\<close> and one of
  group \<open>b\<close>.  A poll with two groups allowed starts \<open>a1\<close>, skips \<open>a2\<close>, starts \<open>b1\<close> and stops;
  putting \<open>a2\<close> back then places it behind \<open>a3\<close>, which is the next job to be taken.\<close>

theorem skipped_job_loses_its_turn:
  "let (w, q) = process_available_groups ''q'' 2 grouped_new group_queue
   in map (\<lambda>e. job_id (snd e)) (g_running w) = [''b1'', ''a1''] \<and> waiting ''q'' q = [''a2'', ''a3''] \<and>
      map_option job_id (fst (pop ''q'' q)) = Some ''a3''"
proof -
  have w: "waiting ''q'' group_queue = [''a3'', ''b1'', ''a2''] @ [''a1'']" by (simp add: group_queue_waiting)
  let ?q1 = "snd (pop ''q'' group_queue)" let ?q2 = "snd (pop ''q'' ?q1)" let ?q3 = "snd (pop ''q'' ?q2)"
  have "take_groups ''q'' 2 grouped_new [] group_queue =
      (\<lparr>g_active = {''b'', ''a''}, g_running = [(''b'', group_job ''b1'' ''b''), (''a'', group_job ''a1'' ''a'')]\<rparr>,
       [''a2''], ?q3)"
    by (simp add: take_groups_step [OF _ w group_queue_jobs(1)] grouped_new_def
        take_groups_step [where q = ?q1 and older = "[''a3'', ''b1'']" and i = "''a2''" and j = "group_job ''a2'' ''a''"]
        take_groups_step [where q = ?q2 and older = "[''a3'']" and i = "''b1''" and j = "group_job ''b1'' ''b''"]
        take_groups_full group_queue_waiting group_queue_jobs)
  then show ?thesis
    by (simp add: process_available_groups_def group_queue_waiting pop_result group_queue_jobs)
qed

end
