(* ===== verification/Rust_Str.thy ===== *)
theory Rust_Str
  imports Prelude
begin

text \<open>
  Operations of Rust's \<open>str\<close> that several components use: \<open>trim\<close>, \<open>split\<close> at a character and
  \<open>find\<close> of a text.  Strings are bytes, so the white space of Unicode is a list of byte
  sequences.
\<close>

section \<open>White space\<close>

definition whitespace :: "string list" where
  "whitespace =
     map (\<lambda>n. [char_of n]) [9, 10, 11, 12, 13, 32 :: nat] @
     map (map char_of)
       ([[0xC2, 0x85], [0xC2, 0xA0], [0xE1, 0x9A, 0x80], [0xE2, 0x80, 0xA8], [0xE2, 0x80, 0xA9],
         [0xE2, 0x80, 0xAF], [0xE2, 0x81, 0x9F], [0xE3, 0x80, 0x80]] @
        map (\<lambda>n. [0xE2, 0x80, n]) [0x80 ..< 0x8B :: nat])"

lemma whitespace_nonempty: "w \<in> set whitespace \<Longrightarrow> w \<noteq> []"
  by (auto simp: whitespace_def)

function trim_start :: "string \<Rightarrow> string" where
  "trim_start s =
     (case find (\<lambda>w. prefix w s) whitespace of None \<Rightarrow> s | Some w \<Rightarrow> trim_start (drop (length w) s))"
  by pat_completeness auto

lemma find_whitespace:
  "find (\<lambda>w. P w) whitespace = Some w \<Longrightarrow> w \<noteq> [] \<and> P w"
  by (metis find_Some_iff nth_mem whitespace_nonempty)

termination trim_start
  by (relation "measure length") (auto dest!: find_whitespace simp: prefix_def)

declare trim_start.simps [simp del]

function trim_end :: "string \<Rightarrow> string" where
  "trim_end s =
     (case find (\<lambda>w. suffix w s) whitespace of
        None \<Rightarrow> s | Some w \<Rightarrow> trim_end (take (length s - length w) s))"
  by pat_completeness auto

termination trim_end
  by (relation "measure length") (auto dest!: find_whitespace simp: suffix_def)

declare trim_end.simps [simp del]

definition trim :: "string \<Rightarrow> string" where
  "trim s = trim_end (trim_start s)"

section \<open>Searching and splitting\<close>

fun find_str :: "string \<Rightarrow> string \<Rightarrow> nat option" where
  "find_str pat [] = (if pat = [] then Some 0 else None)"
| "find_str pat (c # s) = (if prefix pat (c # s) then Some 0 else map_option Suc (find_str pat s))"

fun split_str :: "char \<Rightarrow> string \<Rightarrow> string list" where
  "split_str d [] = [[]]"
| "split_str d (c # s) =
     (if c = d then [] # split_str d s
      else (c # hd (split_str d s)) # tl (split_str d s))"

lemma find_str_SomeD:
  "find_str pat s = Some n \<Longrightarrow> n + length pat \<le> length s \<and> prefix pat (drop n s)"
proof (induction pat s arbitrary: n rule: find_str.induct)
  case (2 pat c s)
  then show ?case by (cases "prefix pat (c # s)") (auto dest: prefix_length_le)
qed (auto split: if_splits)

text \<open>It finds the first occurrence.\<close>

lemma find_str_first: "prefix pat (drop m s) \<Longrightarrow> m \<le> length s \<Longrightarrow> \<exists>n \<le> m. find_str pat s = Some n"
proof (induction pat s arbitrary: m rule: find_str.induct)
  case (2 pat c s)
  show ?case
  proof (cases "prefix pat (c # s)")
    case False
    with 2 obtain m' where m: "m = Suc m'" by (cases m) auto
    with 2 False obtain n where "n \<le> m'" "find_str pat s = Some n" by auto
    with False m show ?thesis by auto
  qed auto
qed auto

lemma split_str_not_Nil [simp]: "split_str d s \<noteq> []"
  by (induction s) auto

lemma split_str_plain: "d \<notin> set s \<Longrightarrow> split_str d s = [s]"
  by (induction s) auto

lemma split_str_single: "length (split_str d s) = 1 \<longleftrightarrow> d \<notin> set s"
proof (induction s)
  case (Cons c s)
  then show ?case by (cases "split_str d s") auto
qed simp

text \<open>What does not begin and does not end with white space is not changed by trimming.\<close>

lemma trim_id:
  assumes "\<And>w. w \<in> set whitespace \<Longrightarrow> \<not> prefix w s" and "\<And>w. w \<in> set whitespace \<Longrightarrow> \<not> suffix w s"
  shows "trim s = s"
proof -
  have "find (\<lambda>w. prefix w s) whitespace = None" "find (\<lambda>w. suffix w s) whitespace = None"
    using assms by (simp_all add: find_None_iff)
  then show ?thesis by (simp add: trim_def trim_start.simps [of s] trim_end.simps [of s])
qed

text \<open>Visible ASCII characters are neither the first nor the last byte of white space.\<close>

definition visible :: "char \<Rightarrow> bool" where
  "visible c \<longleftrightarrow> 33 \<le> (of_char c :: nat) \<and> (of_char c :: nat) < 127"

lemma whitespace_not_visible: "list_all (\<lambda>w. w \<noteq> [] \<and> \<not> visible (hd w) \<and> \<not> visible (last w)) whitespace"
  by (simp add: whitespace_def visible_def upt_rec)

lemma trim_visible:
  assumes "s = [] \<or> visible (hd s) \<and> visible (last s)"
  shows "trim s = s"
proof (rule trim_id)
  fix w
  assume "w \<in> set whitespace"
  then have w: "w \<noteq> []" "\<not> visible (hd w)" "\<not> visible (last w)"
    using whitespace_not_visible by (auto simp: list_all_iff)
  show "\<not> prefix w s" using w assms by (auto simp: prefix_def)
  show "\<not> suffix w s" using w assms by (auto simp: suffix_def)
qed

end
