(* ===== verification/Queue_Recovery.thy ===== *)
theory Queue_Recovery
  imports Queue_Dlq Rust_Str
begin

text \<open>
  Start-up of the built-in queue: rebuilding the lists from the job records, and the migration
  of subscriber queues that were named before names carried a namespace.
\<close>

section \<open>Rebuilding\<close>

definition str_contains :: "string \<Rightarrow> string \<Rightarrow> bool" where
  "str_contains s t \<longleftrightarrow> sublist t s"

definition stored_jobs :: "(string set \<Rightarrow> string list) \<Rightarrow> qkv \<Rightarrow> job list" where
  "stored_jobs ord s =
     List.map_filter (\<lambda>k. if str_contains k '':jobs:'' then Option.bind (get_job k s) job_of_value else None)
       (ord (list_job_keys ''queue:'' s))"

definition rebuild_job :: "(job \<Rightarrow> u64) \<Rightarrow> string \<Rightarrow> job \<Rightarrow> qkv \<Rightarrow> qkv" where
  "rebuild_job clock queue j s =
     (case process_at j of
        Some due \<Rightarrow> if clock j < due then zadd (delayed_key queue) due (job_id j) s
                    else lpush (waiting_key queue) (job_id j) s
      | None \<Rightarrow> lpush (waiting_key queue) (job_id j) s)"

definition rebuild_queue :: "(job \<Rightarrow> u64) \<Rightarrow> job list \<Rightarrow> string \<Rightarrow> qkv \<Rightarrow> qkv" where
  "rebuild_queue clock jobs queue s =
     fold (rebuild_job clock queue) (filter (\<lambda>j. job_queue j = queue) jobs) s"

definition queue_names :: "qkv \<Rightarrow> string set" where
  "queue_names s =
     (\<lambda>k. split_str CHR '':'' k ! 1) `
       {k \<in> list_job_keys ''queue:'' s. str_contains k '':jobs:'' \<and> 2 \<le> length (split_str CHR '':'' k)}"

definition rebuild_from_storage ::
    "(string set \<Rightarrow> string list) \<Rightarrow> (job \<Rightarrow> u64) \<Rightarrow> (string \<Rightarrow> i64) \<Rightarrow> queue_impl \<Rightarrow> queue_impl" where
  "rebuild_from_storage ord clock now q =
     (if \<not> has_queue_state ''queue:'' (q_store q) then
        let jobs = stored_jobs ord (q_store q)
        in with_store (fold (rebuild_queue clock jobs) (ord (job_queue ` set jobs))) q
      else fold (\<lambda>queue. move_delayed_to_waiting ord (now queue) queue) (ord (queue_names (q_store q))) q)"

section \<open>Migration of subscriber queues\<close>

definition move_job_record :: "string \<Rightarrow> string \<Rightarrow> string \<Rightarrow> qkv \<Rightarrow> job option \<times> qkv" where
  "move_job_record old new i s =
     (case (case get_job (job_key old i) s of Some v \<Rightarrow> Some v | None \<Rightarrow> get_job (job_key new i) s) of
        None \<Rightarrow> (None, s)
      | Some v \<Rightarrow>
          (case job_of_value v of
             None \<Rightarrow> (None, s)
           | Some j \<Rightarrow>
               let j = j\<lparr>job_queue := new\<rparr>
               in (Some j, delete_job (job_key old i) (set_job (job_key new i) (job_to_value j) s))))"

definition migrate_waiting :: "string \<Rightarrow> string \<Rightarrow> string \<Rightarrow> string \<Rightarrow> qkv \<Rightarrow> qkv" where
  "migrate_waiting old new src i s =
     (let s = snd (move_job_record old new i s);
          s = snd (lrem (waiting_key new) 0 i s);
          s = rpush (waiting_key new) i s
      in snd (lrem src 0 i s))"

definition migrate_delayed :: "string \<Rightarrow> string \<Rightarrow> string \<Rightarrow> qkv \<Rightarrow> qkv" where
  "migrate_delayed old new i s =
     (let (moved, s) = move_job_record old new i s;
          due = effective (Option.bind moved process_at) 0;
          s = snd (zrem (delayed_key new) i s);
          s = zadd (delayed_key new) due i s
      in snd (zrem (delayed_key old) i s))"

definition migrate_dead :: "string \<Rightarrow> string \<Rightarrow> string \<Rightarrow> qkv \<Rightarrow> qkv" where
  "migrate_dead old new payload s =
     (let s = snd (lrem (dlq_key new) 0 payload s);
          s = lpush (dlq_key new) payload s
      in snd (lrem (dlq_key old) 0 payload s))"

definition migrate_subscriber_queue ::
    "(string set \<Rightarrow> string list) \<Rightarrow> string \<Rightarrow> string \<Rightarrow> qkv \<Rightarrow> qkv" where
  "migrate_subscriber_queue ord old new s =
     (let s = fold (migrate_waiting old new (waiting_key old)) (list_at (waiting_key old) s) s;
          s = fold (migrate_waiting old new (active_key old)) (list_at (active_key old) s) s;
          s = fold (migrate_delayed old new) (zrangebyscore ord (delayed_key old) (- (2 ^ 63)) (2 ^ 63 - 1) s) s
      in fold (migrate_dead old new) (list_at (dlq_key old) s) s)"

definition is_legacy_subscriber_queue :: "string \<Rightarrow> char \<Rightarrow> bool" where
  "is_legacy_subscriber_queue name ns_sep \<longleftrightarrow>
     str_contains name ''::'' \<and> \<not> starts_with name ''__fn_queue::'' \<and> ns_sep \<notin> set name"

definition SUFFIXES :: "string list" where
  "SUFFIXES = ['':waiting'', '':active'', '':delayed'', '':dlq'']"

definition queue_base :: "string \<Rightarrow> string" where
  "queue_base rest = effective (List.find (\<lambda>x. True) (List.map_filter (\<lambda>suf. strip_suffix suf rest) SUFFIXES)) rest"

definition legacy_queues :: "char \<Rightarrow> qkv \<Rightarrow> string set" where
  "legacy_queues ns_sep s =
     {base \<in> queue_base ` Option.these (strip_prefix ''queue:'' ` list_structure_keys ''queue:'' s).
        is_legacy_subscriber_queue base ns_sep}"

definition migrate_legacy_subscriber_queues ::
    "(string set \<Rightarrow> string list) \<Rightarrow> char \<Rightarrow> string \<Rightarrow> queue_impl \<Rightarrow> nat \<times> queue_impl" where
  "migrate_legacy_subscriber_queues ord ns_sep default_ns q =
     (let legacy = ord (legacy_queues ns_sep (q_store q))
      in (length legacy,
          with_store (fold (\<lambda>old. migrate_subscriber_queue ord old (join_ns old default_ns ns_sep)) legacy) q))"

end
