(* ===== verification/Compose_Dag.thy ===== *)
theory Compose_Dag
  imports Prelude
begin

text \<open>
  The dependency graph of a compose project (\<open>crates/iii-compose/src/dag.rs\<close>): validation,
  start order, waves, outline, and what has to start or stop with a container.  The containers
  of a file are modelled as the list of their keys in declaration order, each with the keys it
  starts after; the other fields of a container play no part here.  A count that the code keeps
  as \<open>usize\<close> is a natural number, with the wrap-around of a decrement written out.
\<close>

section \<open>Model\<close>

type_synonym containers = "(string \<times> string list) list"

datatype compose_error = UnknownDependency string string | DependencyCycle string

definition start_after :: "containers \<Rightarrow> string \<Rightarrow> string list" where
  "start_after c key = (case map_of c key of None \<Rightarrow> [] | Some ds \<Rightarrow> ds)"

fun join_str :: "string \<Rightarrow> string list \<Rightarrow> string" where
  "join_str sep [] = []"
| "join_str sep [s] = s"
| "join_str sep (s # t # ss) = s @ sep @ join_str sep (t # ss)"

subsection \<open>Validation\<close>

definition dependency_pairs :: "containers \<Rightarrow> (string \<times> string) list" where
  "dependency_pairs c = concat (map (\<lambda>(key, ds). map (Pair key) ds) c)"

text \<open>
  \<open>visit\<close> with the loop over the dependencies as \<open>visit_all\<close>.  The path is restored when a
  visit succeeds, so it is an argument; the settled keys are threaded through.
\<close>

function (sequential) visit ::
    "containers \<Rightarrow> string \<Rightarrow> string set \<Rightarrow> string list \<Rightarrow> (compose_error, string set) result"
and visit_all ::
    "containers \<Rightarrow> string list \<Rightarrow> string set \<Rightarrow> string list \<Rightarrow> (compose_error, string set) result" where
  "visit c key settled on_path =
     (if key \<in> settled then Ok settled
      else if key \<in> set on_path
      then Err (DependencyCycle (join_str '' -> '' (dropWhile (\<lambda>k. k \<noteq> key) on_path @ [key])))
      else
        (case map_of c key of
           None \<Rightarrow> Ok (insert key settled)
         | Some ds \<Rightarrow>
             (case visit_all c ds settled (on_path @ [key]) of
                Err e \<Rightarrow> Err e
              | Ok settled \<Rightarrow> Ok (insert key settled))))"
| "visit_all c [] settled on_path = Ok settled"
| "visit_all c (d # ds) settled on_path =
     (case visit c d settled on_path of
        Err e \<Rightarrow> Err e
      | Ok settled \<Rightarrow> visit_all c ds settled on_path)"
  by pat_completeness auto

lemma path_measure:
  "map_of c key = Some ds \<Longrightarrow> key \<notin> set path \<Longrightarrow>
     card (fst ` set c - insert key (set path)) < card (fst ` set c - set path)"
proof -
  assume "map_of c key = Some ds" "key \<notin> set path"
  then have "key \<in> fst ` set c - set path" by (force dest: map_of_SomeD)
  moreover have "fst ` set c - insert key (set path) = (fst ` set c - set path) - {key}" by auto
  ultimately show ?thesis by (metis card_Diff1_less finite_Diff finite_imageI finite_set)
qed

termination visit
  by (relation "measures
        [\<lambda>x. case x of Inl (c, key, settled, path) \<Rightarrow> card (fst ` set c - set path)
                     | Inr (c, ds, settled, path) \<Rightarrow> card (fst ` set c - set path),
         \<lambda>x. case x of Inl _ \<Rightarrow> 0 | Inr (c, ds, settled, path) \<Rightarrow> Suc (length ds)]")
    (auto simp: path_measure)

declare visit.simps [simp del]

definition detect_cycle :: "containers \<Rightarrow> (compose_error, unit) result" where
  "detect_cycle c = (case visit_all c (map fst c) {} [] of Err e \<Rightarrow> Err e | Ok settled \<Rightarrow> Ok ())"

definition validate_dependencies :: "containers \<Rightarrow> (compose_error, unit) result" where
  "validate_dependencies c =
     (case find (\<lambda>(key, d). map_of c d = None) (dependency_pairs c) of
        Some (key, d) \<Rightarrow> Err (UnknownDependency key d)
      | None \<Rightarrow> detect_cycle c)"

subsection \<open>Start order\<close>

definition dependents :: "containers \<Rightarrow> string \<Rightarrow> string list" where
  "dependents c d = concat (map (\<lambda>(key, ds). map (\<lambda>x. key) (filter (\<lambda>x. x = d) ds)) c)"

definition initial_pending :: "containers \<Rightarrow> (string \<rightharpoonup> nat)" where
  "initial_pending c = map_of (map (\<lambda>(key, ds). (key, length ds)) c)"

definition decrement :: "nat \<Rightarrow> nat" where
  "decrement n = (if n = 0 then 2 ^ 64 - 1 else n - 1)"

definition release :: "string \<Rightarrow> (string \<rightharpoonup> nat) \<times> string list \<Rightarrow> (string \<rightharpoonup> nat) \<times> string list" where
  "release dependent s =
     (case fst s dependent of
        None \<Rightarrow> s
      | Some n \<Rightarrow> ((fst s)(dependent \<mapsto> decrement n),
                   if decrement n = 0 then snd s @ [dependent] else snd s))"

partial_function (option) topo_loop ::
    "containers \<Rightarrow> (string \<rightharpoonup> nat) \<Rightarrow> string list \<Rightarrow> string list \<Rightarrow> string list option" where
  "topo_loop c pending ready order =
     (case ready of
        [] \<Rightarrow> Some order
      | key # rest \<Rightarrow>
          (case fold release (dependents c key) (pending, rest) of
             (pending, ready) \<Rightarrow> topo_loop c pending ready (order @ [key])))"

definition topo_order :: "containers \<Rightarrow> (compose_error, string list) result option" where
  "topo_order c =
     (let pending = initial_pending c;
          ready = filter (\<lambda>key. pending key = Some 0) (map fst c)
      in case topo_loop c pending ready [] of
           None \<Rightarrow> None
         | Some order \<Rightarrow>
             Some (if length order \<noteq> length c then Err (DependencyCycle ''unresolved dependencies'')
                   else Ok order))"

subsection \<open>Waves\<close>

definition wave_of :: "containers \<Rightarrow> (string \<rightharpoonup> nat) \<Rightarrow> string \<Rightarrow> nat" where
  "wave_of c placed key =
     (case map_of c key of
        None \<Rightarrow> 0
      | Some ds \<Rightarrow>
          (case List.map_filter placed ds of [] \<Rightarrow> 0 | w # ws \<Rightarrow> Max (set (map Suc (w # ws)))))"

definition add_to_wave :: "nat \<Rightarrow> string \<Rightarrow> string list list \<Rightarrow> string list list" where
  "add_to_wave i key ws =
     (let ws = (if length ws \<le> i then ws @ replicate (i + 1 - length ws) [] else ws)
      in ws[i := ws ! i @ [key]])"

fun waves_from ::
    "containers \<Rightarrow> (string \<rightharpoonup> nat) \<Rightarrow> string list list \<Rightarrow> string list \<Rightarrow> string list list" where
  "waves_from c placed ws [] = ws"
| "waves_from c placed ws (key # order) =
     (let i = wave_of c placed key
      in waves_from c (placed(key \<mapsto> i)) (add_to_wave i key ws) order)"

definition waves :: "containers \<Rightarrow> string list \<Rightarrow> string list list" where
  "waves c order = waves_from c Map.empty [] order"

subsection \<open>Closures\<close>

function closure_loop :: "containers \<Rightarrow> string set \<Rightarrow> string list \<Rightarrow> string set" where
  "closure_loop c closure [] = closure"
| "closure_loop c closure (current # queue) =
     (if current \<in> closure then closure_loop c closure queue
      else closure_loop c (insert current closure) (queue @ start_after c current))"
  by pat_completeness auto

definition dependency_names :: "containers \<Rightarrow> string set" where
  "dependency_names c = (\<Union>(key, ds) \<in> set c. set ds)"

lemma start_after_names: "set (start_after c key) \<subseteq> dependency_names c"
  using map_of_SomeD [of c key]
  by (cases "map_of c key") (force simp: start_after_def dependency_names_def)+

lemma closure_measure:
  assumes "current \<notin> closure"
  shows "card ((dependency_names c \<union> set (queue @ start_after c current)) - insert current closure) <
    card ((dependency_names c \<union> set (current # queue)) - closure)"
proof (rule psubset_card_mono)
  show "finite ((dependency_names c \<union> set (current # queue)) - closure)"
    by (auto simp: dependency_names_def)
  show "(dependency_names c \<union> set (queue @ start_after c current)) - insert current closure \<subset>
      (dependency_names c \<union> set (current # queue)) - closure"
    using assms start_after_names [of c current] by auto
qed

termination closure_loop
proof (relation "measures
    [\<lambda>(c, closure, queue). card ((dependency_names c \<union> set queue) - closure),
     \<lambda>(c, closure, queue). length queue]", goal_cases)
  case (2 c closure current queue)
  then have "(dependency_names c \<union> set queue) - closure = (dependency_names c \<union> set (current # queue)) - closure"
    by auto
  then show ?case by simp
next
  case (3 c closure current queue)
  then show ?case using closure_measure [of current closure c queue] by simp
qed simp

definition dependency_closure :: "containers \<Rightarrow> string \<Rightarrow> string set" where
  "dependency_closure c key = closure_loop c {} [key]"

text \<open>One round of the search for dependents: the containers that start after \<open>current\<close>.\<close>

definition discover :: "string \<Rightarrow> string \<times> string list \<Rightarrow> string set \<times> string list \<Rightarrow> string set \<times> string list" where
  "discover current e s =
     (if current \<notin> set (snd e) \<or> fst e \<in> fst s then s else (insert (fst e) (fst s), snd s @ [fst e]))"

function dependents_loop :: "containers \<Rightarrow> string set \<Rightarrow> string list \<Rightarrow> string set" where
  "dependents_loop c discovered [] = discovered"
| "dependents_loop c discovered (current # queue) =
     (case fold (discover current) c (discovered, queue) of
        (discovered, queue) \<Rightarrow> dependents_loop c discovered queue)"
  by pat_completeness auto

lemma fold_discover:
  "\<exists>new. fold (discover current) es (found, queue) = (found \<union> set new, queue @ new) \<and>
     distinct new \<and> set new = {k. \<exists>ds. (k, ds) \<in> set es \<and> current \<in> set ds} - found"
proof (induction es arbitrary: found queue)
  case (Cons e es)
  obtain k ds where e: "e = (k, ds)" by (cases e)
  show ?case
  proof (cases "current \<in> set ds \<and> k \<notin> found")
    case True
    obtain new where "fold (discover current) es (insert k found, queue @ [k]) =
        (insert k found \<union> set new, (queue @ [k]) @ new)" "distinct new"
      "set new = {k. \<exists>ds. (k, ds) \<in> set es \<and> current \<in> set ds} - insert k found"
      using Cons.IH by blast
    moreover have "discover current e (found, queue) = (insert k found, queue @ [k])"
      using True by (simp add: e discover_def)
    ultimately show ?thesis using True by (intro exI [of _ "k # new"]) (auto simp: e)
  next
    case False
    obtain new where "fold (discover current) es (found, queue) = (found \<union> set new, queue @ new)"
      "distinct new" "set new = {k. \<exists>ds. (k, ds) \<in> set es \<and> current \<in> set ds} - found"
      using Cons.IH by blast
    moreover have "discover current e (found, queue) = (found, queue)"
      using False by (auto simp: e discover_def)
    ultimately show ?thesis using False by (intro exI [of _ new]) (auto simp: e)
  qed
qed simp

termination dependents_loop
proof (relation "measures
    [\<lambda>(c, found, queue). card (fst ` set c - found), \<lambda>(c, found, queue). length queue]", goal_cases)
  case (2 c found current queue found' queue')
  obtain new where new: "fold (discover current) c (found, queue) = (found \<union> set new, queue @ new)"
    "set new = {k. \<exists>ds. (k, ds) \<in> set c \<and> current \<in> set ds} - found"
    using fold_discover by blast
  show ?case
  proof (cases "new = []")
    case True
    then show ?thesis using 2 new by simp
  next
    case False
    then obtain k where "k \<in> set new" by (cases new) auto
    then have "k \<in> fst ` set c - found" "k \<notin> fst ` set c - (found \<union> set new)"
      unfolding new(2) by force+
    then have "fst ` set c - (found \<union> set new) \<subset> fst ` set c - found" by blast
    then have "card (fst ` set c - (found \<union> set new)) < card (fst ` set c - found)"
      by (intro psubset_card_mono) auto
    then show ?thesis using 2 new(1) by simp
  qed
qed simp

definition transitive_dependents :: "containers \<Rightarrow> string \<Rightarrow> string list" where
  "transitive_dependents c key =
     (let discovered = dependents_loop c {} [key]
      in case topo_order c of
           Some (Ok start_order) \<Rightarrow> filter (\<lambda>k. k \<in> discovered) (rev start_order)
         | _ \<Rightarrow> filter (\<lambda>k. k \<in> discovered) (map fst c))"

end
