(* ===== verification/Compose_Order.thy ===== *)
theory Compose_Order
  imports Compose_Dag
begin

text \<open>
  Correctness of the dependency graph of a compose project: what validation accepts and what it
  reports, the start order, the waves, and the sets of containers that start or stop together.
\<close>

section \<open>The graph\<close>

definition depends :: "containers \<Rightarrow> (string \<times> string) set" where
  "depends c = {(k, d). d \<in> set (start_after c k)}"

text \<open>What the file format guarantees: every key is declared once.\<close>

abbreviation declared_once :: "containers \<Rightarrow> bool" where
  "declared_once c \<equiv> distinct (map fst c)"

definition all_declared :: "containers \<Rightarrow> bool" where
  "all_declared c \<longleftrightarrow> dependency_names c \<subseteq> fst ` set c"

lemma start_after_declared: "map_of c k = Some ds \<Longrightarrow> start_after c k = ds"
  by (simp add: start_after_def)

lemma start_after_undeclared: "map_of c k = None \<Longrightarrow> start_after c k = []"
  by (simp add: start_after_def)

lemma depends_source: "(k, d) \<in> depends c \<Longrightarrow> k \<in> fst ` set c"
  by (cases "map_of c k") (force simp: depends_def start_after_def dest: map_of_SomeD)+

lemma depends_iff: "(k, d) \<in> depends c \<longleftrightarrow> d \<in> set (start_after c k)"
  by (simp add: depends_def)

lemma entry_start_after: "declared_once c \<Longrightarrow> (k, ds) \<in> set c \<Longrightarrow> start_after c k = ds"
  by (simp add: start_after_def)

lemma set_dependency_pairs: "declared_once c \<Longrightarrow> set (dependency_pairs c) = depends c"
  by (force simp: dependency_pairs_def depends_def start_after_def dest: map_of_SomeD split: option.splits)

lemma finite_depends: "finite (depends c)"
proof (rule finite_subset)
  show "depends c \<subseteq> fst ` set c \<times> dependency_names c"
    using start_after_names depends_source by (fastforce simp: depends_def)
  show "finite (fst ` set c \<times> dependency_names c)" by (auto simp: dependency_names_def)
qed

section \<open>Validation\<close>

text \<open>Settled keys: closed under dependencies, and on no cycle.\<close>

definition settled_ok :: "containers \<Rightarrow> string set \<Rightarrow> bool" where
  "settled_ok c S \<longleftrightarrow> (\<forall>k \<in> S. set (start_after c k) \<subseteq> S) \<and> (\<forall>k \<in> S. (k, k) \<notin> (depends c)\<^sup>+)"

lemma closed_reach: "settled_ok c S \<Longrightarrow> k \<in> S \<Longrightarrow> (k, d) \<in> (depends c)\<^sup>* \<Longrightarrow> d \<in> S"
  by (rotate_tac 2, induction rule: rtrancl_induct) (auto simp: settled_ok_def depends_def)

lemma settle:
  assumes "settled_ok c S" and "set (start_after c key) \<subseteq> S" and "key \<notin> S"
  shows "settled_ok c (insert key S)"
proof -
  have "(key, key) \<notin> (depends c)\<^sup>+"
  proof
    assume "(key, key) \<in> (depends c)\<^sup>+"
    then obtain d where "(key, d) \<in> depends c" "(d, key) \<in> (depends c)\<^sup>*" by (meson tranclD)
    with assms closed_reach [OF assms(1), of d key] show False by (auto simp: depends_def)
  qed
  then show ?thesis using assms by (auto simp: settled_ok_def)
qed

lemma visit_Ok:
  "visit c key S path = Ok S' \<Longrightarrow> settled_ok c S \<Longrightarrow> set path \<inter> S = {} \<Longrightarrow>
     settled_ok c S' \<and> S \<subseteq> S' \<and> key \<in> S' \<and> set path \<inter> S' = {}"
  "visit_all c ds S path = Ok S' \<Longrightarrow> settled_ok c S \<Longrightarrow> set path \<inter> S = {} \<Longrightarrow>
     settled_ok c S' \<and> S \<subseteq> S' \<and> set ds \<subseteq> S' \<and> set path \<inter> S' = {}"
proof (induction c key S path and c ds S path arbitrary: S' and S' rule: visit_visit_all.induct)
  case (1 c key S path)
  show ?case
  proof (cases "key \<in> S \<or> key \<in> set path")
    case True
    then show ?thesis using "1.prems" by (auto simp: visit.simps [of c key S path] split: if_splits)
  next
    case False
    show ?thesis
    proof (cases "map_of c key")
      case None
      then have "S' = insert key S" using "1.prems"(1) False by (auto simp: visit.simps [of c key S path])
      moreover have "settled_ok c (insert key S)"
        using "1.prems"(2) False None by (intro settle) (auto simp: start_after_undeclared)
      ultimately show ?thesis using "1.prems" False by auto
    next
      case (Some ds)
      obtain S1 where all: "visit_all c ds S (path @ [key]) = Ok S1" and S': "S' = insert key S1"
        using "1.prems"(1) False Some by (auto simp: visit.simps [of c key S path] split: sum.splits)
      have ih: "settled_ok c S1" "S \<subseteq> S1" "set ds \<subseteq> S1" "set (path @ [key]) \<inter> S1 = {}"
        using "1.IH" [OF _ _ Some all "1.prems"(2)] "1.prems"(3) False by auto
      moreover have "settled_ok c (insert key S1)"
        using ih by (intro settle) (auto simp: start_after_declared [OF Some])
      ultimately show ?thesis using S' False by auto
    qed
  qed
next
  case (3 c d ds S path)
  obtain S1 where d: "visit c d S path = Ok S1" and rest: "visit_all c ds S1 path = Ok S'"
    using "3.prems"(1) by (auto split: sum.splits)
  then show ?case using "3.IH"(1) [OF d "3.prems"(2,3)] "3.IH"(2) [OF d rest] by auto
qed simp

text \<open>A path of the graph, and a cycle as it is reported: the first key again at the end.\<close>

abbreviation dep_path :: "containers \<Rightarrow> string list \<Rightarrow> bool" where
  "dep_path c \<equiv> successively (\<lambda>a b. (a, b) \<in> depends c)"

definition is_cycle :: "containers \<Rightarrow> string list \<Rightarrow> bool" where
  "is_cycle c cyc \<longleftrightarrow> 2 \<le> length cyc \<and> hd cyc = last cyc \<and> dep_path c cyc"

lemma dep_path_reach: "dep_path c (k # ks) \<Longrightarrow> (k, last (k # ks)) \<in> (depends c)\<^sup>*"
  by (induction ks arbitrary: k) (auto intro: converse_rtrancl_into_rtrancl)

lemma cycle_trancl: "is_cycle c cyc \<Longrightarrow> (hd cyc, hd cyc) \<in> (depends c)\<^sup>+"
proof -
  assume cyc: "is_cycle c cyc"
  then obtain a b ks where "cyc = a # b # ks"
    by (metis is_cycle_def length_0_conv length_Cons list.exhaust numeral_2_eq_2 not_less_eq_eq zero_le)
  then show ?thesis
    using cyc dep_path_reach [of c b ks] by (auto simp: is_cycle_def intro: rtrancl_into_trancl2)
qed

lemma cycle_on_path:
  assumes "dep_path c (path @ [key])" and "key \<in> set path"
  shows "is_cycle c (dropWhile (\<lambda>k. k \<noteq> key) path @ [key])"
proof -
  obtain rest where rest: "dropWhile (\<lambda>k. k \<noteq> key) path = key # rest"
    using assms(2) by (metis (mono_tags, lifting) dropWhile_eq_Nil_conv hd_dropWhile list.collapse)
  have "path @ [key] = takeWhile (\<lambda>k. k \<noteq> key) path @ (dropWhile (\<lambda>k. k \<noteq> key) path @ [key])" by simp
  then have "dep_path c (dropWhile (\<lambda>k. k \<noteq> key) path @ [key])"
    using assms(1) by (metis successively_append_iff)
  then show ?thesis by (simp add: is_cycle_def rest)
qed

lemma visit_Err:
  "visit c key S path = Err e \<Longrightarrow> dep_path c (path @ [key]) \<Longrightarrow>
     \<exists>cyc. e = DependencyCycle (join_str '' -> '' cyc) \<and> is_cycle c cyc"
  "visit_all c ds S path = Err e \<Longrightarrow> (\<And>d. d \<in> set ds \<Longrightarrow> dep_path c (path @ [d])) \<Longrightarrow>
     \<exists>cyc. e = DependencyCycle (join_str '' -> '' cyc) \<and> is_cycle c cyc"
proof (induction c key S path and c ds S path rule: visit_visit_all.induct)
  case (1 c key S path)
  show ?case
  proof (cases "key \<in> set path \<and> key \<notin> S")
    case True
    then show ?thesis
      using "1.prems" cycle_on_path [of c path key] by (auto simp: visit.simps [of c key S path])
  next
    case False
    then have notin: "key \<notin> S" "key \<notin> set path"
      using "1.prems"(1) by (auto simp: visit.simps [of c key S path] split: if_splits)
    then obtain ds where ds: "map_of c key = Some ds" "visit_all c ds S (path @ [key]) = Err e"
      using "1.prems"(1) by (auto simp: visit.simps [of c key S path] split: option.splits sum.splits)
    show ?thesis
    proof (rule "1.IH" [OF notin ds])
      show "dep_path c ((path @ [key]) @ [d])" if "d \<in> set ds" for d
        using that "1.prems"(2) by (auto simp: successively_append_iff depends_def start_after_declared [OF ds(1)])
    qed
  qed
next
  case (3 c d ds S path)
  then show ?case by (auto split: sum.splits)
qed simp

lemma settled_ok_empty: "settled_ok c {}"
  by (simp add: settled_ok_def)

lemma detect_cycle_Ok:
  "detect_cycle c = Ok () \<Longrightarrow> acyclic (depends c)"
proof -
  assume "detect_cycle c = Ok ()"
  then obtain S where "visit_all c (map fst c) {} [] = Ok S" by (auto simp: detect_cycle_def split: sum.splits)
  from visit_Ok(2) [OF this settled_ok_empty] have S: "settled_ok c S" "fst ` set c \<subseteq> S" by auto
  show "acyclic (depends c)"
  proof (rule acyclicI, rule allI)
    show "(k, k) \<notin> (depends c)\<^sup>+" for k
      using S depends_source by (metis settled_ok_def subsetD tranclD)
  qed
qed

lemma detect_cycle_Err:
  "detect_cycle c = Err e \<Longrightarrow> \<exists>cyc. e = DependencyCycle (join_str '' -> '' cyc) \<and> is_cycle c cyc"
  using visit_Err(2) [of c "map fst c" "{}" "[]" e] by (auto simp: detect_cycle_def split: sum.splits)

lemma names_of_pairs: "snd ` set (dependency_pairs c) = dependency_names c"
  by (force simp: dependency_pairs_def dependency_names_def)

lemma unknown_dependency: "find (\<lambda>(key, d). map_of c d = None) (dependency_pairs c) = None \<longleftrightarrow> all_declared c"
  unfolding all_declared_def names_of_pairs [symmetric] find_None_iff map_of_eq_None_iff by force

section \<open>The start order\<close>

text \<open>The effect of releasing a list of dependents on the counts and on the ready queue.\<close>

lemma fold_release:
  assumes "\<forall>k. count_list ds k \<le> (case pending k of None \<Rightarrow> 0 | Some n \<Rightarrow> n)"
  shows "\<exists>new. fold release ds (pending, ready) =
      ((\<lambda>k. map_option (\<lambda>n. n - count_list ds k) (pending k)), ready @ new) \<and> distinct new \<and>
      set new = {k. 0 < count_list ds k \<and> pending k = Some (count_list ds k)}"
  using assms
proof (induction ds arbitrary: pending ready)
  case Nil
  then show ?case by (auto simp: option.map_ident)
next
  case (Cons d ds)
  have "0 < (case pending d of None \<Rightarrow> 0 | Some n \<Rightarrow> n)" using Cons.prems [rule_format, of d] by (auto split: if_splits)
  then obtain n where n: "pending d = Some (Suc n)" by (auto split: option.splits dest: gr0_implies_Suc)
  let ?p = "pending(d \<mapsto> n)" and ?r = "if n = 0 then ready @ [d] else ready"
  have step: "release d (pending, ready) = (?p, ?r)" by (simp add: release_def n decrement_def)
  have "\<forall>k. count_list ds k \<le> (case ?p k of None \<Rightarrow> 0 | Some n \<Rightarrow> n)"
  proof
    show "count_list ds k \<le> (case ?p k of None \<Rightarrow> 0 | Some n \<Rightarrow> n)" for k
      using Cons.prems [rule_format, of k] n by (auto split: if_splits)
  qed
  from Cons.IH [OF this, of ?r] obtain new where new: "fold release ds (?p, ?r) =
      ((\<lambda>k. map_option (\<lambda>m. m - count_list ds k) (?p k)), ?r @ new)" "distinct new"
      "set new = {k. 0 < count_list ds k \<and> ?p k = Some (count_list ds k)}" by blast
  have p: "map_option (\<lambda>m. m - count_list ds k) (?p k) = map_option (\<lambda>m. m - count_list (d # ds) k) (pending k)" for k
    using n by auto
  have d: "d \<notin> set new" if "n = 0" using new(3) that by auto
  have "k \<in> set ((if n = 0 then [d] else []) @ new) \<longleftrightarrow>
      0 < count_list (d # ds) k \<and> pending k = Some (count_list (d # ds) k)" for k
  proof (cases "k = d")
    case True
    then show ?thesis using n Cons.prems [rule_format, of d] by (cases "n = 0") (auto simp: new(3))
  next
    case False
    then show ?thesis by (simp add: new(3))
  qed
  then have "set ((if n = 0 then [d] else []) @ new) =
      {k. 0 < count_list (d # ds) k \<and> pending k = Some (count_list (d # ds) k)}" by blast
  moreover have "distinct ((if n = 0 then [d] else []) @ new)" using new(2) d by simp
  moreover have "fold release (d # ds) (pending, ready) =
      ((\<lambda>k. map_option (\<lambda>m. m - count_list (d # ds) k) (pending k)), ready @ (if n = 0 then [d] else []) @ new)"
    using new(1) by (simp add: step p del: fun_upd_apply)
  ultimately show ?case by blast
qed

lemma count_dependents:
  "declared_once c \<Longrightarrow> count_list (dependents c d) k = count_list (start_after c k) d"
proof (induction c)
  case (Cons e c)
  obtain k' ds where e: "e = (k', ds)" by (cases e)
  have own: "count_list (map (\<lambda>x. k') (filter (\<lambda>x. x = d) ds)) k = (if k = k' then count_list ds d else 0)"
    by (induction ds) auto
  have "count_list (dependents c d) k' = 0"
    using Cons.prems Cons.IH by (simp add: e start_after_def dom_map_of_conv_image_fst map_of_eq_None_iff dependents_def)
      (force simp: count_list_0_iff)
  then show ?case using Cons own by (auto simp: e dependents_def start_after_def)
qed (simp add: dependents_def start_after_def)

text \<open>A list in which every key comes after the keys it depends on.\<close>

definition ordered :: "containers \<Rightarrow> string list \<Rightarrow> bool" where
  "ordered c order \<longleftrightarrow> (\<forall>pre k post. order = pre @ k # post \<longrightarrow> set (start_after c k) \<subseteq> set pre)"

lemma ordered_snoc: "ordered c order \<Longrightarrow> set (start_after c key) \<subseteq> set order \<Longrightarrow> ordered c (order @ [key])"
  unfolding ordered_def by (metis append_eq_append_conv2 append_eq_Cons_conv butlast.simps(2) butlast_append
      butlast_snoc last_appendR last_snoc list.discI last.simps append_Nil2 butlast_append)

definition open_deps :: "containers \<Rightarrow> string list \<Rightarrow> string \<Rightarrow> nat" where
  "open_deps c order k = length (filter (\<lambda>d. d \<notin> set order) (start_after c k))"

lemma open_deps_snoc:
  assumes "key \<notin> set order"
  shows "open_deps c order k = open_deps c (order @ [key]) k + count_list (start_after c k) key"
proof -
  have "length (filter (\<lambda>d. d \<notin> set order) ds) =
      length (filter (\<lambda>d. d \<notin> set (order @ [key])) ds) + count_list ds key" for ds
    using assms by (induction ds) auto
  then show ?thesis by (simp add: open_deps_def)
qed

definition kahn :: "containers \<Rightarrow> (string \<rightharpoonup> nat) \<Rightarrow> string list \<Rightarrow> string list \<Rightarrow> bool" where
  "kahn c pending ready order \<longleftrightarrow>
     distinct (order @ ready) \<and> set (order @ ready) \<subseteq> fst ` set c \<and>
     (\<forall>k. pending k = (if k \<in> fst ` set c then Some (open_deps c order k) else None)) \<and>
     (\<forall>k \<in> fst ` set c. k \<in> set (order @ ready) \<longleftrightarrow> open_deps c order k = 0) \<and> ordered c order"

lemma kahn_start:
  assumes "declared_once c"
  shows "kahn c (initial_pending c) (filter (\<lambda>k. initial_pending c k = Some 0) (map fst c)) []"
proof -
  have pending: "initial_pending c k = (if k \<in> fst ` set c then Some (open_deps c [] k) else None)" for k
  proof -
    have "initial_pending c k = map_option length (map_of c k)"
      by (induction c) (auto simp: initial_pending_def)
    then show ?thesis
      by (cases "map_of c k") (auto simp: open_deps_def start_after_def map_of_eq_None_iff dest: map_of_SomeD
          intro: rev_image_eqI)
  qed
  then show ?thesis using assms by (auto simp: kahn_def ordered_def)
qed

lemma kahn_step:
  assumes inv: "kahn c pending (key # rest) order" and once: "declared_once c"
  shows "\<exists>pending' new. fold release (dependents c key) (pending, rest) = (pending', rest @ new) \<and>
    kahn c pending' (rest @ new) (order @ [key])"
proof -
  from inv have pending: "pending k = (if k \<in> fst ` set c then Some (open_deps c order k) else None)"
    and ready: "k \<in> fst ` set c \<Longrightarrow> k \<in> set (order @ key # rest) \<longleftrightarrow> open_deps c order k = 0"
    and dist: "distinct (order @ key # rest)" and keys: "set (order @ key # rest) \<subseteq> fst ` set c"
    and ord: "ordered c order" for k by (auto simp: kahn_def)
  have split: "open_deps c order k = open_deps c (order @ [key]) k + count_list (dependents c key) k" for k
    using open_deps_snoc [of key order c k] dist by (simp add: count_dependents [OF once])
  have none: "count_list (dependents c key) k = 0" if "k \<notin> fst ` set c" for k
    using that by (simp add: count_dependents [OF once] start_after_undeclared map_of_eq_None_iff)
  have "\<forall>k. count_list (dependents c key) k \<le> (case pending k of None \<Rightarrow> 0 | Some n \<Rightarrow> n)"
  proof
    show "count_list (dependents c key) k \<le> (case pending k of None \<Rightarrow> 0 | Some n \<Rightarrow> n)" for k
      using split [of k] none [of k] by (simp add: pending)
  qed
  from fold_release [OF this, of rest] obtain new where fold: "fold release (dependents c key) (pending, rest) =
      ((\<lambda>k. map_option (\<lambda>n. n - count_list (dependents c key) k) (pending k)), rest @ new)"
    and new: "distinct new"
      "set new = {k. 0 < count_list (dependents c key) k \<and> pending k = Some (count_list (dependents c key) k)}"
    by blast
  let ?p = "\<lambda>k. map_option (\<lambda>n. n - count_list (dependents c key) k) (pending k)"
  have p: "?p k = (if k \<in> fst ` set c then Some (open_deps c (order @ [key]) k) else None)" for k
    using split [of k] by (simp add: pending)
  have in_new: "k \<in> set new \<longleftrightarrow> k \<in> fst ` set c \<and> 0 < open_deps c order k \<and> open_deps c (order @ [key]) k = 0" for k
    using split [of k] by (auto simp: new(2) pending)
  have "set new \<inter> set (order @ key # rest) = {}"
  proof (rule equals0I)
    show False if "k \<in> set new \<inter> set (order @ key # rest)" for k
      using that ready [of k] in_new [of k] by simp
  qed
  moreover have "set (start_after c key) \<subseteq> set order"
    using ready [of key] keys by (auto simp: open_deps_def filter_empty_conv)
  moreover have "k \<in> set ((order @ [key]) @ rest @ new) \<longleftrightarrow> open_deps c (order @ [key]) k = 0"
    if "k \<in> fst ` set c" for k
    using ready [OF that] in_new [of k] split [of k] that by auto
  ultimately have "kahn c ?p (rest @ new) (order @ [key])"
    using dist keys new(1) in_new p ord unfolding kahn_def by (auto intro: ordered_snoc)
  with fold show ?thesis by blast
qed

lemma kahn_room: "kahn c pending (key # rest) order \<Longrightarrow> length order < card (fst ` set c)"
proof -
  assume inv: "kahn c pending (key # rest) order"
  then have "card (set (order @ key # rest)) \<le> card (fst ` set c)"
    by (intro card_mono) (auto simp: kahn_def)
  then show ?thesis using distinct_card [of "order @ key # rest"] inv by (auto simp: kahn_def)
qed

lemma topo_loop_ends:
  assumes "kahn c pending ready order" and "declared_once c"
  shows "\<exists>result pending'. topo_loop c pending ready order = Some result \<and> kahn c pending' [] result"
  using assms(1)
proof (induction "card (fst ` set c) - length order" arbitrary: pending ready order rule: less_induct)
  case less
  show ?case
  proof (cases ready)
    case Nil
    then show ?thesis using less.prems topo_loop.simps [of c pending "[]" order] by auto
  next
    case (Cons key rest)
    obtain pending' new where step: "fold release (dependents c key) (pending, rest) = (pending', rest @ new)"
      "kahn c pending' (rest @ new) (order @ [key])"
      using kahn_step [OF less.prems [unfolded Cons] assms(2)] by blast
    have "card (fst ` set c) - length (order @ [key]) < card (fst ` set c) - length order"
      using kahn_room [OF less.prems [unfolded Cons]] by simp
    from less.hyps [OF this step(2)] show ?thesis
      using topo_loop.simps [of c pending "key # rest" order] by (simp add: step(1) Cons)
  qed
qed

lemma ordered_acyclic:
  assumes "ordered c order" and "fst ` set c \<subseteq> set order"
  shows "acyclic (depends c)"
proof -
  define f where "f k = length (takeWhile (\<lambda>x. x \<noteq> k) order)" for k
  have "f d < f k" if "(k, d) \<in> depends c" for k d
  proof -
    have "k \<in> set order" using depends_source [OF that] assms(2) by blast
    then obtain pre post where k: "order = pre @ k # post" "k \<notin> set pre"
      by (metis split_list_first)
    have d: "d \<in> set pre" using assms(1) that k(1) by (auto simp: ordered_def depends_def)
    have "takeWhile (\<lambda>x. x \<noteq> k) (pre @ k # post) = pre" using k(2) by (induction pre) auto
    then have "f k = length pre" by (simp add: f_def k(1))
    moreover have "f d = length (takeWhile (\<lambda>x. x \<noteq> d) pre)" using k(1) d by (auto simp: f_def takeWhile_append1)
    moreover have "length (takeWhile (\<lambda>x. x \<noteq> d) pre) < length pre"
      using d by (induction pre) auto
    ultimately show ?thesis by simp
  qed
  then have "(depends c)\<inverse> \<subseteq> measure f" by auto
  then have "wf ((depends c)\<inverse>)" by (rule wf_subset [OF wf_measure])
  then show ?thesis using wf_acyclic acyclic_converse by blast
qed

lemma kahn_complete:
  assumes inv: "kahn c pending [] order" and "acyclic (depends c)" and "all_declared c"
  shows "set order = fst ` set c"
proof (rule ccontr)
  assume ne: "set order \<noteq> fst ` set c"
  define U where "U = fst ` set c - set order"
  have "U \<noteq> {}" using ne inv by (auto simp: U_def kahn_def)
  moreover have "wf ((depends c)\<inverse>)" using finite_depends assms(2) by (rule finite_acyclic_wf_converse)
  ultimately obtain k where k: "k \<in> U" "\<And>d. (k, d) \<in> depends c \<Longrightarrow> d \<notin> U"
    by (metis converse_iff wf_eq_minimal all_not_in_conv)
  then have "open_deps c order k \<noteq> 0" using inv by (auto simp: kahn_def U_def)
  then obtain d where "d \<in> set (start_after c k)" "d \<notin> set order"
    by (auto simp: open_deps_def filter_empty_conv)
  moreover from this have "d \<in> fst ` set c"
    using assms(3) start_after_names [of c k] by (auto simp: all_declared_def)
  ultimately show False using k(2) [of d] by (auto simp: U_def depends_def)
qed

lemma topo_order_cases:
  assumes "declared_once c"
  obtains order pending where "kahn c pending [] order"
    "topo_order c = Some (if length order \<noteq> length c then Err (DependencyCycle ''unresolved dependencies'') else Ok order)"
proof -
  from topo_loop_ends [OF kahn_start [OF assms] assms] that show thesis
    by (auto simp: topo_order_def Let_def)
qed

lemma order_full:
  assumes "declared_once c" and "kahn c pending [] order"
  shows "length order = length c \<longleftrightarrow> set order = fst ` set c"
proof -
  have card: "card (set order) = length order" "card (fst ` set c) = length c"
    using assms distinct_card [of order] distinct_card [of "map fst c"] by (auto simp: kahn_def)
  then show ?thesis using card_subset_eq [of "fst ` set c" "set order"] assms(2) by (auto simp: kahn_def)
qed

lemma topo_order_Ok:
  assumes "declared_once c" and "acyclic (depends c)" and "all_declared c"
  obtains order where "topo_order c = Some (Ok order)" "distinct order" "set order = fst ` set c" "ordered c order"
proof -
  obtain order pending where k: "kahn c pending [] order"
    "topo_order c = Some (if length order \<noteq> length c then Err (DependencyCycle ''unresolved dependencies'') else Ok order)"
    using topo_order_cases [OF assms(1)] by blast
  have "set order = fst ` set c" using kahn_complete [OF k(1) assms(2,3)] .
  then show thesis using k order_full [OF assms(1) k(1)] that by (auto simp: kahn_def)
qed

lemma topo_order_Err:
  assumes "declared_once c" and "\<not> acyclic (depends c)"
  shows "topo_order c = Some (Err (DependencyCycle ''unresolved dependencies''))"
proof -
  obtain order pending where k: "kahn c pending [] order"
    "topo_order c = Some (if length order \<noteq> length c then Err (DependencyCycle ''unresolved dependencies'') else Ok order)"
    using topo_order_cases [OF assms(1)] by blast
  have "set order \<noteq> fst ` set c" using ordered_acyclic [of c order] k(1) assms(2) by (auto simp: kahn_def)
  then show ?thesis using k(2) order_full [OF assms(1) k(1)] by simp
qed

section \<open>Closures\<close>

lemma reach_unfold: "R\<^sup>* `` {a} = insert a (R\<^sup>* `` (R `` {a}))"
  by (auto intro: converse_rtrancl_into_rtrancl elim: converse_rtranclE)

lemma closure_loop_result:
  assumes "\<forall>k \<in> closure. set (start_after c k) \<subseteq> closure \<union> set queue"
  shows "closure_loop c closure queue = closure \<union> (depends c)\<^sup>* `` set queue"
  using assms
proof (induction c closure queue rule: closure_loop.induct)
  case (1 c closure)
  then show ?case by simp
next
  case (2 c closure current queue)
  show ?case
  proof (cases "current \<in> closure")
    case True
    then have ih: "closure_loop c closure queue = closure \<union> (depends c)\<^sup>* `` set queue"
      using 2 by auto
    have "d \<in> closure \<union> (depends c)\<^sup>* `` set queue" if "(current, d) \<in> (depends c)\<^sup>*" for d
      using that
    proof (induction rule: rtrancl_induct)
      case (step x y)
      then show ?case using "2.prems" True by (auto simp: depends_def intro: rtrancl_into_rtrancl)
    qed (simp add: True)
    then show ?thesis using ih True by auto
  next
    case False
    have reach: "(depends c)\<^sup>* `` set (queue @ start_after c current) \<union> {current} =
        (depends c)\<^sup>* `` set (current # queue)"
      using reach_unfold [of "depends c" current] by (auto simp: depends_def)
    have "closure_loop c (insert current closure) (queue @ start_after c current) =
        insert current closure \<union> (depends c)\<^sup>* `` set (queue @ start_after c current)"
      using "2.prems" False by (intro "2.IH"(2)) auto
    then show ?thesis using reach False by auto
  qed
qed

text \<open>A walk that starts in a set that is closed except at the queue ends in it or behind the queue.\<close>

lemma closed_walk:
  assumes "(y, x) \<in> R\<^sup>*" and "y \<in> F" and "\<forall>d \<in> F - Q. R `` {d} \<subseteq> F"
  shows "x \<in> F \<union> R\<^sup>+ `` Q"
  using assms(1)
proof (induction rule: rtrancl_induct)
  case (step x z)
  then show ?case using assms(3) by (cases "x \<in> F - Q") (auto intro: trancl_into_trancl)
qed (simp add: assms(2))

lemma dependents_loop_result:
  assumes "declared_once c" and "\<forall>d \<in> found - set queue. ((depends c)\<inverse>) `` {d} \<subseteq> found"
  shows "dependents_loop c found queue = found \<union> ((depends c)\<inverse>)\<^sup>+ `` set queue"
  using assms
proof (induction c found queue rule: dependents_loop.induct)
  case (2 c found current queue)
  let ?P = "(depends c)\<inverse>"
  have preds: "{k. \<exists>ds. (k, ds) \<in> set c \<and> current \<in> set ds} = ?P `` {current}"
    using "2.prems"(1) by (auto simp: depends_def entry_start_after start_after_def dest: map_of_SomeD split: option.splits)
  obtain new where new: "fold (discover current) c (found, queue) = (found \<union> set new, queue @ new)"
    "set new = ?P `` {current} - found" using fold_discover [of current c found queue] unfolding preds by blast
  let ?F = "found \<union> set new" and ?Q = "set (queue @ new)"
  have closed: "\<forall>d \<in> ?F - ?Q. ?P `` {d} \<subseteq> ?F"
    using "2.prems"(2) new(2) by (cases "current \<in> found") auto
  have "dependents_loop c ?F (queue @ new) = ?F \<union> ?P\<^sup>+ `` ?Q"
    using "2.IH" [OF new(1) [symmetric] "2.prems"(1) closed] .
  moreover have "?F \<union> ?P\<^sup>+ `` ?Q \<subseteq> found \<union> ?P\<^sup>+ `` set (current # queue)"
    using new(2) by (auto intro: trancl_into_trancl2)
  moreover have "x \<in> ?F \<union> ?P\<^sup>+ `` ?Q" if "(current, x) \<in> ?P\<^sup>+" for x
  proof -
    from that obtain y where "(current, y) \<in> ?P" "(y, x) \<in> ?P\<^sup>*" by (meson tranclD)
    then show ?thesis using closed_walk [of y x ?P ?F ?Q] closed new(2) by auto
  qed
  ultimately show ?case using new(1) by auto
qed simp

section \<open>Waves\<close>

text \<open>
  After some keys have been placed, the waves hold exactly these keys, each in the wave it was
  given, and a key sits one wave above its dependencies at least.
\<close>

definition placed_in :: "(string \<rightharpoonup> nat) \<Rightarrow> string list list \<Rightarrow> bool" where
  "placed_in placed ws \<longleftrightarrow>
     (\<forall>i < length ws. \<forall>k \<in> set (ws ! i). placed k = Some i) \<and>
     (\<forall>k i. placed k = Some i \<longrightarrow> i < length ws \<and> k \<in> set (ws ! i)) \<and> distinct (concat ws)"

lemma add_to_wave_nth:
  "length (add_to_wave i key ws) = max (length ws) (Suc i)"
  "j < length (add_to_wave i key ws) \<Longrightarrow>
     add_to_wave i key ws ! j = (if j < length ws then ws ! j else []) @ (if j = i then [key] else [])"
  by (auto simp: add_to_wave_def Let_def nth_append nth_list_update)

lemma mset_add_to_wave: "mset (concat (add_to_wave i key ws)) = add_mset key (mset (concat ws))"
proof -
  let ?ws = "if length ws \<le> i then ws @ replicate (i + 1 - length ws) [] else ws"
  have i: "i < length ?ws" by simp
  have "mset (concat (?ws[i := ?ws ! i @ [key]])) = add_mset key (mset (concat ?ws))"
    using i by (subst (3) id_take_nth_drop [OF i]) (simp only: upd_conv_take_nth_drop [OF i], simp)
  moreover have "concat ?ws = concat ws" by simp
  ultimately show ?thesis by (simp add: add_to_wave_def Let_def)
qed

lemma placed_in_add:
  assumes "placed_in placed ws" and "placed key = None"
  shows "placed_in (placed(key \<mapsto> i)) (add_to_wave i key ws)"
proof -
  have nth: "placed k = Some j" if "j < length ws" "k \<in> set (ws ! j)" for j k
    using that assms(1) unfolding placed_in_def by blast
  have "w \<in> set ws \<Longrightarrow> key \<notin> set w" for w
    using nth assms(2) by (metis in_set_conv_nth option.distinct(1))
  then have new: "key \<notin> set (concat ws)" by auto
  have "distinct (concat ws)" using assms(1) unfolding placed_in_def by blast
  then have "distinct (key # concat ws)" using new by simp
  then have dist: "distinct (concat (add_to_wave i key ws))"
    using mset_eq_imp_distinct_iff [of "concat (add_to_wave i key ws)" "key # concat ws"]
    by (simp add: mset_add_to_wave)
  have given: "(placed(key \<mapsto> i)) k = Some j"
    if "j < length (add_to_wave i key ws)" "k \<in> set (add_to_wave i key ws ! j)" for j k
  proof -
    have "j < length ws \<and> k \<in> set (ws ! j) \<or> j = i \<and> k = key"
      using that(2) unfolding add_to_wave_nth(2) [OF that(1)] by (auto split: if_splits)
    then show ?thesis using nth [of j k] assms(2) by auto
  qed
  have there: "j < length (add_to_wave i key ws) \<and> k \<in> set (add_to_wave i key ws ! j)"
    if "(placed(key \<mapsto> i)) k = Some j" for j k
  proof (cases "k = key")
    case True
    then show ?thesis using that by (simp add: add_to_wave_nth)
  next
    case False
    then have "placed k = Some j" using that by simp
    then have "j < length ws" "k \<in> set (ws ! j)" using assms(1) unfolding placed_in_def by blast+
    then show ?thesis by (simp add: add_to_wave_nth)
  qed
  show ?thesis
    unfolding placed_in_def
  proof (intro conjI allI impI ballI)
    show "(placed(key \<mapsto> i)) k = Some j"
      if "j < length (add_to_wave i key ws)" "k \<in> set (add_to_wave i key ws ! j)" for j k
      using that by (rule given)
    show "j < length (add_to_wave i key ws)" "k \<in> set (add_to_wave i key ws ! j)"
      if "(placed(key \<mapsto> i)) k = Some j" for k j
      using there [OF that] by blast+
  qed (rule dist)
qed

lemma placed_in_at:
  assumes "placed_in placed ws"
  shows "placed k = Some i \<longleftrightarrow> i < length ws \<and> k \<in> set (ws ! i)"
  using assms unfolding placed_in_def by blast

lemma placed_in_set:
  assumes "placed_in placed ws"
  shows "set (concat ws) = dom placed"
proof (rule set_eqI)
  show "k \<in> set (concat ws) \<longleftrightarrow> k \<in> dom placed" for k
    using placed_in_at [OF assms, of k] by (simp add: dom_def set_conv_nth [of ws]) blast
qed

lemma wave_above:
  assumes "d \<in> set (start_after c key)" and "placed d = Some i"
  shows "i < wave_of c placed key"
proof -
  obtain ds where ds: "map_of c key = Some ds" "d \<in> set ds"
    using assms(1) by (cases "map_of c key") (auto simp: start_after_def)
  then have mem: "i \<in> set (List.map_filter placed ds)"
    using assms(2) by (force simp: List.map_filter_def)
  then obtain w ws where ws: "List.map_filter placed ds = w # ws" by (cases "List.map_filter placed ds") auto
  have "Suc i \<le> Max (set (map Suc (w # ws)))" using mem by (intro Max_ge) (auto simp: ws)
  then show ?thesis using ds(1) ws by (simp add: wave_of_def)
qed

lemma waves_from_result:
  assumes "placed_in placed ws" and "distinct order" and "\<forall>k \<in> set order. placed k = None"
    and "\<forall>pre k post. order = pre @ k # post \<longrightarrow> set (start_after c k) \<inter> set post = {}"
    and "\<forall>k d i j. placed k = Some i \<longrightarrow> placed d = Some j \<longrightarrow> d \<in> set (start_after c k) \<longrightarrow> j < i"
    and "\<forall>k. placed k \<noteq> None \<longrightarrow> set (start_after c k) \<inter> set order = {}"
    and "\<forall>k \<in> set order. k \<notin> set (start_after c k)"
  shows "\<exists>placed'. placed_in placed' (waves_from c placed ws order) \<and> dom placed' = dom placed \<union> set order \<and>
    (\<forall>k d i j. placed' k = Some i \<longrightarrow> placed' d = Some j \<longrightarrow> d \<in> set (start_after c k) \<longrightarrow> j < i)"
  using assms
proof (induction order arbitrary: placed ws)
  case Nil
  then show ?case by auto
next
  case (Cons key order)
  let ?i = "wave_of c placed key"
  let ?p = "placed(key \<mapsto> ?i)"
  have "\<exists>placed'. placed_in placed' (waves_from c ?p (add_to_wave ?i key ws) order) \<and>
      dom placed' = dom ?p \<union> set order \<and>
      (\<forall>k d i j. placed' k = Some i \<longrightarrow> placed' d = Some j \<longrightarrow> d \<in> set (start_after c k) \<longrightarrow> j < i)"
  proof (rule Cons.IH)
    show "placed_in ?p (add_to_wave ?i key ws)" using Cons.prems(1,3) by (intro placed_in_add) auto
    show "distinct order" "\<forall>k \<in> set order. ?p k = None" "\<forall>k \<in> set order. k \<notin> set (start_after c k)"
      using Cons.prems(2,3,7) by auto
    show "\<forall>pre k post. order = pre @ k # post \<longrightarrow> set (start_after c k) \<inter> set post = {}"
      using Cons.prems(4) by (metis append_Cons)
    have first: "set (start_after c key) \<inter> set order = {}" using Cons.prems(4) by (metis append_Nil)
    show "\<forall>k. ?p k \<noteq> None \<longrightarrow> set (start_after c k) \<inter> set order = {}"
      using Cons.prems(6) first by (auto split: if_splits)
    show "\<forall>k d i j. ?p k = Some i \<longrightarrow> ?p d = Some j \<longrightarrow> d \<in> set (start_after c k) \<longrightarrow> j < i"
    proof (intro allI impI)
      fix k d i j
      assume kd: "?p k = Some i" "?p d = Some j" "d \<in> set (start_after c k)"
      have "d \<noteq> key \<or> k \<noteq> key" using kd(3) Cons.prems(7) by auto
      moreover have "d \<noteq> key" if "k \<noteq> key"
        using kd that Cons.prems(6) by (metis (no_types, lifting) disjoint_iff fun_upd_other list.set_intros(1) option.distinct(1))
      ultimately show "j < i"
        using kd wave_above [of d c key placed j] Cons.prems(5) by (cases "k = key") auto
    qed
  qed
  then show ?case by (auto simp: Let_def)
qed

lemma filter_split:
  "filter P xs = pre @ k # post \<Longrightarrow> \<exists>us ws. xs = us @ k # ws \<and> set pre \<subseteq> set us"
proof (induction xs arbitrary: pre)
  case (Cons x xs)
  show ?case
  proof (cases "P x \<and> pre = []")
    case True
    then show ?thesis using Cons.prems by (intro exI [of _ "[]"] exI [of _ xs]) auto
  next
    case False
    then obtain pre' where "filter P xs = pre' @ k # post" "set pre \<subseteq> insert x (set pre')"
      using Cons.prems by (cases pre) (auto split: if_splits)
    with Cons.IH [of pre'] obtain us ws where "xs = us @ k # ws" "set pre \<subseteq> insert x (set us)" by blast
    then show ?thesis by (intro exI [of _ "x # us"] exI [of _ ws]) auto
  qed
qed simp

section \<open>Properties\<close>

text \<open>C25: validation accepts exactly the files whose dependencies are declared and free of
  cycles, and it reports the truth about the others: an unknown dependency is one that a
  container really names and that is not declared, and a reported cycle is a chain of
  dependencies that returns to its first container.\<close>

theorem validation_is_exact:
  assumes "declared_once c"
  shows "(validate_dependencies c = Ok () \<longleftrightarrow> all_declared c \<and> acyclic (depends c)) \<and>
    (\<forall>k d. validate_dependencies c = Err (UnknownDependency k d) \<longrightarrow> (k, d) \<in> depends c \<and> d \<notin> fst ` set c) \<and>
    (\<forall>path. validate_dependencies c = Err (DependencyCycle path) \<longrightarrow>
       (\<exists>cyc. path = join_str '' -> '' cyc \<and> is_cycle c cyc))"
proof (cases "find (\<lambda>(key, d). map_of c d = None) (dependency_pairs c)")
  case None
  then have all: "all_declared c" by (simp only: unknown_dependency)
  have v: "validate_dependencies c = detect_cycle c" by (simp add: validate_dependencies_def None)
  show ?thesis
  proof (cases "detect_cycle c")
    case (Inl e)
    then obtain cyc where cyc: "e = DependencyCycle (join_str '' -> '' cyc)" "is_cycle c cyc"
      using detect_cycle_Err by blast
    then have "\<not> acyclic (depends c)" using cycle_trancl by (auto simp: acyclic_def)
    then show ?thesis using v Inl cyc by auto
  next
    case (Inr u)
    then show ?thesis using v all detect_cycle_Ok [of c] by auto
  qed
next
  case (Some p)
  obtain k d where p: "p = (k, d)" by (cases p)
  have "validate_dependencies c = Err (UnknownDependency k d)"
    by (simp add: validate_dependencies_def Some p)
  moreover have "(k, d) \<in> depends c" "map_of c d = None"
    using Some set_dependency_pairs [OF assms] by (auto simp: p find_Some_iff) (metis nth_mem)
  moreover have "\<not> all_declared c" using Some unknown_dependency [of c] by auto
  ultimately show ?thesis by (simp add: map_of_eq_None_iff)
qed

text \<open>C26: every valid file has a start order.  The computation ends; for a valid file it returns
  every container exactly once, each after all the containers it depends on, and for a file
  with a cycle it returns an error.\<close>

theorem start_order_is_topological:
  assumes "declared_once c" and "all_declared c"
  shows "if acyclic (depends c)
    then \<exists>order. topo_order c = Some (Ok order) \<and> distinct order \<and> set order = fst ` set c \<and>
      (\<forall>pre k post. order = pre @ k # post \<longrightarrow> set (start_after c k) \<subseteq> set pre)
    else topo_order c = Some (Err (DependencyCycle ''unresolved dependencies''))"
  using topo_order_Ok [OF assms(1) _ assms(2)] topo_order_Err [OF assms(1)]
  by (auto simp: ordered_def) (metis (no_types, lifting))

text \<open>nothing in a wave waits for anything in the same wave or a later one.  For every list of
  containers in which none comes before a container it depends on, the waves hold each of them
  once, and a dependency that is in the list is in an earlier wave.  Dependencies outside the
  list hold nothing back.\<close>

theorem waves_respect_dependencies:
  assumes "distinct order"
    and "\<forall>pre k post. order = pre @ k # post \<longrightarrow> set (start_after c k) \<inter> set (k # post) = {}"
  shows "distinct (concat (waves c order)) \<and> set (concat (waves c order)) = set order \<and>
    (\<forall>i < length (waves c order). \<forall>k \<in> set (waves c order ! i). \<forall>d \<in> set (start_after c k) \<inter> set order.
       \<exists>j < i. d \<in> set (waves c order ! j))"
proof -
  have "\<exists>placed'. placed_in placed' (waves c order) \<and> dom placed' = dom (Map.empty :: string \<rightharpoonup> nat) \<union> set order \<and>
      (\<forall>k d i j. placed' k = Some i \<longrightarrow> placed' d = Some j \<longrightarrow> d \<in> set (start_after c k) \<longrightarrow> j < i)"
    unfolding waves_def
  proof (rule waves_from_result [of Map.empty])
    show "\<forall>pre k post. order = pre @ k # post \<longrightarrow> set (start_after c k) \<inter> set post = {}"
      using assms(2) by auto
    show "\<forall>k \<in> set order. k \<notin> set (start_after c k)"
      using assms(2) by (metis disjoint_iff list.set_intros(1) split_list)
  qed (simp_all add: assms(1) placed_in_def)
  then obtain placed where p: "placed_in placed (waves c order)" "dom placed = set order"
    and less: "\<And>k d i j. placed k = Some i \<Longrightarrow> placed d = Some j \<Longrightarrow> d \<in> set (start_after c k) \<Longrightarrow> j < i"
    by auto
  note at = placed_in_at [OF p(1)]
  have "\<exists>j < i. d \<in> set (waves c order ! j)"
    if "i < length (waves c order)" "k \<in> set (waves c order ! i)" "d \<in> set (start_after c k)" "d \<in> set order" for i k d
  proof -
    have "d \<in> dom placed" using that(4) p(2) by simp
    then obtain j where j: "placed d = Some j" by blast
    have "placed k = Some i" using at that(1,2) by blast
    then have "j < i" using j that(3) by (rule less)
    then show ?thesis using j at by blast
  qed
  moreover have "distinct (concat (waves c order))" using p(1) unfolding placed_in_def by blast
  ultimately show ?thesis using placed_in_set [OF p(1)] p(2) by simp
qed

text \<open>C27: starting or stopping one container takes along exactly the right ones.  What must run
  for a container is the container and everything it transitively depends on; what must stop
  before it is everything that transitively depends on it, each once, and listed so that no
  container stops before one that still depends on it.\<close>

theorem closures_are_exact:
  assumes "declared_once c" and "all_declared c" and "acyclic (depends c)"
  shows "dependency_closure c key = (depends c)\<^sup>* `` {key} \<and>
    distinct (transitive_dependents c key) \<and>
    set (transitive_dependents c key) = {k. (k, key) \<in> (depends c)\<^sup>+} \<and>
    (\<forall>pre k post. transitive_dependents c key = pre @ k # post \<longrightarrow> set (start_after c k) \<inter> set pre = {})"
proof (intro conjI allI impI)
  let ?P = "\<lambda>k. k \<in> dependents_loop c {} [key]"
  obtain order where order: "topo_order c = Some (Ok order)" "distinct order" "set order = fst ` set c"
    "ordered c order" using topo_order_Ok [OF assms(1,3,2)] by blast
  have td: "transitive_dependents c key = filter ?P (rev order)" by (simp add: transitive_dependents_def order(1))
  show "dependency_closure c key = (depends c)\<^sup>* `` {key}"
    using closure_loop_result [of "{}" c "[key]"] by (simp add: dependency_closure_def del: closure_loop.simps)
  show "distinct (transitive_dependents c key)" using order(2) by (simp add: td)
  have found: "dependents_loop c {} [key] = {k. (k, key) \<in> (depends c)\<^sup>+}"
    using dependents_loop_result [OF assms(1), of "{}" "[key]"] by (auto simp: trancl_converse simp del: dependents_loop.simps)
  have "k \<in> fst ` set c" if "(k, key) \<in> (depends c)\<^sup>+" for k
    using that depends_source by (metis tranclD)
  then show "set (transitive_dependents c key) = {k. (k, key) \<in> (depends c)\<^sup>+}"
    using order(3) by (auto simp: td found simp del: dependents_loop.simps)
  fix pre k post
  assume "transitive_dependents c key = pre @ k # post"
  then obtain us ws where r: "rev order = us @ k # ws" "set pre \<subseteq> set us"
    unfolding td using filter_split by metis
  have eq: "order = rev ws @ k # rev us"
    using arg_cong [OF r(1), of rev] by simp
  then have "set (start_after c k) \<subseteq> set ws"
    using order(4) unfolding ordered_def by (metis set_rev)
  moreover have "set pre \<inter> set ws = {}" using order(2) r(2) by (auto simp: eq)
  ultimately show "set (start_after c k) \<inter> set pre = {}" by blast
qed

definition shop :: containers where
  "shop = [(''web'', [''api'']), (''api'', [''db'']), (''db'', [])]"

lemma shop_ok: "declared_once shop" "all_declared shop" "acyclic (depends shop)"
proof -
  show "declared_once shop" "all_declared shop"
    by (auto simp: shop_def all_declared_def dependency_names_def)
  have "ordered shop [''db'', ''api'', ''web'']"
    by (auto simp: ordered_def shop_def start_after_def Cons_eq_append_conv)
  then show "acyclic (depends shop)" by (rule ordered_acyclic) (auto simp: shop_def)
qed

lemma shop_depends: "depends shop = {(''web'', ''api''), (''api'', ''db'')}"
  by (auto simp: depends_def start_after_def shop_def split: if_splits)

theorem validation_is_exact_witness: "validate_dependencies shop = Ok ()"
  using validation_is_exact [OF shop_ok(1)] shop_ok by simp

theorem start_order_is_topological_witness:
  "\<exists>order. topo_order shop = Some (Ok order) \<and> distinct order \<and> set order = {''web'', ''api'', ''db''}"
  using start_order_is_topological [OF shop_ok(1,2)] shop_ok(3) by (auto simp: shop_def)

theorem waves_respect_dependencies_witness:
  "set (concat (waves shop [''db'', ''api'', ''web''])) = {''db'', ''api'', ''web''}"
proof -
  have "\<forall>pre k post. [''db'', ''api'', ''web''] = pre @ k # post \<longrightarrow>
      set (start_after shop k) \<inter> set (k # post) = {}"
    by (auto simp: shop_def start_after_def Cons_eq_append_conv)
  then show ?thesis using waves_respect_dependencies [of "[''db'', ''api'', ''web'']" shop] by simp
qed

theorem closures_are_exact_witness: "''db'' \<in> dependency_closure shop ''web''"
proof -
  have "(''web'', ''db'') \<in> (depends shop)\<^sup>*"
    by (rule converse_rtrancl_into_rtrancl [of _ "''api''"]) (auto simp: shop_depends)
  then show ?thesis using closures_are_exact [OF shop_ok, of "''web''"] by simp
qed

end
