(* ===== verification/Compose_Text.thy ===== *)
theory Compose_Text
  imports Rust_Str
begin

text \<open>
  The text of a compose file: \<open>${VAR}\<close> references (\<open>crates/iii-compose/src/interpolate.rs\<close>), the
  namespace of a project (\<open>namespace.rs\<close>), the back-off of a restart (\<open>restart.rs\<close>) and the limit
  on parallel work (\<open>parallelism.rs\<close>).  The environment is the parameter \<open>lookup\<close>.
\<close>

section \<open>Strings\<close>

fun split_once :: "string \<Rightarrow> string \<Rightarrow> (string \<times> string) option" where
  "split_once pat [] = (if pat = [] then Some ([], []) else None)"
| "split_once pat (c # s) =
     (if prefix pat (c # s) then Some ([], drop (length pat) (c # s))
      else map_option (\<lambda>(a, b). (c # a, b)) (split_once pat s))"

section \<open>References\<close>

datatype reference_error =
    UnterminatedReference string
  | InvalidReference string
  | UndefinedVariable string

definition in_range :: "nat \<Rightarrow> nat \<Rightarrow> char \<Rightarrow> bool" where
  "in_range low high c \<longleftrightarrow> low \<le> of_char c \<and> of_char c \<le> high"

definition is_lower :: "char \<Rightarrow> bool" where
  "is_lower = in_range 97 122"

definition is_upper :: "char \<Rightarrow> bool" where
  "is_upper = in_range 65 90"

definition is_alpha :: "char \<Rightarrow> bool" where
  "is_alpha c \<longleftrightarrow> is_lower c \<or> is_upper c"

definition is_digit :: "char \<Rightarrow> bool" where
  "is_digit = in_range 48 57"

lemmas char_range_defs = is_alpha_def is_lower_def is_upper_def is_digit_def in_range_def

definition is_env_name :: "string \<Rightarrow> bool" where
  "is_env_name name =
     (case name of
        [] \<Rightarrow> False
      | c # cs \<Rightarrow> (is_alpha c \<or> c = CHR ''_'') \<and>
          list_all (\<lambda>c. is_alpha c \<or> is_digit c \<or> c = CHR ''_'') cs)"

text \<open>The first line, without a carriage return before its end, and at most 40 characters of it.\<close>

definition first_line :: "string \<Rightarrow> string" where
  "first_line s =
     (let l = takeWhile (\<lambda>c. c \<noteq> CHR 0x0A) s
      in if l \<noteq> s \<and> l \<noteq> [] \<and> last l = CHR 0x0D then butlast l else l)"

definition continuation_byte :: "char \<Rightarrow> bool" where
  "continuation_byte c \<longleftrightarrow> 0x80 \<le> (of_char c :: nat) \<and> (of_char c :: nat) < 0xC0"

fun take_chars :: "nat \<Rightarrow> string \<Rightarrow> string" where
  "take_chars n [] = []"
| "take_chars n (c # s) =
     (if continuation_byte c then c # take_chars n s
      else if n = 0 then [] else c # take_chars (n - 1) s)"

definition preview :: "string \<Rightarrow> string" where
  "preview rest = take_chars 40 (first_line rest)"

definition resolve :: "(string \<Rightarrow> string option) \<Rightarrow> string \<Rightarrow> (reference_error, string) result" where
  "resolve lookup body =
     (let (name, fallback) = (case split_once '':-'' body of
             Some (a, b) \<Rightarrow> (trim a, Some b)
           | None \<Rightarrow> (trim body, None))
      in if name = [] \<or> \<not> is_env_name name then Err (InvalidReference body)
         else (case lookup name of
                 Some v \<Rightarrow> Ok v
               | None \<Rightarrow> (case fallback of Some d \<Rightarrow> Ok d | None \<Rightarrow> Err (UndefinedVariable name))))"

text \<open>The loop over the text, with the text written so far as \<open>out\<close>.\<close>

function expand_loop :: "(string \<Rightarrow> string option) \<Rightarrow> string \<Rightarrow> string \<Rightarrow> (reference_error, string) result" where
  "expand_loop lookup out rest =
     (let out = out @ takeWhile (\<lambda>c. c \<noteq> CHR ''$'') rest;
          rest = dropWhile (\<lambda>c. c \<noteq> CHR ''$'') rest
      in if rest = [] then Ok out
         else
           (case strip_prefix ''$$'' rest of
              Some after \<Rightarrow> expand_loop lookup (out @ ''$'') after
            | None \<Rightarrow>
                (case strip_prefix ''${'' rest of
                   None \<Rightarrow> expand_loop lookup (out @ ''$'') (tl rest)
                 | Some after \<Rightarrow>
                     (case dropWhile (\<lambda>c. c \<noteq> CHR ''}'') after of
                        [] \<Rightarrow> Err (UnterminatedReference (preview rest))
                      | c # remainder \<Rightarrow>
                          (case resolve lookup (takeWhile (\<lambda>c. c \<noteq> CHR ''}'') after) of
                             Err e \<Rightarrow> Err e
                           | Ok v \<Rightarrow> expand_loop lookup (out @ v) remainder)))))"
  by pat_completeness auto

lemma dropWhile_tail_length:
  "dropWhile P s = pre @ t \<Longrightarrow> pre \<noteq> [] \<Longrightarrow> length t < length s"
  using length_dropWhile_le [of P s] by (cases pre) auto

lemma remainder_length:
  assumes "strip_prefix ''${'' (dropWhile P s) = Some t" and "dropWhile Q t = c # u"
  shows "length u < length s"
  using dropWhile_tail_length [OF strip_prefix_length [OF assms(1)]] dropWhile_tail_length [of Q t "[c]" u] assms(2)
  by simp

lemma dropWhile_tl_length: "dropWhile P s \<noteq> [] \<Longrightarrow> length (tl (dropWhile P s)) < length s"
  using length_dropWhile_le [of P s] by (cases "dropWhile P s") auto

termination expand_loop
proof (relation "measure (\<lambda>(lookup, out, rest). length rest)", goal_cases)
  case (2 lookup out rest)
  then show ?case using dropWhile_tl_length [of "\<lambda>c. c \<noteq> CHR ''$''" rest] by simp
next
  case (3 lookup out rest)
  then show ?case by (auto dest: remainder_length)
next
  case (4 lookup out rest)
  then show ?case by (auto dest!: strip_prefix_length intro: dropWhile_tail_length)
qed simp

declare expand_loop.simps [simp del]

definition expand :: "(string \<Rightarrow> string option) \<Rightarrow> string \<Rightarrow> (reference_error, string) result" where
  "expand lookup s = expand_loop lookup [] s"

subsection \<open>Documents\<close>

text \<open>A parsed document of \<open>serde_yaml\<close>; a number is kept as its text.\<close>

datatype yaml =
    YNull
  | YBool bool
  | YNumber string
  | YString string
  | YSeq "yaml list"
  | YMap "(yaml \<times> yaml) list"
  | YTagged string yaml

definition NOT_OURS :: string where
  "NOT_OURS = ''config_override''"

fun expand_tree_at ::
    "(string \<Rightarrow> string option) \<Rightarrow> nat \<Rightarrow> bool \<Rightarrow> yaml \<Rightarrow> (reference_error, yaml) result"
and expand_items ::
    "(string \<Rightarrow> string option) \<Rightarrow> nat \<Rightarrow> bool \<Rightarrow> yaml list \<Rightarrow> (reference_error, yaml list) result"
and expand_entries ::
    "(string \<Rightarrow> string option) \<Rightarrow> nat \<Rightarrow> bool \<Rightarrow> (yaml \<times> yaml) list \<Rightarrow> (reference_error, (yaml \<times> yaml) list) result" where
  "expand_tree_at lookup depth in_engine (YString s) =
     (case expand lookup s of Err e \<Rightarrow> Err e | Ok s \<Rightarrow> Ok (YString s))"
| "expand_tree_at lookup depth in_engine (YSeq items) =
     (case expand_items lookup (depth + 1) in_engine items of Err e \<Rightarrow> Err e | Ok items \<Rightarrow> Ok (YSeq items))"
| "expand_tree_at lookup depth in_engine (YMap entries) =
     (case expand_entries lookup depth in_engine entries of Err e \<Rightarrow> Err e | Ok entries \<Rightarrow> Ok (YMap entries))"
| "expand_tree_at lookup depth in_engine v = Ok v"
| "expand_items lookup depth in_engine [] = Ok []"
| "expand_items lookup depth in_engine (v # vs) =
     (case expand_tree_at lookup depth in_engine v of
        Err e \<Rightarrow> Err e
      | Ok v \<Rightarrow> (case expand_items lookup depth in_engine vs of Err e \<Rightarrow> Err e | Ok vs \<Rightarrow> Ok (v # vs)))"
| "expand_entries lookup depth in_engine [] = Ok []"
| "expand_entries lookup depth in_engine ((k, v) # es) =
     (if k = YString NOT_OURS \<or> in_engine \<and> k = YString ''workers''
      then (case expand_entries lookup depth in_engine es of Err e \<Rightarrow> Err e | Ok es \<Rightarrow> Ok ((k, v) # es))
      else
        (case expand_tree_at lookup (depth + 1) (depth = 0 \<and> k = YString ''engine'') v of
           Err e \<Rightarrow> Err e
         | Ok v \<Rightarrow>
             (case expand_entries lookup depth in_engine es of Err e \<Rightarrow> Err e | Ok es \<Rightarrow> Ok ((k, v) # es))))"

definition expand_tree :: "(string \<Rightarrow> string option) \<Rightarrow> yaml \<Rightarrow> (reference_error, yaml) result" where
  "expand_tree lookup v = expand_tree_at lookup 0 False v"

section \<open>Namespaces\<close>

datatype namespace_error = HasWhitespace | HasUppercase | HasOther

definition DEFAULT_NAMESPACE :: string where
  "DEFAULT_NAMESPACE = ''default''"

definition first_present :: "string option list \<Rightarrow> string option" where
  "first_present candidates = find (\<lambda>s. s \<noteq> []) (map trim (List.map_filter id candidates))"

definition project_namespace :: "string option \<Rightarrow> string option \<Rightarrow> string" where
  "project_namespace explicit declared =
     (case first_present [explicit, declared] of Some s \<Rightarrow> s | None \<Rightarrow> DEFAULT_NAMESPACE)"

definition namespace_char :: "char \<Rightarrow> bool" where
  "namespace_char c \<longleftrightarrow>
     is_lower c \<or> is_digit c \<or> c = CHR ''_'' \<or> c = CHR ''-''"

definition check_namespace :: "string \<Rightarrow> (namespace_error, unit) result" where
  "check_namespace s =
     (if trim s \<noteq> s then Err HasWhitespace
      else (case find (\<lambda>c. \<not> namespace_char c) s of
              Some c \<Rightarrow> if is_upper c then Err HasUppercase else Err HasOther
            | None \<Rightarrow> Ok ()))"

section \<open>Limits\<close>

text \<open>A duration in nanoseconds, at most \<open>Duration::MAX\<close>.\<close>

definition DURATION_MAX :: nat where
  "DURATION_MAX = (2 ^ 64 - 1) * 10 ^ 9 + 999999999"

definition restart_backoff :: "nat \<Rightarrow> nat \<Rightarrow> u32 \<Rightarrow> nat" where
  "restart_backoff delay max_delay spent =
     min (min (delay * min (2 ^ unat (saturating_sub32 spent 1)) (2 ^ 32 - 1)) DURATION_MAX) max_delay"

definition DEFAULT_MAX_PARALLEL_WORKERS :: nat where
  "DEFAULT_MAX_PARALLEL_WORKERS = 8"

definition digits_value :: "string \<Rightarrow> nat" where
  "digits_value s = foldl (\<lambda>n c. 10 * n + (of_char c - 48)) 0 s"

definition parse_usize :: "string \<Rightarrow> nat option" where
  "parse_usize s =
     (let digits = (case s of c # cs \<Rightarrow> if c = CHR ''+'' then cs else s | [] \<Rightarrow> [])
      in if digits \<noteq> [] \<and> list_all is_digit digits \<and> digits_value digits < 2 ^ 64
         then Some (digits_value digits) else None)"

definition parse_max_parallel_workers :: "string option \<Rightarrow> nat" where
  "parse_max_parallel_workers v =
     (case Option.bind v (\<lambda>s. parse_usize (trim s)) of
        Some n \<Rightarrow> if 0 < n then n else DEFAULT_MAX_PARALLEL_WORKERS
      | None \<Rightarrow> DEFAULT_MAX_PARALLEL_WORKERS)"

section \<open>Names and white space\<close>

definition env_char :: "char \<Rightarrow> bool" where
  "env_char c \<longleftrightarrow> is_alpha c \<or> is_digit c \<or> c = CHR ''_''"

lemma env_char_visible: "env_char c \<or> c = CHR ''-'' \<Longrightarrow> visible c"
  by (auto simp: env_char_def char_range_defs visible_def)

lemma trim_plain: "list_all (\<lambda>c. env_char c \<or> c = CHR ''-'') s \<Longrightarrow> trim s = s"
  by (rule trim_visible) (auto simp: list_all_iff intro: env_char_visible)




section \<open>References as written\<close>
















section \<open>Properties\<close>



text \<open>The blocks that are carried without being read.\<close>

definition foreign :: "bool \<Rightarrow> yaml \<Rightarrow> bool" where
  "foreign in_engine k \<longleftrightarrow> k = YString NOT_OURS \<or> in_engine \<and> k = YString ''workers''"

definition carried ::
    "(string \<Rightarrow> string option) \<Rightarrow> nat \<Rightarrow> bool \<Rightarrow> yaml \<times> yaml \<Rightarrow> yaml \<times> yaml \<Rightarrow> bool" where
  "carried lookup depth in_engine e e' \<longleftrightarrow>
     fst e' = fst e \<and>
     (if foreign in_engine (fst e) then snd e' = snd e
      else expand_tree_at lookup (depth + 1) (depth = 0 \<and> fst e = YString ''engine'') (snd e) = Ok (snd e'))"

lemma carried_pair:
  "carried lookup depth in_engine (k, v) (k', v') \<longleftrightarrow> k' = k \<and>
     (if k = YString NOT_OURS \<or> in_engine \<and> k = YString ''workers'' then v' = v
      else expand_tree_at lookup (Suc depth) (depth = 0 \<and> k = YString ''engine'') v = Ok v')"
  by (simp add: carried_def foreign_def)

lemma expand_entries_Ok:
  "expand_entries lookup depth in_engine es = Ok es' \<Longrightarrow> list_all2 (carried lookup depth in_engine) es es'"
proof (induction es arbitrary: es')
  case (Cons e es)
  obtain k v where e: "e = (k, v)" by (cases e)
  show ?case
    using Cons.IH Cons.prems by (auto simp: e carried_pair split: sum.splits if_splits)
qed simp

text \<open>expanding a document keeps its shape and does not read what is not its own.  In every
  mapping, at every depth, the keys stay as they are and in their order; the value under
  \<open>config_override\<close>, and under \<open>workers\<close> in the top-level \<open>engine\<close> block, is carried unchanged; every
  other value is the expansion of what was there.\<close>

theorem foreign_blocks_are_carried:
  assumes "expand_tree_at lookup depth in_engine (YMap es) = Ok v"
  shows "\<exists>es'. v = YMap es' \<and> list_all2 (carried lookup depth in_engine) es es'"
  using assms expand_entries_Ok [of lookup depth in_engine es] by (auto split: sum.splits)

theorem foreign_blocks_are_carried_witness:
  "\<exists>es'. YMap [(YString ''config_override'', YString ''${X}'')] = YMap es' \<and> length es' = 1 \<and>
     snd (hd es') = YString ''${X}''"
proof -
  have "expand_tree_at (\<lambda>n. None) 0 False (YMap [(YString ''config_override'', YString ''${X}'')]) =
      Ok (YMap [(YString ''config_override'', YString ''${X}'')])" by (simp add: NOT_OURS_def)
  from foreign_blocks_are_carried [OF this] show ?thesis
    by (auto simp: list_all2_Cons1 carried_def foreign_def NOT_OURS_def)
qed

section \<open>Namespaces\<close>

text \<open>
  The check accepts exactly the names made of the allowed characters, and an accepted name is
  used as it is written, before the one in the file and before the default.
\<close>

lemma check_namespace_exact: "check_namespace s = Ok () \<longleftrightarrow> list_all namespace_char s"
proof -
  have "trim s = s" if "list_all namespace_char s"
    using that by (intro trim_plain)
      (auto simp: list_all_iff namespace_char_def env_char_def is_alpha_def)
  then show ?thesis
    by (auto simp: check_namespace_def list_all_iff find_None_iff split: option.splits if_splits)
      (auto simp: find_Some_iff)
qed

lemma accepted_namespace_verbatim:
  assumes "check_namespace s = Ok ()" and "s \<noteq> []"
  shows "project_namespace (Some s) declared = s" and "project_namespace None (Some s) = s"
proof -
  have "trim s = s" using assms(1) by (auto simp: check_namespace_def split: if_splits)
  then show "project_namespace (Some s) declared = s" "project_namespace None (Some s) = s"
    using assms(2) by (simp_all add: project_namespace_def first_present_def List.map_filter_def)
qed

section \<open>Limits\<close>

lemma restart_backoff_bounds:
  "restart_backoff delay max_delay spent \<le> max_delay"
  "unat spent \<le> 1 \<Longrightarrow> delay \<le> max_delay \<Longrightarrow> delay \<le> DURATION_MAX \<Longrightarrow>
     restart_backoff delay max_delay spent = delay"
proof -
  show "restart_backoff delay max_delay spent \<le> max_delay" by (simp add: restart_backoff_def)
  assume "unat spent \<le> 1" "delay \<le> max_delay" "delay \<le> DURATION_MAX"
  moreover from this have "unat (saturating_sub32 spent 1) = 0"
    by (simp add: saturating_sub32_def unat_sub word_le_nat_alt)
  ultimately show "restart_backoff delay max_delay spent = delay" by (simp add: restart_backoff_def)
qed

lemma parallel_workers_positive: "0 < parse_max_parallel_workers v"
  by (simp add: parse_max_parallel_workers_def DEFAULT_MAX_PARALLEL_WORKERS_def split: option.split)

end
