(* ===== verification/Trigger_Store.thy ===== *)
theory Trigger_Store
  imports Json
begin

text \<open>
  The live bindings of the engine (\<open>engine/src/trigger.rs\<close>, \<open>TriggerStore\<close>): a map from binding
  identifiers to bindings, with an index by trigger type that dispatch reads.  A \<open>DashMap\<close> or
  \<open>HashMap\<close> is a sorted association list; its order stands for the unspecified order of
  iteration.  An \<open>Arc\<close> is the value it shares.
\<close>

section \<open>Bindings\<close>

type_synonym uuid = "128 word"

record trigger =
  binding_id :: string
  trigger_type :: string
  bound_function :: string
  config :: json
  owner_worker :: "uuid option"
  binding_metadata :: "json option"
  target_namespace :: string
  trigger_namespace :: "string option"
  home_namespace :: string
  provider_namespace :: string

type_synonym type_key = "string \<times> string"

definition default_namespace :: string where
  "default_namespace = ''default''"

definition provider_key :: "trigger \<Rightarrow> type_key" where
  "provider_key t = (provider_namespace t, trigger_type t)"

definition is_on_fallback :: "trigger \<Rightarrow> bool" where
  "is_on_fallback t \<longleftrightarrow> trigger_namespace t = None \<and> provider_namespace t \<noteq> home_namespace t"

section \<open>The store\<close>

record trigger_store =
  by_id :: "(string \<times> trigger) list"
  by_type :: "(string \<times> (string \<times> trigger) list) list"

definition store_new :: trigger_store where
  "store_new = \<lparr>by_id = [], by_type = []\<rparr>"

definition store_get :: "string \<Rightarrow> trigger_store \<Rightarrow> trigger option" where
  "store_get k s = map_of (by_id s) k"

definition store_contains :: "string \<Rightarrow> trigger_store \<Rightarrow> bool" where
  "store_contains k s \<longleftrightarrow> store_get k s \<noteq> None"

definition insert_target :: "string \<Rightarrow> trigger \<Rightarrow> trigger_store \<Rightarrow> trigger_store" where
  "insert_target k t s =
     (let bucket = (case map_of (by_type s) (trigger_type t) of None \<Rightarrow> [] | Some b \<Rightarrow> b)
      in s\<lparr>by_type := map_insert (trigger_type t) (map_insert k t bucket) (by_type s)\<rparr>)"

definition remove_target :: "string \<Rightarrow> string \<Rightarrow> trigger_store \<Rightarrow> trigger_store" where
  "remove_target k ty s =
     (case map_of (by_type s) ty of
        None \<Rightarrow> s
      | Some targets \<Rightarrow>
          (let targets = map_remove k targets
           in if targets = [] then s\<lparr>by_type := map_remove ty (by_type s)\<rparr>
              else s\<lparr>by_type := map_insert ty targets (by_type s)\<rparr>))"

definition store_insert :: "string \<Rightarrow> trigger \<Rightarrow> trigger_store \<Rightarrow> trigger option \<times> trigger_store" where
  "store_insert k t s =
     (case map_of (by_id s) k of
        Some old \<Rightarrow>
          (let s1 = (if trigger_type old \<noteq> trigger_type t
                     then remove_target k (trigger_type old) s else s);
               s2 = insert_target k t s1
           in (Some old, s2\<lparr>by_id := map_insert k t (by_id s2)\<rparr>))
      | None \<Rightarrow>
          (let s2 = insert_target k t s
           in (None, s2\<lparr>by_id := map_insert k t (by_id s2)\<rparr>)))"

definition store_remove_if ::
  "string \<Rightarrow> (string \<Rightarrow> trigger \<Rightarrow> bool) \<Rightarrow> trigger_store \<Rightarrow> (string \<times> trigger) option \<times> trigger_store"
where
  "store_remove_if k predicate s =
     (case map_of (by_id s) k of
        None \<Rightarrow> (None, s)
      | Some t \<Rightarrow>
          if predicate k t
          then (let s1 = remove_target k (trigger_type t) s
                in (Some (k, t), s1\<lparr>by_id := map_remove k (by_id s1)\<rparr>))
          else (None, s))"

definition store_remove :: "string \<Rightarrow> trigger_store \<Rightarrow> (string \<times> trigger) option \<times> trigger_store" where
  "store_remove k = store_remove_if k (\<lambda>_ _. True)"

definition targets_for_type :: "string \<Rightarrow> trigger_store \<Rightarrow> trigger list" where
  "targets_for_type ty s = (case map_of (by_type s) ty of None \<Rightarrow> [] | Some targets \<Rightarrow> map snd targets)"

section \<open>The index agrees with the bindings\<close>

text \<open>
  What dispatch can find under a trigger type, and the invariant of the store: dispatch finds a
  binding under a type exactly when it is live and of that type, and no bucket is left empty.
\<close>

definition indexed :: "trigger_store \<Rightarrow> string \<Rightarrow> string \<Rightarrow> trigger option" where
  "indexed s ty k = (case map_of (by_type s) ty of None \<Rightarrow> None | Some b \<Rightarrow> map_of b k)"

definition store_wf :: "trigger_store \<Rightarrow> bool" where
  "store_wf s \<longleftrightarrow>
     map_sorted (by_id s) \<and> map_sorted (by_type s) \<and>
     (\<forall>ty b. map_of (by_type s) ty = Some b \<longrightarrow> map_sorted b \<and> b \<noteq> [])"

definition index_agrees :: "trigger_store \<Rightarrow> bool" where
  "index_agrees s \<longleftrightarrow>
     (\<forall>ty k. indexed s ty k =
        (case store_get k s of
           Some t \<Rightarrow> if trigger_type t = ty then Some t else None
         | None \<Rightarrow> None))"

lemma insert_target_wf:
  "store_wf s \<Longrightarrow> store_wf (insert_target k t s)"
  by (auto simp: store_wf_def insert_target_def Let_def jmap.get_insert map_laws
      split: if_splits option.splits)
    (metis jmap.get_insert fun_upd_same map_of.simps(1) option.distinct(1) map_sorted_Nil)+

lemma remove_target_wf: "store_wf s \<Longrightarrow> store_wf (remove_target k ty s)"
  by (auto simp: store_wf_def remove_target_def Let_def map_laws split: if_splits option.splits)

lemma by_id_targets [simp]:
  "by_id (insert_target k t s) = by_id s" "by_id (remove_target k ty s) = by_id s"
  by (simp_all add: insert_target_def remove_target_def Let_def split: option.split)

lemma indexed_insert_target:
  assumes "store_wf s"
  shows "indexed (insert_target k t s) =
    (indexed s)(trigger_type t := (indexed s (trigger_type t))(k \<mapsto> t))"
proof -
  have "map_sorted (case map_of (by_type s) (trigger_type t) of None \<Rightarrow> [] | Some b \<Rightarrow> b)"
    using assms by (auto simp: store_wf_def split: option.split)
  then show ?thesis
    using assms
    by (auto simp: indexed_def insert_target_def Let_def store_wf_def map_laws fun_eq_iff
        split: option.split)
qed

lemma indexed_remove_target:
  assumes "store_wf s"
  shows "indexed (remove_target k ty s) = (indexed s)(ty := (indexed s ty)(k := None))"
proof (cases "map_of (by_type s) ty")
  case None
  then show ?thesis by (auto simp: indexed_def remove_target_def fun_eq_iff)
next
  case (Some b)
  have "map_of (map_remove k b) = (map_of b)(k := None)" by (simp add: map_laws)
  moreover have "map_remove k b = [] \<Longrightarrow> x \<noteq> k \<Longrightarrow> map_of b x = None" for x
    by (metis map_of_remove map_of.simps(1) fun_upd_other)
  ultimately show ?thesis
    using assms Some
    by (auto simp: indexed_def remove_target_def Let_def store_wf_def map_laws fun_eq_iff
        split: option.split)
qed

lemma by_type_by_id_update [simp]:
  "by_type (s\<lparr>by_id := m\<rparr>) = by_type s" "indexed (s\<lparr>by_id := m\<rparr>) = indexed s"
  by (simp_all add: indexed_def fun_eq_iff)

lemma store_wf_by_id_update: "store_wf s \<Longrightarrow> map_sorted m \<Longrightarrow> store_wf (s\<lparr>by_id := m\<rparr>)"
  by (simp add: store_wf_def)

lemma store_wf_sorted: "store_wf s \<Longrightarrow> map_sorted (by_id s)"
  by (simp add: store_wf_def)

lemma store_insert_wf: "store_wf s \<Longrightarrow> store_wf (snd (store_insert k t s))"
  by (auto simp: store_insert_def Let_def insert_target_wf remove_target_wf store_wf_sorted map_laws
      intro!: store_wf_by_id_update split: option.split)

lemma store_remove_if_wf: "store_wf s \<Longrightarrow> store_wf (snd (store_remove_if k P s))"
  by (auto simp: store_remove_if_def Let_def remove_target_wf store_wf_sorted map_laws
      intro!: store_wf_by_id_update split: option.split)

lemma store_get_insert:
  "store_wf s \<Longrightarrow> store_get x (snd (store_insert k t s)) = (if x = k then Some t else store_get x s)"
  by (auto simp: store_get_def store_insert_def Let_def store_wf_sorted map_laws split: option.split)

lemma store_get_remove_if:
  "store_get x (snd (store_remove_if k P s)) =
     (if x = k \<and> (\<exists>t. store_get k s = Some t \<and> P k t) then None else store_get x s)"
  by (auto simp: store_get_def store_remove_if_def Let_def map_laws split: option.split)

lemma store_get_remove:
  "store_get x (snd (store_remove k s)) = (if x = k then None else store_get x s)"
  by (auto simp: store_remove_def store_get_remove_if)

lemma fst_store_remove:
  "fst (store_remove k s) = map_option (Pair k) (store_get k s)"
  "fst (store_remove_if k P s) =
     (case store_get k s of Some t \<Rightarrow> if P k t then Some (k, t) else None | None \<Rightarrow> None)"
  by (simp_all add: store_remove_def store_remove_if_def store_get_def split: option.split)

lemma index_agrees_insert:
  assumes "store_wf s" and "index_agrees s"
  shows "index_agrees (snd (store_insert k t s))"
  using assms
  by (auto simp: index_agrees_def store_get_insert)
    (auto simp: store_insert_def store_get_def Let_def indexed_insert_target indexed_remove_target
      remove_target_wf split: option.splits if_splits)

lemma index_agrees_remove_if:
  assumes "store_wf s" and "index_agrees s"
  shows "index_agrees (snd (store_remove_if k P s))"
  using assms
  by (auto simp: index_agrees_def store_get_remove_if)
    (auto simp: store_remove_if_def store_get_def Let_def indexed_remove_target
      split: option.splits if_splits)

definition store_ok :: "trigger_store \<Rightarrow> bool" where
  "store_ok s \<longleftrightarrow> store_wf s \<and> index_agrees s"

lemma store_ok_new: "store_ok store_new"
  by (simp add: store_ok_def store_new_def store_wf_def index_agrees_def store_get_def indexed_def)

lemma store_ok_insert [map_laws]: "store_ok s \<Longrightarrow> store_ok (snd (store_insert k t s))"
  by (simp add: store_ok_def store_insert_wf index_agrees_insert)

lemma store_ok_remove_if [map_laws]: "store_ok s \<Longrightarrow> store_ok (snd (store_remove_if k P s))"
  by (simp add: store_ok_def store_remove_if_wf index_agrees_remove_if)

lemma store_ok_remove [map_laws]: "store_ok s \<Longrightarrow> store_ok (snd (store_remove k s))"
  by (simp add: store_remove_def store_ok_remove_if)

interpretation live: key_map "\<lambda>s k. store_get k s" "\<lambda>k t s. snd (store_insert k t s)"
  "\<lambda>k s. snd (store_remove k s)" store_ok
  by unfold_locales
    (auto simp: map_laws store_ok_def [THEN iffD1] store_get_insert store_get_remove fun_eq_iff)

lemma map_of_filter_snd:
  "map_sorted m \<Longrightarrow>
   map_of (filter (\<lambda>e. P (snd e)) m) k =
     (case map_of m k of Some v \<Rightarrow> if P v then Some v else None | None \<Rightarrow> None)"
proof (induction m)
  case (Cons e m)
  moreover from Cons.prems have "map_of m (fst e) = None"
    by (force simp: map_sorted_Cons map_of_eq_None_iff)
  ultimately show ?case by (cases e) (auto simp: map_sorted_Cons split: option.split)
qed simp

text \<open>Dispatch by type reads exactly the live bindings of the type, each once.\<close>

lemma targets_for_type_live:
  assumes "store_ok s"
  shows "targets_for_type ty s = map snd (filter (\<lambda>e. trigger_type (snd e) = ty) (by_id s))"
proof -
  define live where "live = filter (\<lambda>e. trigger_type (snd e) = ty) (by_id s)"
  have sorted: "map_sorted live"
    using assms by (simp add: live_def store_ok_def store_wf_def map_sorted_filter)
  have eq: "map_of live = indexed s ty"
    using assms
    by (auto simp: live_def store_ok_def store_wf_def index_agrees_def store_get_def
        map_of_filter_snd [where P = "\<lambda>t. trigger_type t = ty"] fun_eq_iff split: option.split)
  show ?thesis
  proof (cases "map_of (by_type s) ty")
    case None
    then have "live = []" using eq sorted map_of_sorted_eq [of live "[]"]
      by (simp add: indexed_def fun_eq_iff)
    with None show ?thesis by (simp add: targets_for_type_def live_def)
  next
    case (Some b)
    then have "b = live"
      using eq sorted assms map_of_sorted_eq [of b live]
      by (auto simp: indexed_def store_ok_def store_wf_def fun_eq_iff)
    with Some show ?thesis by (simp add: targets_for_type_def live_def)
  qed
qed

section \<open>Sequences of operations\<close>

datatype store_op =
    Insert string trigger
  | Remove string
  | RemoveIf string "string \<Rightarrow> trigger \<Rightarrow> bool"

fun store_apply :: "store_op \<Rightarrow> trigger_store \<Rightarrow> trigger_store" where
  "store_apply (Insert k t) s = snd (store_insert k t s)"
| "store_apply (Remove k) s = snd (store_remove k s)"
| "store_apply (RemoveIf k P) s = snd (store_remove_if k P s)"

text \<open>The plain map that the operations describe.\<close>

fun map_apply :: "store_op \<Rightarrow> (string \<rightharpoonup> trigger) \<Rightarrow> (string \<rightharpoonup> trigger)" where
  "map_apply (Insert k t) m = m(k \<mapsto> t)"
| "map_apply (Remove k) m = m(k := None)"
| "map_apply (RemoveIf k P) m =
     (case m k of Some t \<Rightarrow> if P k t then m(k := None) else m | None \<Rightarrow> m)"

lemma store_apply_ok: "store_ok s \<Longrightarrow> store_ok (store_apply a s)"
  by (cases a) (simp_all add: map_laws)

lemma store_apply_get:
  "store_ok s \<Longrightarrow> (\<lambda>k. store_get k (store_apply a s)) = map_apply a (\<lambda>k. store_get k s)"
  by (cases a)
    (auto simp: store_ok_def store_get_insert store_get_remove store_get_remove_if fun_eq_iff
      split: option.split)

lemma store_run:
  "store_ok s \<Longrightarrow> store_ok (fold store_apply ops s) \<and>
   (\<lambda>k. store_get k (fold store_apply ops s)) = fold map_apply ops (\<lambda>k. store_get k s)"
  by (induction ops arbitrary: s) (simp_all add: store_apply_ok store_apply_get)

end
