(* ===== verification/Trigger_Registry.thy ===== *)
theory Trigger_Registry
  imports Trigger_Store
begin

text \<open>
  The trigger registry of the engine (\<open>engine/src/trigger.rs\<close>, \<open>TriggerRegistry\<close>): providers by
  namespace and type, live bindings, parked intents, and the bindings that are being moved,
  activated or removed.  This theory holds the sections that run under the lock
  \<open>park_transition\<close> and the lookups between them; \<open>Trigger_Tasks\<close> composes them into the
  operations of the registry.

  A \<open>registrator\<close> is the identity of an \<open>Arc\<close> of a provider's interface, so that \<open>Arc::ptr_eq\<close>
  is equality.  \<open>issued\<close> is a history variable of the model: the number of tokens handed out,
  of which \<open>failover_tokens\<close> is the value modulo \<open>2 ^ 64\<close>.
\<close>

section \<open>State\<close>

type_synonym registrator = nat

record provider =
  type_id :: string
  type_namespace :: string
  type_description :: string
  trigger_request_format :: "json option"
  call_request_format :: "json option"
  call_response_format :: "json option"
  type_registrator :: registrator
  provider_worker :: "uuid option"

definition type_provider_key :: "provider \<Rightarrow> type_key" where
  "type_provider_key p = (type_namespace p, type_id p)"

record transition =
  transition_token :: u64
  transition_worker :: "uuid option"
  removing :: bool
  transition_target :: trigger

record registry =
  trigger_types :: "(type_key \<times> provider) list"
  triggers :: trigger_store
  pending_triggers :: "(string \<times> trigger) list"
  failing_over :: "(string \<times> transition) list"
  failover_tokens :: u64
  failover_replay_timeout_ms :: u64
  issued :: nat

definition registry_new :: registry where
  "registry_new =
     \<lparr>trigger_types = [], triggers = store_new, pending_triggers = [], failing_over = [],
      failover_tokens = 0, failover_replay_timeout_ms = 0, issued = 0\<rparr>"

definition FAILOVER_REPLAY_TIMEOUT :: u64 where
  "FAILOVER_REPLAY_TIMEOUT = 10000"

definition set_failover_replay_timeout :: "128 word \<Rightarrow> registry \<Rightarrow> registry" where
  "set_failover_replay_timeout millis r =
     r\<lparr>failover_replay_timeout_ms := max (ucast millis) 1\<rparr>"

definition failover_replay_timeout :: "registry \<Rightarrow> u64" where
  "failover_replay_timeout r =
     (if failover_replay_timeout_ms r = 0 then FAILOVER_REPLAY_TIMEOUT
      else failover_replay_timeout_ms r)"

definition KNOWN_TRIGGER_TYPE_PROVIDERS :: "(string \<times> string) list" where
  "KNOWN_TRIGGER_TYPE_PROVIDERS =
     [(''http'', ''http''), (''cron'', ''cron''), (''subscribe'', ''pubsub''), (''state'', ''state''),
      (''durable:subscriber'', ''queue''), (''stream'', ''iii-stream''),
      (''stream:join'', ''iii-stream''), (''stream:leave'', ''iii-stream''),
      (''log'', ''iii-observability''), (''trace'', ''iii-observability''),
      (''configuration'', ''configuration'')]"

definition known_trigger_type_provider :: "string \<Rightarrow> string option" where
  "known_trigger_type_provider ty =
     map_option snd (find (\<lambda>e. fst e = ty) KNOWN_TRIGGER_TYPE_PROVIDERS)"

section \<open>Transitions\<close>

definition interrupt_failover :: "string \<Rightarrow> registry \<Rightarrow> bool \<times> registry" where
  "interrupt_failover k r =
     (map_of (failing_over r) k \<noteq> None, r\<lparr>failing_over := map_remove k (failing_over r)\<rparr>)"

definition begin_transition :: "trigger \<Rightarrow> bool \<Rightarrow> registry \<Rightarrow> u64 \<times> registry" where
  "begin_transition t rem r =
     (let token = failover_tokens r + 1
      in (token,
          r\<lparr>failover_tokens := token,
            failing_over :=
              map_insert (binding_id t)
                \<lparr>transition_token = token, transition_worker = owner_worker t, removing = rem,
                 transition_target = t\<rparr>
                (failing_over r),
            issued := issued r + 1\<rparr>))"

definition current_token :: "string \<Rightarrow> u64 \<Rightarrow> registry \<Rightarrow> bool" where
  "current_token k token r \<longleftrightarrow>
     (case map_of (failing_over r) k of Some op \<Rightarrow> transition_token op = token | None \<Rightarrow> False)"

definition finish_transition :: "string \<Rightarrow> u64 \<Rightarrow> registry \<Rightarrow> bool \<times> registry" where
  "finish_transition k token r =
     (if current_token k token r
      then (True, r\<lparr>failing_over := map_remove k (failing_over r)\<rparr>) else (False, r))"

definition is_removing :: "string \<Rightarrow> registry \<Rightarrow> bool" where
  "is_removing k r \<longleftrightarrow> (case map_of (failing_over r) k of Some op \<Rightarrow> removing op | None \<Rightarrow> False)"

section \<open>Lookups\<close>

definition namespace_of :: "string \<Rightarrow> registry \<Rightarrow> string" where
  "namespace_of k r =
     (case store_get k (triggers r) of Some t \<Rightarrow> target_namespace t | None \<Rightarrow> default_namespace)"

definition has_type :: "type_key \<Rightarrow> registry \<Rightarrow> bool" where
  "has_type key r \<longleftrightarrow> map_of (trigger_types r) key \<noteq> None"

definition resolve_provider_key :: "trigger \<Rightarrow> registry \<Rightarrow> type_key option" where
  "resolve_provider_key t r =
     (case trigger_namespace t of
        Some explicit \<Rightarrow>
          (if has_type (explicit, trigger_type t) r then Some (explicit, trigger_type t) else None)
      | None \<Rightarrow>
          if has_type (home_namespace t, trigger_type t) r
          then Some (home_namespace t, trigger_type t)
          else if has_type (default_namespace, trigger_type t) r
          then Some (default_namespace, trigger_type t) else None)"

definition fallback_bindings_for :: "type_key \<Rightarrow> registry \<Rightarrow> trigger list" where
  "fallback_bindings_for key r =
     map snd (filter (\<lambda>(k, t). trigger_type t = snd key \<and> home_namespace t = fst key \<and>
        is_on_fallback t \<and> map_of (failing_over r) k = None) (by_id (triggers r)))"

definition provider_registrator :: "type_key \<Rightarrow> registry \<Rightarrow> registrator option" where
  "provider_registrator key r = map_option type_registrator (map_of (trigger_types r) key)"

text \<open>What the provider of a stale binding should be running now (\<open>reconcile_provider\<close>).\<close>

definition desired :: "trigger \<Rightarrow> registry \<Rightarrow> (trigger \<times> registrator) option" where
  "desired stale r =
     (case (case map_of (failing_over r) (binding_id stale) of
              Some op \<Rightarrow> if removing op then None else Some (transition_target op)
            | None \<Rightarrow> store_get (binding_id stale) (triggers r)) of
        None \<Rightarrow> None
      | Some current \<Rightarrow>
          if provider_key current \<noteq> provider_key stale then None
          else map_option (Pair current) (provider_registrator (provider_key stale) r))"

section \<open>Sections under the lock\<close>

definition live_insert :: "trigger \<Rightarrow> registry \<Rightarrow> registry" where
  "live_insert t r = r\<lparr>triggers := snd (store_insert (binding_id t) t (triggers r))\<rparr>"

definition live_remove :: "string \<Rightarrow> registry \<Rightarrow> registry" where
  "live_remove k r = r\<lparr>triggers := snd (store_remove k (triggers r))\<rparr>"

definition pending_insert :: "trigger \<Rightarrow> registry \<Rightarrow> registry" where
  "pending_insert t r = r\<lparr>pending_triggers := map_insert (binding_id t) t (pending_triggers r)\<rparr>"

definition pending_remove :: "string \<Rightarrow> registry \<Rightarrow> registry" where
  "pending_remove k r = r\<lparr>pending_triggers := map_remove k (pending_triggers r)\<rparr>"

definition drop_token :: "string \<Rightarrow> registry \<Rightarrow> registry" where
  "drop_token k r = snd (interrupt_failover k r)"

text \<open>\<open>register_trigger\<close>: park the intent in place of a live binding of the same name.\<close>

definition park_intent :: "trigger \<Rightarrow> registry \<Rightarrow> trigger option \<times> registry" where
  "park_intent t r =
     (store_get (binding_id t) (triggers r),
      pending_insert t (live_remove (binding_id t) (drop_token (binding_id t) r)))"

text \<open>\<open>register_trigger\<close>: publish the binding the provider accepted.\<close>

definition publish_binding :: "trigger \<Rightarrow> registry \<Rightarrow> registry" where
  "publish_binding t r =
     live_insert t (pending_remove (binding_id t) (drop_token (binding_id t) r))"

definition claim_parked :: "string \<Rightarrow> type_key \<Rightarrow> registry \<Rightarrow> (trigger \<times> u64) option \<times> registry" where
  "claim_parked k key r =
     (if is_removing k r then (None, r)
      else case map_of (pending_triggers r) k of
        None \<Rightarrow> (None, r)
      | Some t \<Rightarrow>
          (let t = t\<lparr>provider_namespace := fst key\<rparr>;
               (token, r) = begin_transition t False (pending_remove k r)
           in (Some (t, token), r)))"

text \<open>\<open>activate_pending_trigger\<close>: the settlement; \<open>None\<close> when the claim was superseded.\<close>

definition settle_activation :: "trigger \<Rightarrow> u64 \<Rightarrow> bool \<Rightarrow> registry \<Rightarrow> bool option \<times> registry" where
  "settle_activation t token replayed r =
     (let k = binding_id t; (finished, r) = finish_transition k token r
      in if finished \<and> \<not> store_contains k (triggers r) \<and> map_of (pending_triggers r) k = None
         then (Some replayed, if replayed then live_insert t r else pending_insert t r)
         else (None, r))"

text \<open>\<open>rehome_fallback_bindings\<close>: claim one candidate, and settle its move.\<close>

definition rehome_begin ::
  "type_key \<Rightarrow> string \<Rightarrow> registry \<Rightarrow> (trigger \<times> trigger \<times> u64) option \<times> registry"
where
  "rehome_begin key k r =
     (case store_get k (triggers r) of
        None \<Rightarrow> (None, r)
      | Some t \<Rightarrow>
          if \<not> is_on_fallback t \<or> home_namespace t \<noteq> fst key \<or> trigger_type t \<noteq> snd key \<or>
             map_of (failing_over r) k \<noteq> None
          then (None, r)
          else (let target = t\<lparr>provider_namespace := fst key\<rparr>;
                    (token, r) = begin_transition target False r
                in (Some (t, target, token), r)))"

definition rehome_settle :: "trigger \<Rightarrow> u64 \<Rightarrow> bool \<Rightarrow> registry \<Rightarrow> bool \<times> registry" where
  "rehome_settle t token replayed r =
     (let (finished, r) = finish_transition (binding_id t) token r
      in if finished
         then (True, if replayed then live_insert t r
                     else pending_insert t (live_remove (binding_id t) r))
         else (False, r))"

text \<open>\<open>take_trigger_type_if_provider\<close>: the provider leaves and its bindings are claimed.\<close>

fun claim_orphans :: "trigger list \<Rightarrow> registry \<Rightarrow> (trigger \<times> u64) list \<times> registry" where
  "claim_orphans [] r = ([], r)"
| "claim_orphans (t # ts) r =
     (let (token, r) = begin_transition t False r; (claimed, r) = claim_orphans ts r
      in ((t, token) # claimed, r))"

definition take_trigger_type_if_provider ::
  "type_key \<Rightarrow> uuid \<Rightarrow> registry \<Rightarrow> (trigger \<times> u64) list option \<times> registry"
where
  "take_trigger_type_if_provider key w r =
     (case map_of (trigger_types r) key of
        None \<Rightarrow> (None, r)
      | Some p \<Rightarrow>
          if provider_worker p \<noteq> Some w then (None, r)
          else
            (let r = r\<lparr>trigger_types := map_remove key (trigger_types r)\<rparr>;
                 orphans = map snd (filter (\<lambda>(k, t). provider_key t = key \<and> \<not> is_removing k r)
                   (by_id (triggers r)));
                 (claimed, r) = claim_orphans orphans r
             in (Some claimed, r)))"

text \<open>\<open>fail_over\<close>: resolve again, and settle the move.\<close>

definition fail_over_resolve ::
  "trigger \<Rightarrow> u64 \<Rightarrow> registry \<Rightarrow> (trigger \<times> type_key option) option \<times> registry"
where
  "fail_over_resolve orphan token r =
     (case map_of (failing_over r) (binding_id orphan) of
        None \<Rightarrow> (None, r)
      | Some op \<Rightarrow>
          if transition_token op \<noteq> token then (None, r)
          else
            (let next = resolve_provider_key orphan r;
                 moving = (case next of Some key \<Rightarrow> orphan\<lparr>provider_namespace := fst key\<rparr>
                                      | None \<Rightarrow> orphan)
             in (Some (moving, next),
                 r\<lparr>failing_over :=
                     map_insert (binding_id orphan) (op\<lparr>transition_target := moving\<rparr>)
                       (failing_over r)\<rparr>)))"

definition fail_over_settle :: "trigger \<Rightarrow> u64 \<Rightarrow> bool \<Rightarrow> registry \<Rightarrow> bool \<times> registry" where
  "fail_over_settle moving token replayed r =
     (let (finished, r) = finish_transition (binding_id moving) token r
      in if \<not> finished then (False, r)
         else if replayed then (True, live_insert moving r)
         else (False, pending_insert moving (live_remove (binding_id moving) r)))"

text \<open>\<open>unregister_trigger\<close>: the first section answers at once or starts a removal.\<close>

definition begin_removal :: "string \<Rightarrow> registry \<Rightarrow> (bool + trigger \<times> u64) \<times> registry" where
  "begin_removal k r =
     (case store_get k (triggers r) of
        None \<Rightarrow>
          (let (cancelled, r) = interrupt_failover k r;
               removed = map_of (pending_triggers r) k \<noteq> None
           in (Inl (cancelled \<or> removed), pending_remove k r))
      | Some t \<Rightarrow> (let (token, r) = begin_transition t True r in (Inr (t, token), r)))"

definition finish_removal :: "string \<Rightarrow> u64 \<Rightarrow> registry \<Rightarrow> bool \<times> registry" where
  "finish_removal k token r =
     (let (finished, r) = finish_transition k token r
      in if finished then (True, pending_remove k (live_remove k r)) else (False, r))"

text \<open>
  \<open>recover_abandoned_removal\<close>: \<open>Inr\<close> is a move to start, \<open>Inl\<close> a repair of the provider.
  \<open>runtime\<close> tells whether the call is made inside an asynchronous runtime.
\<close>

definition recover_abandoned_removal ::
  "bool \<Rightarrow> string \<Rightarrow> u64 \<Rightarrow> registrator option \<Rightarrow> registry \<Rightarrow>
   (trigger \<times> registrator + trigger \<times> u64) option \<times> registry"
where
  "recover_abandoned_removal runtime k token before r =
     (case map_of (failing_over r) k of
        None \<Rightarrow> (None, r)
      | Some op \<Rightarrow>
          if transition_token op \<noteq> token then (None, r)
          else let r = drop_token k r in
          if \<not> removing op then (None, r)
          else case (case store_get k (triggers r) of
                       Some t \<Rightarrow> Some t | None \<Rightarrow> map_of (pending_triggers r) k) of
            None \<Rightarrow> (None, r)
          | Some t \<Rightarrow>
              if \<not> runtime then (None, pending_insert t (live_remove k r))
              else case before of
                Some old \<Rightarrow>
                  if provider_registrator (provider_key t) r = Some old
                  then (Some (Inl (t, old)), r)
                  else (let (token, r) = begin_transition t False (pending_remove k r)
                        in (Some (Inr (t, token)), r))
              | None \<Rightarrow>
                  (let (token, r) = begin_transition t False (pending_remove k r)
                   in (Some (Inr (t, token)), r)))"

definition recover_abandoned_activation ::
  "trigger \<Rightarrow> u64 \<Rightarrow> bool \<Rightarrow> registry \<Rightarrow> registry"
where
  "recover_abandoned_activation t token has_source r =
     (let k = binding_id t in
      case map_of (failing_over r) k of
        None \<Rightarrow> r
      | Some op \<Rightarrow>
          if transition_token op \<noteq> token then r
          else
            (let r = drop_token k r in
             if \<not> has_source then pending_insert (transition_target op) (live_remove k r)
             else if \<not> store_contains k (triggers r) \<and> map_of (pending_triggers r) k = None
             then pending_insert (transition_target op) r else r))"

text \<open>\<open>unregister_worker\<close>: the claims and intents of the worker, then each of its bindings.\<close>

definition cancel_worker_claims :: "uuid \<Rightarrow> registry \<Rightarrow> registry" where
  "cancel_worker_claims w r =
     r\<lparr>failing_over := filter (\<lambda>(k, op). transition_worker op \<noteq> Some w) (failing_over r),
       pending_triggers := filter (\<lambda>(k, t). owner_worker t \<noteq> Some w) (pending_triggers r)\<rparr>"

definition drop_worker_intents :: "uuid \<Rightarrow> registry \<Rightarrow> registry" where
  "drop_worker_intents w r =
     r\<lparr>pending_triggers := filter (\<lambda>(k, t). owner_worker t \<noteq> Some w) (pending_triggers r)\<rparr>"

definition remove_worker_binding :: "uuid \<Rightarrow> string \<Rightarrow> registry \<Rightarrow> trigger option \<times> registry" where
  "remove_worker_binding w k r =
     (let (removed, store) = store_remove_if k (\<lambda>_ t. owner_worker t = Some w) (triggers r);
          r = r\<lparr>triggers := store\<rparr>
      in case removed of
           Some (_, t) \<Rightarrow> (Some t, drop_token k r)
         | None \<Rightarrow> (None, r))"

text \<open>\<open>park_rejected_trigger\<close>: a provider rejected a binding after the fact.\<close>

definition park_rejected :: "string \<Rightarrow> registry \<Rightarrow> type_key option \<times> registry" where
  "park_rejected k r =
     (case store_get k (triggers r) of
        None \<Rightarrow> (None, r)
      | Some failed \<Rightarrow>
          (let r = live_remove k r;
               r = (if is_removing k r then r else drop_token k r)
           in (Some (provider_key failed), pending_insert failed r)))"

text \<open>\<open>engine/mod.rs\<close>, \<open>RegisterTriggerType\<close>: intents of workers that are gone are dropped.\<close>

definition sweep_dead_intents :: "(uuid \<Rightarrow> bool) \<Rightarrow> registry \<Rightarrow> registry" where
  "sweep_dead_intents connected r =
     r\<lparr>pending_triggers := filter (\<lambda>(k, t). case owner_worker t of None \<Rightarrow> True | Some w \<Rightarrow> connected w)
         (pending_triggers r)\<rparr>"

end
