(* ===== verification/Trigger_Tasks.thy ===== *)
theory Trigger_Tasks
  imports Trigger_Registry
begin

text \<open>
  The operations of the trigger registry (\<open>engine/src/trigger.rs\<close>) as tasks that interleave.  A
  task is a stack of frames, the innermost first; a frame is a point of the code between two
  atomic sections: a section under \<open>park_transition\<close>, a lookup outside the lock, or the answer
  of a provider that the code awaits.  \<open>advance\<close> runs the section a frame stands for.  Loops
  over a map take their elements in any order.

  A repair of a provider (\<open>settle_superseded_provider\<close>) is a task of its own, as in the code; the
  model lets the operation that starts it, and the one that starts a move of orphans, go on
  without waiting for it, which adds interleavings and removes none.  A task may be cancelled
  at every point where it awaits a provider; \<open>abort\<close> is the \<open>Drop\<close> of its guard.
\<close>

section \<open>Frames\<close>

datatype (plugins only: code size) frame =
    Register trigger
  | RegisterWith trigger "type_key option"
  | Registering trigger registrator
  | Park trigger
  | ParkDetach trigger "trigger option"
  | ParkDetaching trigger registrator trigger
  | Recheck trigger
  | RecheckWith trigger type_key
  | Claim string type_key registrator
  | Activating registrator trigger u64
  | RegisterType provider
  | TypeSnapshot type_key
  | TypeReplayWith type_key "trigger list"
  | TypeReplay type_key registrator "trigger list"
  | TypeReplaying type_key registrator trigger "trigger list"
  | TypePending type_key registrator
  | TypeDrain type_key registrator "string list"
  | TypeRehome type_key
  | RehomeSnapshot type_key registrator
  | Rehome type_key registrator "string list"
  | RehomeOld registrator trigger trigger u64
  | RehomeDetaching registrator registrator trigger trigger u64
  | RehomeCheck registrator registrator trigger trigger u64
  | RehomeReplaying registrator "registrator option" trigger trigger u64
  | FailOver trigger u64
  | FailOverWith trigger "type_key option" u64
  | FailOverReplaying trigger registrator u64
  | FailOverSettle trigger "registrator option" u64 bool
  | FailOverHome trigger
  | Unregister string
  | RemoveWith trigger u64
  | Removing trigger u64 registrator
  | RemoveFinish trigger u64 "registrator option"
  | UnregisterWorker uuid
  | WorkerSnapshot uuid
  | WorkerBindings uuid "string list" "type_key list"
  | WorkerDetach uuid trigger "string list" "type_key list"
  | WorkerDetaching uuid trigger registrator "string list" "type_key list"
  | WorkerTypes uuid "type_key list"
  | RemoveType type_key uuid
  | ParkRejected string uuid
  | ParkRejectedCheck string type_key uuid
  | Settle trigger registrator
  | Settling trigger registrator "(trigger \<times> registrator) option"
  | Sweep "uuid list"

datatype answer = Accepted | Unavailable | Failed

text \<open>
  What moves a frame: \<open>Run n\<close> runs a section, and \<open>n\<close> picks the next element of a loop;
  \<open>Reply\<close> is the answer of a provider, with the outcome of the \<open>Arc::ptr_eq\<close> that a repair makes
  after it; \<open>Expire\<close> is the end of a time limit.
\<close>

datatype input = Run nat | Reply answer bool | Expire

section \<open>Sections\<close>

definition pick :: "nat \<Rightarrow> 'a list \<Rightarrow> 'a \<times> 'a list" where
  "pick n xs = (let x = xs ! (n mod length xs) in (x, remove1 x xs))"

text \<open>\<open>rehome_fallback_bindings\<close> after a move was superseded or could not start.\<close>

definition settle_both ::
  "trigger \<Rightarrow> registrator \<Rightarrow> trigger \<Rightarrow> registrator option \<Rightarrow> frame list list"
where
  "settle_both target reg t old =
     [Settle target reg] # (case old of None \<Rightarrow> [] | Some old \<Rightarrow> [[Settle t old]])"

type_synonym outcome = "frame list \<times> frame list list \<times> registry"

definition on_run :: "input \<Rightarrow> (nat \<Rightarrow> outcome) \<Rightarrow> outcome option" where
  "on_run i f = (case i of Run n \<Rightarrow> Some (f n) | _ \<Rightarrow> None)"

definition on_reply :: "input \<Rightarrow> (answer \<Rightarrow> bool \<Rightarrow> outcome) \<Rightarrow> outcome option" where
  "on_reply i f = (case i of Reply a same \<Rightarrow> Some (f a same) | _ \<Rightarrow> None)"

definition on_timed_reply :: "input \<Rightarrow> (bool \<Rightarrow> bool \<Rightarrow> outcome) \<Rightarrow> outcome option" where
  "on_timed_reply i f =
     (case i of Reply a same \<Rightarrow> Some (f (a = Accepted) same) | Expire \<Rightarrow> Some (f False False)
      | Run _ \<Rightarrow> None)"

definition matching_triggers :: "type_key \<Rightarrow> registry \<Rightarrow> trigger list" where
  "matching_triggers key r =
     map snd (filter (\<lambda>(k, t). provider_key t = key \<and> map_of (failing_over r) k = None)
       (by_id (triggers r)))"

definition resolvable_intents :: "type_key \<Rightarrow> registry \<Rightarrow> string list" where
  "resolvable_intents key r =
     map fst (filter (\<lambda>(k, t). trigger_type t = snd key \<and> resolve_provider_key t r = Some key)
       (pending_triggers r))"

definition worker_bindings :: "uuid \<Rightarrow> registry \<Rightarrow> string list" where
  "worker_bindings w r = map fst (filter (\<lambda>(k, t). owner_worker t = Some w) (by_id (triggers r)))"

definition worker_types :: "uuid \<Rightarrow> registry \<Rightarrow> type_key list" where
  "worker_types w r = map fst (filter (\<lambda>(k, p). provider_worker p = Some w) (trigger_types r))"

definition fail_over_tasks :: "(trigger \<times> u64) list option \<Rightarrow> frame list list" where
  "fail_over_tasks claimed =
     (case claimed of None \<Rightarrow> [] | Some orphans \<Rightarrow> map (\<lambda>(t, token). [FailOver t token]) orphans)"

definition recovery_tasks :: "(trigger \<times> registrator + trigger \<times> u64) option \<Rightarrow> frame list list" where
  "recovery_tasks recovery =
     (case recovery of
        None \<Rightarrow> []
      | Some (Inl (t, reg)) \<Rightarrow> [[Settle t reg]]
      | Some (Inr (t, token)) \<Rightarrow> [[FailOver t token]])"

fun advance :: "frame \<Rightarrow> input \<Rightarrow> registry \<Rightarrow> outcome option" where
  "advance (Register t) i r = on_run i (\<lambda>_.
     case resolve_provider_key t r of
       Some key \<Rightarrow> ([RegisterWith (t\<lparr>provider_namespace := fst key\<rparr>) (Some key)], [], r)
     | None \<Rightarrow> ([RegisterWith t None], [], r))"
| "advance (RegisterWith t key) i r = on_run i (\<lambda>_.
     case Option.bind key (\<lambda>key. provider_registrator key r) of
       Some reg \<Rightarrow> ([Registering t reg], [], r)
     | None \<Rightarrow> ([Park t], [], r))"
| "advance (Registering t reg) i r = on_reply i (\<lambda>a _.
     case a of
       Accepted \<Rightarrow> ([], [], publish_binding t r)
     | Unavailable \<Rightarrow> ([], [], snd (park_intent t r))
     | Failed \<Rightarrow> ([], [], r))"
| "advance (Park t) i r = on_run i (\<lambda>_.
     let (superseded, r) = park_intent t r in ([ParkDetach t superseded], [], r))"
| "advance (ParkDetach t superseded) i r = on_run i (\<lambda>_.
     case superseded of
       None \<Rightarrow> ([Recheck t], [], r)
     | Some live \<Rightarrow>
         (case provider_registrator (provider_key live) r of
            Some reg \<Rightarrow> ([ParkDetaching t reg live], [], r)
          | None \<Rightarrow> ([Recheck t], [], r)))"
| "advance (ParkDetaching t reg live) i r = on_reply i (\<lambda>_ _. ([Recheck t], [], r))"
| "advance (Recheck t) i r = on_run i (\<lambda>_.
     case resolve_provider_key t r of
       Some key \<Rightarrow> ([RecheckWith t key], [], r)
     | None \<Rightarrow> ([], [], r))"
| "advance (RecheckWith t key) i r = on_run i (\<lambda>_.
     case provider_registrator key r of
       Some reg \<Rightarrow> ([Claim (binding_id t) key reg], [], r)
     | None \<Rightarrow> ([], [], r))"
| "advance (Claim k key reg) i r = on_run i (\<lambda>_.
     case claim_parked k key r of
       (Some (t, token), r) \<Rightarrow> ([Activating reg t token], [], r)
     | (None, r) \<Rightarrow> ([], [], r))"
| "advance (Activating reg t token) i r = on_reply i (\<lambda>a _.
     let (settled, r) = settle_activation t token (a = Accepted) r
     in ([], if settled = Some True then [] else [[Settle t reg]], r))"
| "advance (RegisterType p) i r = on_run i (\<lambda>_.
     let key = type_provider_key p
     in ([TypeSnapshot key], [], r\<lparr>trigger_types := map_insert key p (trigger_types r)\<rparr>))"
| "advance (TypeSnapshot key) i r = on_run i (\<lambda>_.
     ([TypeReplayWith key (matching_triggers key r)], [], r))"
| "advance (TypeReplayWith key ts) i r = on_run i (\<lambda>_.
     case provider_registrator key r of
       Some reg \<Rightarrow> ([TypeReplay key reg ts], [], r)
     | None \<Rightarrow> ([TypeRehome key], [], r))"
| "advance (TypeReplay key reg ts) i r = on_run i (\<lambda>n.
     if ts = [] then ([TypePending key reg], [], r)
     else let (t, ts) = pick n ts in ([TypeReplaying key reg t ts], [], r))"
| "advance (TypeReplaying key reg t ts) i r = on_reply i (\<lambda>_ _. ([TypeReplay key reg ts], [], r))"
| "advance (TypePending key reg) i r = on_run i (\<lambda>_.
     ([TypeDrain key reg (resolvable_intents key r)], [], r))"
| "advance (TypeDrain key reg ks) i r = on_run i (\<lambda>n.
     if ks = [] then ([TypeRehome key], [], r)
     else let (k, ks) = pick n ks in
       case claim_parked k key r of
         (Some (t, token), r) \<Rightarrow> ([Activating reg t token, TypeDrain key reg ks], [], r)
       | (None, r) \<Rightarrow> ([TypeDrain key reg ks], [], r))"
| "advance (TypeRehome key) i r = on_run i (\<lambda>_.
     if fst key = default_namespace then ([], [], r)
     else case provider_registrator key r of
       Some reg \<Rightarrow> ([RehomeSnapshot key reg], [], r)
     | None \<Rightarrow> ([], [], r))"
| "advance (RehomeSnapshot key reg) i r = on_run i (\<lambda>_.
     ([Rehome key reg (map binding_id (fallback_bindings_for key r))], [], r))"
| "advance (Rehome key reg ks) i r = on_run i (\<lambda>n.
     if ks = [] then ([], [], r)
     else let (k, ks) = pick n ks in
       case rehome_begin key k r of
         (Some (t, target, token), r) \<Rightarrow> ([RehomeOld reg t target token, Rehome key reg ks], [], r)
       | (None, r) \<Rightarrow> ([Rehome key reg ks], [], r))"
| "advance (RehomeOld reg t target token) i r = on_run i (\<lambda>_.
     case provider_registrator (provider_key t) r of
       Some old \<Rightarrow> ([RehomeDetaching reg old t target token], [], r)
     | None \<Rightarrow> ([RehomeReplaying reg None t target token], [], r))"
| "advance (RehomeDetaching reg old t target token) i r = on_reply i (\<lambda>a _.
     if a = Accepted then ([RehomeCheck reg old t target token], [], r)
     else ([], settle_both target reg t (Some old), snd (finish_transition (binding_id t) token r)))"
| "advance (RehomeCheck reg old t target token) i r = on_run i (\<lambda>_.
     if current_token (binding_id t) token r
     then ([RehomeReplaying reg (Some old) t target token], [], r)
     else ([], settle_both target reg t (Some old), r))"
| "advance (RehomeReplaying reg old t target token) i r = on_reply i (\<lambda>a _.
     let (settled, r) = rehome_settle target token (a = Accepted) r
     in ([], if settled \<and> a = Accepted then [] else if settled then [[Settle target reg]]
             else settle_both target reg t old, r))"
| "advance (FailOver orphan token) i r = on_run i (\<lambda>_.
     case fail_over_resolve orphan token r of
       (Some (moving, next), r) \<Rightarrow> ([FailOverWith moving next token], [], r)
     | (None, r) \<Rightarrow> ([], [], r))"
| "advance (FailOverWith moving next token) i r = on_run i (\<lambda>_.
     case Option.bind next (\<lambda>key. provider_registrator key r) of
       Some reg \<Rightarrow> ([FailOverReplaying moving reg token], [], r)
     | None \<Rightarrow> ([FailOverSettle moving None token False], [], r))"
| "advance (FailOverReplaying moving reg token) i r = on_timed_reply i (\<lambda>ok _.
     ([FailOverSettle moving (Some reg) token ok], [], r))"
| "advance (FailOverSettle moving reg token replayed) i r = on_run i (\<lambda>_.
     let (moved, r) = fail_over_settle moving token replayed r
     in (if moved \<and> is_on_fallback moving then [FailOverHome moving] else [],
         case reg of Some reg \<Rightarrow> if moved then [] else [[Settle moving reg]] | None \<Rightarrow> [], r))"
| "advance (FailOverHome moving) i r = on_run i (\<lambda>_.
     let home = (home_namespace moving, trigger_type moving)
     in case provider_registrator home r of
          Some reg \<Rightarrow> ([RehomeSnapshot home reg], [], r)
        | None \<Rightarrow> ([], [], r))"
| "advance (Unregister k) i r = on_run i (\<lambda>_.
     case begin_removal k r of
       (Inl _, r) \<Rightarrow> ([], [], r)
     | (Inr (t, token), r) \<Rightarrow> ([RemoveWith t token], [], r))"
| "advance (RemoveWith t token) i r = on_run i (\<lambda>_.
     case provider_registrator (provider_key t) r of
       Some reg \<Rightarrow> ([Removing t token reg], [], r)
     | None \<Rightarrow> ([RemoveFinish t token None], [], r))"
| "advance (Removing t token reg) i r = on_reply i (\<lambda>a _.
     if a = Accepted then ([RemoveFinish t token (Some reg)], [], r)
     else let (recovery, r) = recover_abandoned_removal True (binding_id t) token (Some reg) r
          in ([], recovery_tasks recovery, r))"
| "advance (RemoveFinish t token reg) i r = on_run i (\<lambda>_.
     let (removed, r) = finish_removal (binding_id t) token r
     in ([], case reg of Some reg \<Rightarrow> if removed then [] else [[Settle t reg]] | None \<Rightarrow> [], r))"
| "advance (UnregisterWorker w) i r = on_run i (\<lambda>_. ([WorkerSnapshot w], [], cancel_worker_claims w r))"
| "advance (WorkerSnapshot w) i r = on_run i (\<lambda>_.
     ([WorkerBindings w (worker_bindings w r) (worker_types w r)], [], r))"
| "advance (WorkerBindings w ks keys) i r = on_run i (\<lambda>n.
     if ks = [] then ([WorkerTypes w keys], [], drop_worker_intents w r)
     else let (k, ks) = pick n ks in
       case remove_worker_binding w k r of
         (Some t, r) \<Rightarrow> ([WorkerDetach w t ks keys], [], r)
       | (None, r) \<Rightarrow> ([WorkerBindings w ks keys], [], r))"
| "advance (WorkerDetach w t ks keys) i r = on_run i (\<lambda>_.
     case provider_registrator (provider_key t) r of
       Some reg \<Rightarrow> ([WorkerDetaching w t reg ks keys], [], r)
     | None \<Rightarrow> ([WorkerBindings w ks keys], [], r))"
| "advance (WorkerDetaching w t reg ks keys) i r = on_reply i (\<lambda>_ _.
     ([WorkerBindings w ks keys],
      if store_contains (binding_id t) (triggers r) then [[Settle t reg]] else [], r))"
| "advance (WorkerTypes w keys) i r = on_run i (\<lambda>n.
     if keys = [] then ([], [], r)
     else let (key, keys) = pick n keys;
              (claimed, r) = take_trigger_type_if_provider key w r
          in ([WorkerTypes w keys], fail_over_tasks claimed, r))"
| "advance (RemoveType key w) i r = on_run i (\<lambda>_.
     let (claimed, r) = take_trigger_type_if_provider key w r
     in ([], fail_over_tasks claimed, r))"
| "advance (ParkRejected k reporter) i r = on_run i (\<lambda>_.
     case park_rejected k r of
       (Some key, r) \<Rightarrow> ([ParkRejectedCheck k key reporter], [], r)
     | (None, r) \<Rightarrow> ([], [], r))"
| "advance (ParkRejectedCheck k key reporter) i r = on_run i (\<lambda>_.
     case map_of (trigger_types r) key of
       Some p \<Rightarrow> (if provider_worker p \<noteq> Some reporter then [Claim k key (type_registrator p)]
                  else [], [], r)
     | None \<Rightarrow> ([], [], r))"
| "advance (Settle stale touched) i r =
     (case i of
        Run _ \<Rightarrow> Some ([Settling stale touched (desired stale r)], [], r)
      | Expire \<Rightarrow> Some ([], [], r)
      | Reply _ _ \<Rightarrow> None)"
| "advance (Settling stale touched before) i r = on_timed_reply i (\<lambda>ok same.
     if \<not> ok then ([], [], r)
     else case before of
       Some (old, provider) \<Rightarrow>
         if provider = touched
         then (if same \<and> desired stale r = before then ([], [], r)
               else ([Settle stale touched], [], r))
         else (case desired stale r of
                 None \<Rightarrow> ([], [], r)
               | Some (_, now) \<Rightarrow> ([Settle stale now], [], r))
     | None \<Rightarrow>
         (case desired stale r of
            None \<Rightarrow> ([], [], r)
          | Some (_, now) \<Rightarrow> ([Settle stale now], [], r)))"
| "advance (Sweep connected) i r = on_run i (\<lambda>_.
     ([], [], sweep_dead_intents (\<lambda>w. w \<in> set connected) r))"

text \<open>What a frame asks of which provider while it waits for the answer.\<close>

datatype call = CallRegister trigger | CallReplay trigger | CallUnregister trigger

fun awaits :: "frame \<Rightarrow> (registrator \<times> call) option" where
  "awaits (Registering t reg) = Some (reg, CallRegister t)"
| "awaits (ParkDetaching t reg live) = Some (reg, CallUnregister live)"
| "awaits (Activating reg t token) = Some (reg, CallReplay t)"
| "awaits (TypeReplaying key reg t ts) = Some (reg, CallReplay t)"
| "awaits (RehomeDetaching reg old t target token) = Some (old, CallUnregister t)"
| "awaits (RehomeReplaying reg old t target token) = Some (reg, CallReplay target)"
| "awaits (FailOverReplaying moving reg token) = Some (reg, CallReplay moving)"
| "awaits (Removing t token reg) = Some (reg, CallUnregister t)"
| "awaits (WorkerDetaching w t reg ks keys) = Some (reg, CallUnregister t)"
| "awaits (Settling stale touched before) =
     Some (touched,
       case before of
         Some (current, provider) \<Rightarrow>
           if provider = touched then CallReplay current else CallUnregister stale
       | None \<Rightarrow> CallUnregister stale)"
| "awaits _ = None"

text \<open>The guard of a cancelled frame (\<open>TriggerTransitionGuard\<close>).\<close>

fun abort :: "bool \<Rightarrow> frame \<Rightarrow> registry \<Rightarrow> frame list list \<times> registry" where
  "abort runtime (Activating reg t token) r =
     (if runtime then [[Settle t reg]] else [], recover_abandoned_activation t token False r)"
| "abort runtime (RehomeDetaching reg old t target token) r =
     (if runtime then settle_both target reg t (Some old) else [],
      recover_abandoned_activation target token True r)"
| "abort runtime (RehomeReplaying reg old t target token) r =
     (if runtime then settle_both target reg t old else [],
      recover_abandoned_activation target token (old \<noteq> None) r)"
| "abort runtime (FailOverReplaying moving reg token) r =
     (if runtime then [[Settle moving reg]] else [],
      recover_abandoned_activation moving token False r)"
| "abort runtime (Removing t token reg) r =
     (let (recovery, r) = recover_abandoned_removal runtime (binding_id t) token (Some reg) r
      in (recovery_tasks recovery, r))"
| "abort runtime f r = ([], r)"

section \<open>Steps\<close>

record system =
  registry_of :: registry
  tasks :: "frame list list"

datatype label = Start frame | Advance nat input | Abort nat bool

fun entry :: "frame \<Rightarrow> bool" where
  "entry (Register t) = True"
| "entry (RegisterType p) = True"
| "entry (Unregister k) = True"
| "entry (UnregisterWorker w) = True"
| "entry (RemoveType key w) = True"
| "entry (ParkRejected k w) = True"
| "entry (Sweep connected) = True"
| "entry _ = False"

fun do_step :: "label \<Rightarrow> system \<Rightarrow> system option" where
  "do_step (Start f) s = (if entry f then Some (s\<lparr>tasks := tasks s @ [[f]]\<rparr>) else None)"
| "do_step (Advance n i) s =
     (if n < length (tasks s) then
        (case tasks s ! n of
           [] \<Rightarrow> None
         | f # rest \<Rightarrow>
             map_option
               (\<lambda>(fs, spawned, r). \<lparr>registry_of = r, tasks = (tasks s)[n := fs @ rest] @ spawned\<rparr>)
               (advance f i (registry_of s)))
      else None)"
| "do_step (Abort n runtime) s =
     (if n < length (tasks s) then
        (case tasks s ! n of
           [] \<Rightarrow> None
         | f # rest \<Rightarrow>
             if awaits f = None then None
             else (let (spawned, r) = abort runtime f (registry_of s)
                   in Some \<lparr>registry_of = r, tasks = (tasks s)[n := []] @ spawned\<rparr>))
      else None)"

definition system_new :: system where
  "system_new = \<lparr>registry_of = registry_new, tasks = []\<rparr>"

inductive registry_step :: "label \<Rightarrow> system \<Rightarrow> system \<Rightarrow> bool" where
  step: "do_step l s = Some s' \<Longrightarrow> registry_step l s s'"

text \<open>Runs whose steps are all \<open>allowed\<close>.\<close>

inductive registry_run :: "(label \<Rightarrow> system \<Rightarrow> bool) \<Rightarrow> system \<Rightarrow> system \<Rightarrow> bool"
  for allowed :: "label \<Rightarrow> system \<Rightarrow> bool"
where
  none: "registry_run allowed s s"
| more: "registry_run allowed s s' \<Longrightarrow> allowed l s' \<Longrightarrow> registry_step l s' s'' \<Longrightarrow>
    registry_run allowed s s''"

inductive_simps registry_step_iff: "registry_step l s s'"

text \<open>A schedule of allowed labels, run from a state.\<close>

fun run_labels :: "(label \<Rightarrow> system \<Rightarrow> bool) \<Rightarrow> label list \<Rightarrow> system \<Rightarrow> system option" where
  "run_labels allowed [] s = Some s"
| "run_labels allowed (l # ls) s =
     (if allowed l s then Option.bind (do_step l s) (run_labels allowed ls) else None)"

lemma run_labels_run:
  "run_labels allowed ls s = Some s' \<Longrightarrow> registry_run allowed s0 s \<Longrightarrow> registry_run allowed s0 s'"
proof (induction ls arbitrary: s)
  case (Cons l ls)
  then obtain s1 where "allowed l s" "do_step l s = Some s1" "run_labels allowed ls s1 = Some s'"
    by (auto split: bind_splits if_splits)
  with Cons show ?case by (blast intro: registry_run.more registry_step.step)
qed simp

lemmas run_labels_runs = run_labels_run [OF _ registry_run.none]

end
