(* ===== verification/Trigger_Views.thy ===== *)
theory Trigger_Views
  imports Trigger_Tasks
begin

text \<open>
  What each section of the registry does to the three places of a binding: bound to a provider,
  parked, or in flight.  The sections are described by equations and laws over these views, so
  that the proofs about interleavings never open their definitions.
\<close>

section \<open>Views\<close>

abbreviation bound_at :: "registry \<Rightarrow> string \<Rightarrow> trigger option" where
  "bound_at r k \<equiv> store_get k (triggers r)"

abbreviation parked :: "registry \<Rightarrow> string \<Rightarrow> trigger option" where
  "parked r k \<equiv> map_of (pending_triggers r) k"

abbreviation in_flight :: "registry \<Rightarrow> string \<Rightarrow> transition option" where
  "in_flight r k \<equiv> map_of (failing_over r) k"

definition registry_wf :: "registry \<Rightarrow> bool" where
  "registry_wf r \<longleftrightarrow>
     store_ok (triggers r) \<and> map_sorted (pending_triggers r) \<and> map_sorted (failing_over r) \<and>
     map_sorted (trigger_types r) \<and> failover_tokens r = of_nat (issued r)"

named_theorems views "what the sections of the registry do to the views"

lemma registry_wf_new: "registry_wf registry_new"
  by (simp add: registry_wf_def registry_new_def store_ok_new)

lemma wf_primitives [views]:
  "registry_wf r \<Longrightarrow> registry_wf (live_insert t r)"
  "registry_wf r \<Longrightarrow> registry_wf (live_remove k r)"
  "registry_wf r \<Longrightarrow> registry_wf (pending_insert t r)"
  "registry_wf r \<Longrightarrow> registry_wf (pending_remove k r)"
  "registry_wf r \<Longrightarrow> registry_wf (drop_token k r)"
  "registry_wf r \<Longrightarrow> registry_wf (snd (begin_transition t rem r))"
  "registry_wf r \<Longrightarrow> registry_wf (snd (finish_transition k token r))"
  by (simp_all add: registry_wf_def live_insert_def live_remove_def pending_insert_def
      pending_remove_def drop_token_def interrupt_failover_def begin_transition_def
      finish_transition_def map_laws Let_def add.commute)

lemma bound_primitives [views]:
  "registry_wf r \<Longrightarrow> bound_at (live_insert t r) k = (if k = binding_id t then Some t else bound_at r k)"
  "bound_at (live_remove k' r) k = (if k = k' then None else bound_at r k)"
  "bound_at (pending_insert t r) k = bound_at r k"
  "bound_at (pending_remove k' r) k = bound_at r k"
  "bound_at (drop_token k' r) k = bound_at r k"
  "bound_at (snd (begin_transition t rem r)) k = bound_at r k"
  "bound_at (snd (finish_transition k' token r)) k = bound_at r k"
  by (simp_all add: registry_wf_def live_insert_def live_remove_def pending_insert_def
      pending_remove_def drop_token_def interrupt_failover_def begin_transition_def
      finish_transition_def store_ok_def store_get_insert store_get_remove Let_def)

lemma parked_primitives [views]:
  "parked (live_insert t r) k = parked r k"
  "parked (live_remove k' r) k = parked r k"
  "registry_wf r \<Longrightarrow> parked (pending_insert t r) k = (if k = binding_id t then Some t else parked r k)"
  "parked (pending_remove k' r) k = (if k = k' then None else parked r k)"
  "parked (drop_token k' r) k = parked r k"
  "parked (snd (begin_transition t rem r)) k = parked r k"
  "parked (snd (finish_transition k' token r)) k = parked r k"
  by (simp_all add: registry_wf_def live_insert_def live_remove_def pending_insert_def
      pending_remove_def drop_token_def interrupt_failover_def begin_transition_def
      finish_transition_def map_laws Let_def)

lemma in_flight_primitives [views]:
  "in_flight (live_insert t r) k = in_flight r k"
  "in_flight (live_remove k' r) k = in_flight r k"
  "in_flight (pending_insert t r) k = in_flight r k"
  "in_flight (pending_remove k' r) k = in_flight r k"
  "in_flight (drop_token k' r) k = (if k = k' then None else in_flight r k)"
  "registry_wf r \<Longrightarrow> in_flight (snd (begin_transition t rem r)) k =
     (if k = binding_id t
      then Some \<lparr>transition_token = fst (begin_transition t rem r),
                 transition_worker = owner_worker t, removing = rem, transition_target = t\<rparr>
      else in_flight r k)"
  "in_flight (snd (finish_transition k' token r)) k =
     (if k = k' \<and> current_token k' token r then None else in_flight r k)"
  by (simp_all add: registry_wf_def live_insert_def live_remove_def pending_insert_def
      pending_remove_def drop_token_def interrupt_failover_def begin_transition_def
      finish_transition_def map_laws Let_def)

lemma finish_transition_fst [views]:
  "fst (finish_transition k token r) = current_token k token r"
  by (simp add: finish_transition_def)

lemma issued_primitives [views]:
  "issued (live_insert t r) = issued r"
  "issued (live_remove k r) = issued r"
  "issued (pending_insert t r) = issued r"
  "issued (pending_remove k r) = issued r"
  "issued (drop_token k r) = issued r"
  "issued (snd (begin_transition t rem r)) = Suc (issued r)"
  "issued (snd (finish_transition k token r)) = issued r"
  by (simp_all add: live_insert_def live_remove_def pending_insert_def pending_remove_def
      drop_token_def interrupt_failover_def begin_transition_def finish_transition_def Let_def)

lemma types_primitives [views]:
  "trigger_types (live_insert t r) = trigger_types r"
  "trigger_types (live_remove k r) = trigger_types r"
  "trigger_types (pending_insert t r) = trigger_types r"
  "trigger_types (pending_remove k r) = trigger_types r"
  "trigger_types (drop_token k r) = trigger_types r"
  "trigger_types (snd (begin_transition t rem r)) = trigger_types r"
  "trigger_types (snd (finish_transition k token r)) = trigger_types r"
  by (simp_all add: live_insert_def live_remove_def pending_insert_def pending_remove_def
      drop_token_def interrupt_failover_def begin_transition_def finish_transition_def Let_def)

lemma begin_transition_token:
  assumes "registry_wf r" and "Suc (issued r) < 2 ^ 64"
  shows "unat (fst (begin_transition t rem r)) = Suc (issued r)"
proof -
  have "fst (begin_transition t rem r) = of_nat (Suc (issued r))"
    using assms(1) by (simp only: begin_transition_def Let_def registry_wf_def fst_conv of_nat_Suc add.commute)
  moreover have "unat (of_nat (Suc (issued r)) :: u64) = Suc (issued r)"
    using assms(2) by (simp only: unat_of_nat take_bit_nat_eq_self_iff len_bit0 len_num1) simp
  ultimately show ?thesis by simp
qed

end
