(* ===== verification/Trigger_Lifecycle.thy ===== *)
theory Trigger_Lifecycle
  imports Trigger_Views
begin

text \<open>
  The life of one binding, as the registry promises it.  A binding is bound to a provider, parked
  as an intent, or in flight; the rules below are all that may happen to it, each for one of four
  reasons: the registry's own work, a registration of the binding, its removal, or the departure
  of workers.  \<open>Trigger_Steps\<close> shows that every step of the operations follows these rules for
  every binding.
\<close>

section \<open>Rules\<close>

datatype reason = Upkeep | Registration | Removal | Departure "uuid set"

type_synonym place = "trigger option \<times> trigger option \<times> transition option"

definition place_of :: "registry \<Rightarrow> string \<Rightarrow> place" where
  "place_of r k = (bound_at r k, parked r k, in_flight r k)"

definition is_moving :: "transition option \<Rightarrow> bool" where
  "is_moving f \<longleftrightarrow> (case f of Some op \<Rightarrow> \<not> removing op | None \<Rightarrow> False)"

definition under_removal :: "transition option \<Rightarrow> bool" where
  "under_removal f \<longleftrightarrow> (case f of Some op \<Rightarrow> removing op | None \<Rightarrow> False)"

text \<open>A transition that was begun with one of the tokens numbered above \<open>n\<close> and up to \<open>n'\<close>.\<close>

definition begun :: "bool \<Rightarrow> nat \<Rightarrow> nat \<Rightarrow> transition \<Rightarrow> bool" where
  "begun rem n n' op \<longleftrightarrow>
     removing op = rem \<and> n < unat (transition_token op) \<and> unat (transition_token op) \<le> n'"

text \<open>\<open>leaves ws o\<close>: the owner \<open>o\<close> is among the workers that depart.\<close>

fun leaves :: "uuid set \<Rightarrow> uuid option \<Rightarrow> bool" where
  "leaves ws None = False"
| "leaves ws (Some w) = (w \<in> ws)"

inductive lifecycle :: "reason \<Rightarrow> nat \<Rightarrow> nat \<Rightarrow> place \<Rightarrow> place \<Rightarrow> bool" where
  stay: "lifecycle why n n' p p"
| park: "lifecycle Registration n n' (b, p, f) (None, Some t, None)"
| publish: "lifecycle Registration n n' (b, p, f) (Some t, None, None)"
| claim: "\<not> under_removal f \<Longrightarrow> begun False n n' op \<Longrightarrow>
    lifecycle Upkeep n n' (b, Some t, f) (b, None, Some op)"
| move: "\<not> under_removal f \<Longrightarrow> begun False n n' op \<Longrightarrow>
    lifecycle Upkeep n n' (Some t, p, f) (Some t, p, Some op)"
| retarget: "transition_token op' = transition_token op \<Longrightarrow> removing op' = removing op \<Longrightarrow>
    lifecycle Upkeep n n' (b, p, Some op) (b, p, Some op')"
| settle: "is_moving (Some op) \<Longrightarrow> lifecycle Upkeep n n' (b, p, Some op) (Some t, p, None)"
| park_again: "is_moving (Some op) \<Longrightarrow> lifecycle Upkeep n n' (b, p, Some op) (None, Some t, None)"
| release: "is_moving (Some op) \<Longrightarrow> b \<noteq> None \<or> p \<noteq> None \<Longrightarrow>
    lifecycle Upkeep n n' (b, p, Some op) (b, p, None)"
| reject: "f' = (if under_removal f then f else None) \<Longrightarrow>
    lifecycle Upkeep n n' (Some t, p, f) (None, Some t, f')"
| begin_removal: "begun True n n' op \<Longrightarrow>
    lifecycle Removal n n' (Some t, p, f) (Some t, p, Some op)"
| cancel: "lifecycle Removal n n' (None, p, f) (None, None, None)"
| removed: "under_removal (Some op) \<Longrightarrow> lifecycle Removal n n' (b, p, Some op) (None, None, None)"
| removal_fails: "under_removal (Some op) \<Longrightarrow> lifecycle Upkeep n n' (b, p, Some op) (b, p, None)"
| removal_restarts: "under_removal (Some op) \<Longrightarrow> b \<noteq> None \<or> p \<noteq> None \<Longrightarrow> begun False n n' op' \<Longrightarrow>
    lifecycle Upkeep n n' (b, p, Some op) (b, None, Some op')"
| removal_parks: "under_removal (Some op) \<Longrightarrow> b = Some t \<or> p = Some t \<Longrightarrow>
    lifecycle Upkeep n n' (b, p, Some op) (None, Some t, None)"
| depart_intent: "leaves ws (owner_worker t) \<Longrightarrow>
    lifecycle (Departure ws) n n' (b, Some t, f) (b, None, f)"
| depart_claim: "leaves ws (transition_worker op) \<Longrightarrow>
    lifecycle (Departure ws) n n' (b, p, Some op) (b, p, None)"
| depart_both: "leaves ws (owner_worker t) \<Longrightarrow> leaves ws (transition_worker op) \<Longrightarrow>
    lifecycle (Departure ws) n n' (b, Some t, Some op) (b, None, None)"
| depart_binding: "leaves ws (owner_worker t) \<Longrightarrow>
    lifecycle (Departure ws) n n' (Some t, p, f) (None, p, None)"

section \<open>Consequences\<close>

text \<open>A binding rests in one place only, and a binding that moves is not parked.\<close>

fun one_place :: "place \<Rightarrow> bool" where
  "one_place (b, p, f) \<longleftrightarrow> (b = None \<or> p = None) \<and> (is_moving f \<longrightarrow> p = None)"

fun absent :: "place \<Rightarrow> bool" where
  "absent (b, p, f) \<longleftrightarrow> b = None \<and> p = None \<and> f = None"

text \<open>A binding is kept when it is bound, parked or on its way to either.\<close>

fun kept :: "place \<Rightarrow> bool" where
  "kept (b, p, f) \<longleftrightarrow> b \<noteq> None \<or> p \<noteq> None \<or> is_moving f"

fun owned_by :: "uuid set \<Rightarrow> place \<Rightarrow> bool" where
  "owned_by ws (b, p, f) \<longleftrightarrow>
     leaves ws (Option.bind b owner_worker) \<or> leaves ws (Option.bind p owner_worker) \<or>
     leaves ws (Option.bind f transition_worker)"

lemma is_moving_simps [simp]:
  "\<not> is_moving None" "is_moving (Some op) \<longleftrightarrow> \<not> removing op"
  "\<not> under_removal None" "under_removal (Some op) \<longleftrightarrow> removing op"
  by (simp_all add: is_moving_def under_removal_def)

lemma lifecycle_one_place: "lifecycle why n n' x y \<Longrightarrow> one_place x \<Longrightarrow> one_place y"
  by (induction rule: lifecycle.induct) (auto simp: begun_def is_moving_def under_removal_def split: option.splits)

lemma lifecycle_absent: "lifecycle why n n' x y \<Longrightarrow> why \<noteq> Registration \<Longrightarrow> absent x \<Longrightarrow> absent y"
  by (induction rule: lifecycle.induct) auto

lemma lifecycle_kept:
  "lifecycle why n n' x y \<Longrightarrow> kept x \<Longrightarrow> why \<noteq> Removal \<Longrightarrow>
   (\<And>ws. why = Departure ws \<Longrightarrow> \<not> owned_by ws x) \<Longrightarrow> kept y"
  by (induction rule: lifecycle.induct) (auto simp: begun_def)

text \<open>
  Tokens: after a step a transition is one that was there, or was begun in the step.
\<close>

lemma lifecycle_tokens:
  "lifecycle why n n' (b, p, f) (b', p', Some op') \<Longrightarrow>
   (\<exists>op. f = Some op \<and> transition_token op' = transition_token op \<and> removing op' = removing op)
   \<or> begun (removing op') n n' op'"
  by (cases rule: lifecycle.cases) (auto simp: begun_def split: if_splits)

lemma lifecycle_stays_bound:
  "lifecycle why n n' (b, p, f) (b', p', Some op') \<Longrightarrow> b \<noteq> None \<Longrightarrow> \<not> removing op' \<Longrightarrow>
   unat (transition_token op') \<le> n \<Longrightarrow> b' \<noteq> None"
  by (cases rule: lifecycle.cases) (auto simp: begun_def split: if_splits)

end
