(* ===== verification/Trigger_Sections.thy ===== *)
theory Trigger_Sections
  imports Trigger_Lifecycle
begin

text \<open>
  Every section of the registry follows the life cycle of bindings: one lemma per section,
  stated for all bindings at once.  A section that ends a transition does so for the holder of
  its token; what the holder knows of the transition is a hypothesis of the section's lemma.
\<close>

section \<open>Sound registries\<close>

definition names_agree :: "registry \<Rightarrow> bool" where
  "names_agree r \<longleftrightarrow>
     (\<forall>k t. bound_at r k = Some t \<or> parked r k = Some t \<longrightarrow> binding_id t = k) \<and>
     (\<forall>k op. in_flight r k = Some op \<longrightarrow> binding_id (transition_target op) = k)"

definition tokens_issued :: "registry \<Rightarrow> bool" where
  "tokens_issued r \<longleftrightarrow> (\<forall>k op. in_flight r k = Some op \<longrightarrow> unat (transition_token op) \<le> issued r)"

definition sound :: "registry \<Rightarrow> bool" where
  "sound r \<longleftrightarrow> registry_wf r \<and> names_agree r \<and> tokens_issued r"

text \<open>\<open>follows why r r'\<close>: as long as tokens do not repeat, \<open>r'\<close> comes from \<open>r\<close> by the life cycle.\<close>

definition follows :: "(string \<Rightarrow> reason) \<Rightarrow> registry \<Rightarrow> registry \<Rightarrow> bool" where
  "follows why r r' \<longleftrightarrow>
     issued r \<le> issued r' \<and>
     (issued r' < 2 ^ 64 \<longrightarrow> sound r \<longrightarrow>
        registry_wf r' \<and> names_agree r' \<and>
        (\<forall>k. lifecycle (why k) (issued r) (issued r') (place_of r k) (place_of r' k)))"

abbreviation upkeep :: "string \<Rightarrow> reason" where
  "upkeep \<equiv> \<lambda>_. Upkeep"

lemma soundD:
  assumes "sound r"
  shows "registry_wf r" "names_agree r" "tokens_issued r"
    "bound_at r k = Some t \<Longrightarrow> binding_id t = k" "parked r k = Some t \<Longrightarrow> binding_id t = k"
    "in_flight r k = Some op \<Longrightarrow> binding_id (transition_target op) = k"
    "in_flight r k = Some op \<Longrightarrow> unat (transition_token op) \<le> issued r"
  using assms by (auto simp: sound_def names_agree_def tokens_issued_def)

lemma follows_sound:
  assumes "follows why r r'" and "sound r" and "issued r' < 2 ^ 64"
  shows "sound r'"
proof -
  have "unat (transition_token op) \<le> issued r'" if "in_flight r' k = Some op" for k op
  proof -
    have "lifecycle (why k) (issued r) (issued r') (place_of r k) (place_of r' k)"
      using assms by (simp add: follows_def)
    with that have "(\<exists>op0. in_flight r k = Some op0 \<and> transition_token op = transition_token op0)
      \<or> begun (removing op) (issued r) (issued r') op"
      using lifecycle_tokens by (fastforce simp: place_of_def)
    with assms show ?thesis by (force simp: follows_def begun_def dest: soundD(7))
  qed
  with assms show ?thesis by (simp add: follows_def sound_def tokens_issued_def)
qed

lemma followsI:
  assumes "issued r \<le> issued r'"
    and "sound r \<Longrightarrow> issued r' < 2 ^ 64 \<Longrightarrow> registry_wf r' \<and> names_agree r'"
    and "\<And>k. sound r \<Longrightarrow> issued r' < 2 ^ 64 \<Longrightarrow>
      lifecycle (why k) (issued r) (issued r') (place_of r k) (place_of r' k)"
  shows "follows why r r'"
  using assms by (simp add: follows_def)

lemma follows_same: "follows why r r"
  by (auto intro!: followsI lifecycle.stay simp: soundD)

lemmas place_views = place_of_def split_beta Let_def views

section \<open>Registration\<close>

definition registers :: "string \<Rightarrow> string \<Rightarrow> reason" where
  "registers k0 = (\<lambda>k. if k = k0 then Registration else Upkeep)"

lemma park_intent_follows: "follows (registers (binding_id t)) r (snd (park_intent t r))"
  by (rule followsI)
    (auto simp: park_intent_def place_views registers_def soundD names_agree_def
      intro: lifecycle.intros)

lemma publish_binding_follows: "follows (registers (binding_id t)) r (publish_binding t r)"
  by (rule followsI)
    (auto simp: publish_binding_def place_views registers_def soundD names_agree_def
      intro: lifecycle.intros)

section \<open>Claims and settlements\<close>

text \<open>What the holder of a token knows: if the transition is still its own, it has its kind.\<close>

definition holds :: "bool \<Rightarrow> string \<Rightarrow> u64 \<Rightarrow> registry \<Rightarrow> bool" where
  "holds rem k token r \<longleftrightarrow>
     (\<forall>op. in_flight r k = Some op \<longrightarrow> transition_token op = token \<longrightarrow> removing op = rem)"

lemma begun_begin:
  "registry_wf r \<Longrightarrow> issued r = n \<Longrightarrow> Suc n < 2 ^ 64 \<Longrightarrow>
   begun rem n (Suc n) \<lparr>transition_token = fst (begin_transition t rem r), transition_worker = w,
     removing = rem, transition_target = u\<rparr>"
  by (simp add: begun_def begin_transition_token)

lemma begin_transition_id [simp]:
  "binding_id (t\<lparr>provider_namespace := ns\<rparr>) = binding_id t"
  "owner_worker (t\<lparr>provider_namespace := ns\<rparr>) = owner_worker t"
  by simp_all

lemma is_removing_under: "is_removing k r \<longleftrightarrow> under_removal (in_flight r k)"
  by (simp add: is_removing_def under_removal_def)

lemma claim_parked_follows: "follows upkeep r (snd (claim_parked k key r))"
  by (rule followsI)
    (auto simp: claim_parked_def place_views soundD names_agree_def is_removing_under
      split: option.splits intro!: lifecycle.claim begun_begin intro: lifecycle.stay)

lemma current_tokenD:
  "current_token k token r \<Longrightarrow> \<exists>op. in_flight r k = Some op \<and> transition_token op = token"
  by (auto simp: current_token_def split: option.splits)

text \<open>A settlement acts only when the token is current; then the transition has the holder's kind.\<close>

lemma settlement:
  assumes "holds rem k token r"
    and "\<And>op. in_flight r k = Some op \<Longrightarrow> removing op = rem \<Longrightarrow> current_token k token r \<Longrightarrow>
      follows why r r'"
    and "\<not> current_token k token r \<Longrightarrow> r' = r"
  shows "follows why r r'"
proof (cases "current_token k token r")
  case True
  then show ?thesis using assms(1,2) current_tokenD [OF True] by (auto simp: holds_def)
next
  case False
  then show ?thesis using assms(3) by (simp add: follows_same)
qed

lemma finish_transition_superseded: "\<not> current_token k token r \<Longrightarrow> finish_transition k token r = (False, r)"
  by (simp add: finish_transition_def)

lemma settle_activation_follows:
  assumes "holds False (binding_id t) token r"
  shows "follows upkeep r (snd (settle_activation t token replayed r))"
  by (rule settlement [OF assms], rule followsI)
    (auto simp: settle_activation_def place_views soundD names_agree_def store_contains_def
      finish_transition_superseded intro: lifecycle.intros)

lemma rehome_begin_follows: "follows upkeep r (snd (rehome_begin key k r))"
  by (rule followsI)
    (auto simp: rehome_begin_def place_views soundD names_agree_def
      split: option.splits intro!: lifecycle.move begun_begin intro: lifecycle.stay)

lemma rehome_settle_follows:
  assumes "holds False (binding_id t) token r"
  shows "follows upkeep r (snd (rehome_settle t token replayed r))"
  by (rule settlement [OF assms], rule followsI)
    (auto simp: rehome_settle_def place_views soundD names_agree_def
      finish_transition_superseded intro: lifecycle.intros)

lemma fail_over_settle_follows:
  assumes "holds False (binding_id t) token r"
  shows "follows upkeep r (snd (fail_over_settle t token replayed r))"
  by (rule settlement [OF assms], rule followsI)
    (auto simp: fail_over_settle_def place_views soundD names_agree_def
      finish_transition_superseded intro: lifecycle.intros)

lemma finish_transition_follows:
  assumes "holds False k token r" and "current_token k token r \<Longrightarrow> bound_at r k \<noteq> None"
  shows "follows upkeep r (snd (finish_transition k token r))"
  by (rule settlement [OF assms(1)], rule followsI)
    (use assms(2) in \<open>auto simp: place_views soundD names_agree_def
      finish_transition_superseded intro: lifecycle.intros\<close>)

lemma fail_over_resolve_follows: "follows upkeep r (snd (fail_over_resolve t token r))"
proof (rule followsI)
  assume "sound r"
  then show "registry_wf (snd (fail_over_resolve t token r)) \<and>
    names_agree (snd (fail_over_resolve t token r))"
    by (auto simp: fail_over_resolve_def Let_def sound_def registry_wf_def names_agree_def map_laws
        split: option.splits)
next
  fix k assume "sound r"
  then show "lifecycle Upkeep (issued r) (issued (snd (fail_over_resolve t token r)))
    (place_of r k) (place_of (snd (fail_over_resolve t token r)) k)"
    by (auto simp: fail_over_resolve_def Let_def sound_def registry_wf_def place_of_def map_laws
        split: option.splits intro: lifecycle.stay intro!: lifecycle.retarget)
qed (simp add: fail_over_resolve_def Let_def split: option.split)

section \<open>Providers that come and go\<close>

lemma types_follow: "map_sorted ts \<Longrightarrow> follows why r (r\<lparr>trigger_types := ts\<rparr>)"
  by (rule followsI)
    (auto simp: place_of_def sound_def registry_wf_def names_agree_def intro: lifecycle.stay)

lemma claim_orphans_views:
  "bound_at (snd (claim_orphans ts r)) k = bound_at r k"
  "parked (snd (claim_orphans ts r)) k = parked r k"
  "issued (snd (claim_orphans ts r)) = issued r + length ts"
  "trigger_types (snd (claim_orphans ts r)) = trigger_types r"
  "registry_wf r \<Longrightarrow> registry_wf (snd (claim_orphans ts r))"
  by (induction ts arbitrary: r) (simp_all add: split_beta Let_def views)

lemma claim_orphans_in_flight:
  "registry_wf r \<Longrightarrow> issued r + length ts < 2 ^ 64 \<Longrightarrow>
   in_flight (snd (claim_orphans ts r)) k = in_flight r k \<or>
   (k \<in> binding_id ` set ts \<and>
    (\<exists>op. in_flight (snd (claim_orphans ts r)) k = Some op \<and>
       begun False (issued r) (issued r + length ts) op \<and> binding_id (transition_target op) = k))"
proof (induction ts arbitrary: r)
  case (Cons t ts)
  let ?r = "snd (begin_transition t False r)"
  have "in_flight (snd (claim_orphans ts ?r)) k = in_flight ?r k \<or>
   (k \<in> binding_id ` set ts \<and>
    (\<exists>op. in_flight (snd (claim_orphans ts ?r)) k = Some op \<and>
       begun False (issued ?r) (issued ?r + length ts) op \<and> binding_id (transition_target op) = k))"
    by (rule Cons.IH) (use Cons.prems in \<open>simp_all add: views\<close>)
  then show ?case
  proof
    assume "in_flight (snd (claim_orphans ts ?r)) k = in_flight ?r k"
    then show ?thesis
      using Cons.prems by (auto simp: split_beta Let_def views begun_def begin_transition_token)
  qed (auto simp: split_beta Let_def views begun_def)
qed simp

lemma take_trigger_type_follows: "follows upkeep r (snd (take_trigger_type_if_provider key w r))"
proof (cases "\<exists>p. map_of (trigger_types r) key = Some p \<and> provider_worker p = Some w")
  case False
  then have "snd (take_trigger_type_if_provider key w r) = r"
    by (auto simp: take_trigger_type_if_provider_def split: option.split)
  then show ?thesis by (simp add: follows_same)
next
  case True
  define r0 where "r0 = r\<lparr>trigger_types := map_remove key (trigger_types r)\<rparr>"
  define ts where "ts = map snd (filter (\<lambda>(k, t). provider_key t = key \<and> \<not> is_removing k r0)
    (by_id (triggers r0)))"
  have take: "snd (take_trigger_type_if_provider key w r) = snd (claim_orphans ts r0)"
    using True by (auto simp: take_trigger_type_if_provider_def r0_def ts_def Let_def split_beta)
  have views0: "triggers r0 = triggers r" "pending_triggers r0 = pending_triggers r"
    "failing_over r0 = failing_over r"
    "issued r0 = issued r"
    by (simp_all add: r0_def)
  have wf0: "registry_wf r0" if "sound r"
    using that by (simp add: r0_def sound_def registry_wf_def map_laws)
  have orphan: "\<exists>t. bound_at r k = Some t \<and> \<not> under_removal (in_flight r k)"
    if "sound r" and "k \<in> binding_id ` set ts" for k
  proof -
    from that obtain k' t where t: "(k', t) \<in> set (by_id (triggers r))" "\<not> is_removing k' r"
      "binding_id t = k"
      by (auto simp: ts_def r0_def is_removing_def)
    with that(1) have "bound_at r k' = Some t"
      by (simp add: store_get_def sound_def registry_wf_def store_ok_def store_wf_def map_of_mem_iff)
    moreover from this that(1) t have "k' = k" by (auto dest: soundD(4))
    ultimately show ?thesis using t by (auto simp: is_removing_under)
  qed
  show ?thesis
    unfolding take
  proof (rule followsI)
    assume s: "sound r" and n: "issued (snd (claim_orphans ts r0)) < 2 ^ 64"
    show "registry_wf (snd (claim_orphans ts r0)) \<and> names_agree (snd (claim_orphans ts r0))"
    proof
      show "registry_wf (snd (claim_orphans ts r0))" using wf0 [OF s] by (rule claim_orphans_views)
      have "binding_id (transition_target op) = k"
        if "in_flight (snd (claim_orphans ts r0)) k = Some op" for k op
        using claim_orphans_in_flight [of r0 ts k] wf0 [OF s] n that soundD(6) [OF s, of k op]
        by (auto simp: claim_orphans_views views0)
      then show "names_agree (snd (claim_orphans ts r0))"
        using soundD(4,5) [OF s] by (auto simp: names_agree_def claim_orphans_views views0)
    qed
  next
    fix k assume s: "sound r" and n: "issued (snd (claim_orphans ts r0)) < 2 ^ 64"
    show "lifecycle Upkeep (issued r) (issued (snd (claim_orphans ts r0)))
      (place_of r k) (place_of (snd (claim_orphans ts r0)) k)"
      using claim_orphans_in_flight [of r0 ts k] wf0 [OF s] n orphan [OF s, of k]
      by (auto simp: place_of_def claim_orphans_views views0 intro: lifecycle.stay)
        (rule lifecycle.move)
  qed (simp add: claim_orphans_views views0)
qed

section \<open>Removal\<close>

definition removes :: "string \<Rightarrow> string \<Rightarrow> reason" where
  "removes k0 = (\<lambda>k. if k = k0 then Removal else Upkeep)"

lemma interrupt_failover_drop: "interrupt_failover k r = (in_flight r k \<noteq> None, drop_token k r)"
  by (simp add: interrupt_failover_def drop_token_def)

lemma begin_removal_follows: "follows (removes k) r (snd (begin_removal k r))"
  by (rule followsI)
    (auto simp: begin_removal_def interrupt_failover_drop place_views soundD names_agree_def removes_def
      split: option.splits intro!: lifecycle.begin_removal begun_begin
      intro: lifecycle.stay lifecycle.cancel)

lemma finish_removal_follows:
  assumes "holds True k token r"
  shows "follows (removes k) r (snd (finish_removal k token r))"
  by (rule settlement [OF assms], rule followsI)
    (auto simp: finish_removal_def place_views soundD names_agree_def removes_def
      finish_transition_superseded intro: lifecycle.intros)

lemma drop_removal_follows:
  assumes "in_flight r k = Some op" and "removing op"
  shows "follows upkeep r (drop_token k r)"
  by (rule followsI)
    (use assms in \<open>auto simp: place_views soundD names_agree_def
      intro: lifecycle.stay lifecycle.removal_fails\<close>)

lemma restart_removal_follows:
  assumes op: "in_flight r k = Some op" "removing op"
    and t: "bound_at r k = Some t \<or> parked r k = Some t"
  shows "follows upkeep r (snd (begin_transition t False (pending_remove k (drop_token k r))))"
    (is "follows upkeep r ?r")
proof (rule followsI)
  assume s: "sound r"
  with t have "binding_id t = k" by (auto dest: soundD)
  then show "registry_wf ?r \<and> names_agree ?r"
    using soundD(1,2) [OF s] by (simp add: names_agree_def views)
next
  fix k' assume s: "sound r" and n: "issued ?r < 2 ^ 64"
  from s t have "binding_id t = k" by (auto dest: soundD)
  moreover have "begun False (issued r) (Suc (issued r)) \<lparr>transition_token =
      fst (begin_transition t False (pending_remove k (drop_token k r))),
      transition_worker = owner_worker t, removing = False, transition_target = t\<rparr>"
    using soundD(1) [OF s] n by (intro begun_begin) (simp_all add: views)
  ultimately show "lifecycle Upkeep (issued r) (issued ?r) (place_of r k') (place_of ?r k')"
    using op t soundD(1) [OF s]
    by (cases "k' = k") (auto simp: place_of_def views intro: lifecycle.stay lifecycle.removal_restarts)
qed (simp add: views)

lemma park_removal_follows:
  assumes op: "in_flight r k = Some op" "removing op"
    and t: "bound_at r k = Some t \<or> parked r k = Some t"
  shows "follows upkeep r (pending_insert t (live_remove k (drop_token k r)))"
    (is "follows upkeep r ?r")
proof (rule followsI)
  assume s: "sound r"
  with t have "binding_id t = k" by (auto dest: soundD)
  then show "registry_wf ?r \<and> names_agree ?r"
    using soundD(1,2) [OF s] by (simp add: names_agree_def views)
next
  fix k' assume s: "sound r"
  from s t have "binding_id t = k" by (auto dest: soundD)
  then show "lifecycle Upkeep (issued r) (issued ?r) (place_of r k') (place_of ?r k')"
    using op t soundD(1) [OF s]
    by (cases "k' = k") (auto simp: place_of_def views intro: lifecycle.stay lifecycle.removal_parks)
qed (simp add: views)

lemma recover_abandoned_removal_follows:
  assumes "holds True k token r"
  shows "follows upkeep r (snd (recover_abandoned_removal runtime k token before r))"
proof (rule settlement [OF assms])
  fix op assume op: "in_flight r k = Some op" "removing op = True" "current_token k token r"
  then have "transition_token op = token" by (simp add: current_token_def)
  with op show "follows upkeep r (snd (recover_abandoned_removal runtime k token before r))"
    using drop_removal_follows [of r k op] restart_removal_follows [of r k op]
      park_removal_follows [of r k op]
    by (auto simp: recover_abandoned_removal_def Let_def split_beta views split: option.split)
qed (auto simp: recover_abandoned_removal_def current_token_def split: option.splits)

lemma recover_abandoned_activation_follows:
  assumes "holds False (binding_id t) token r"
  shows "follows upkeep r (recover_abandoned_activation t token has_source r)"
  by (rule settlement [OF assms], rule followsI)
    (auto simp: recover_abandoned_activation_def place_views soundD names_agree_def current_token_def
      store_contains_def split: option.splits
      intro: lifecycle.stay lifecycle.park_again lifecycle.release)

section \<open>Departures and rejections\<close>

lemma park_rejected_follows: "follows upkeep r (snd (park_rejected k r))"
  by (rule followsI)
    (auto simp: park_rejected_def place_views soundD names_agree_def is_removing_under
      split: option.splits intro: lifecycle.stay intro!: lifecycle.reject)

lemma map_of_filter_value:
  "map_sorted m \<Longrightarrow> map_of (filter (\<lambda>(k, v). P v) m) k =
     (case map_of m k of Some v \<Rightarrow> if P v then Some v else None | None \<Rightarrow> None)"
  using map_of_filter_snd [of m P k] by (simp add: case_prod_unfold)

definition departs :: "uuid set \<Rightarrow> string \<Rightarrow> reason" where
  "departs ws = (\<lambda>_. Departure ws)"

lemma leaves_singleton [simp]: "leaves {w} o' \<longleftrightarrow> o' = Some w"
  by (cases o') auto

lemma cancel_worker_claims_follows: "follows (departs {w}) r (cancel_worker_claims w r)"
proof (rule followsI)
  assume "sound r"
  then show "registry_wf (cancel_worker_claims w r) \<and> names_agree (cancel_worker_claims w r)"
    by (auto simp: cancel_worker_claims_def sound_def registry_wf_def names_agree_def map_of_mem_iff
        map_sorted_filter)
next
  fix k assume "sound r"
  then show "lifecycle (departs {w} k) (issued r) (issued (cancel_worker_claims w r))
    (place_of r k) (place_of (cancel_worker_claims w r) k)"
    by (auto simp: cancel_worker_claims_def sound_def registry_wf_def place_of_def departs_def
        map_of_filter_value split: option.split intro: lifecycle.intros)
qed (simp add: cancel_worker_claims_def)

lemma intents_filter_follows:
  assumes "\<And>t. \<not> P t \<Longrightarrow> leaves ws (owner_worker t)"
  shows "follows (departs ws) r (r\<lparr>pending_triggers := filter (\<lambda>(k, t). P t) (pending_triggers r)\<rparr>)"
    (is "follows _ r ?r")
proof (rule followsI)
  assume "sound r"
  then show "registry_wf ?r \<and> names_agree ?r"
    by (auto simp: sound_def registry_wf_def names_agree_def map_of_mem_iff map_sorted_filter)
next
  fix k assume "sound r"
  then show "lifecycle (departs ws k) (issued r) (issued ?r) (place_of r k) (place_of ?r k)"
    using assms
    by (auto simp: sound_def registry_wf_def place_of_def departs_def map_of_filter_value
        split: option.split intro: lifecycle.stay lifecycle.depart_intent)
qed simp

lemma drop_worker_intents_follows: "follows (departs {w}) r (drop_worker_intents w r)"
  unfolding drop_worker_intents_def by (rule intents_filter_follows) simp

lemma sweep_dead_intents_follows:
  "follows (departs {w. \<not> connected w}) r (sweep_dead_intents connected r)"
  unfolding sweep_dead_intents_def by (rule intents_filter_follows) (auto split: option.splits)

lemma remove_worker_binding_follows: "follows (departs {w}) r (snd (remove_worker_binding w k r))"
proof (rule followsI)
  assume "sound r"
  then show "registry_wf (snd (remove_worker_binding w k r)) \<and>
    names_agree (snd (remove_worker_binding w k r))"
    by (auto simp: remove_worker_binding_def sound_def registry_wf_def names_agree_def drop_token_def
        interrupt_failover_def split_beta Let_def store_get_remove_if map_laws
        split: option.split if_splits)
next
  fix k' assume "sound r"
  then show "lifecycle (departs {w} k') (issued r) (issued (snd (remove_worker_binding w k r)))
    (place_of r k') (place_of (snd (remove_worker_binding w k r)) k')"
    by (auto simp: remove_worker_binding_def place_of_def departs_def drop_token_def
        interrupt_failover_def split_beta Let_def store_get_remove_if fst_store_remove map_laws
        split: option.split if_splits intro: lifecycle.stay lifecycle.depart_binding)
qed (simp add: remove_worker_binding_def split_beta Let_def views split: option.split)

end
