(* ===== verification/Trigger_Steps.thy ===== *)
theory Trigger_Steps
  imports Trigger_Sections
begin

text \<open>
  The interleaved operations of the trigger registry follow the life cycle of bindings, whatever
  the order of their sections, the answers of the providers and the cancellations.  From this:
  a binding rests in one place, a removed binding is not brought back, and no binding is lost.
\<close>

section \<open>What a task holds\<close>

fun frame_token :: "frame \<Rightarrow> (bool \<times> string \<times> u64) option" where
  "frame_token (Activating reg t token) = Some (False, binding_id t, token)"
| "frame_token (RehomeOld reg t target token) = Some (False, binding_id t, token)"
| "frame_token (RehomeDetaching reg old t target token) = Some (False, binding_id t, token)"
| "frame_token (RehomeCheck reg old t target token) = Some (False, binding_id t, token)"
| "frame_token (RehomeReplaying reg old t target token) = Some (False, binding_id t, token)"
| "frame_token (FailOver t token) = Some (False, binding_id t, token)"
| "frame_token (FailOverWith t next token) = Some (False, binding_id t, token)"
| "frame_token (FailOverReplaying t reg token) = Some (False, binding_id t, token)"
| "frame_token (FailOverSettle t reg token replayed) = Some (False, binding_id t, token)"
| "frame_token (RemoveWith t token) = Some (True, binding_id t, token)"
| "frame_token (Removing t token reg) = Some (True, binding_id t, token)"
| "frame_token (RemoveFinish t token reg) = Some (True, binding_id t, token)"
| "frame_token _ = None"

text \<open>A frame that takes a binding home; until it settles, the binding stays bound.\<close>

fun rehomes :: "frame \<Rightarrow> (trigger \<times> trigger) option" where
  "rehomes (RehomeOld reg t target token) = Some (t, target)"
| "rehomes (RehomeDetaching reg old t target token) = Some (t, target)"
| "rehomes (RehomeCheck reg old t target token) = Some (t, target)"
| "rehomes (RehomeReplaying reg old t target token) = Some (t, target)"
| "rehomes _ = None"

definition frame_ok :: "registry \<Rightarrow> frame \<Rightarrow> bool" where
  "frame_ok r f \<longleftrightarrow>
     (\<forall>rem k token. frame_token f = Some (rem, k, token) \<longrightarrow>
        unat token \<le> issued r \<and> holds rem k token r \<and>
        (\<forall>t target. rehomes f = Some (t, target) \<longrightarrow>
           binding_id target = binding_id t \<and> (current_token k token r \<longrightarrow> bound_at r k \<noteq> None)))"

lemma frame_ok_plain: "frame_token f = None \<Longrightarrow> frame_ok r f"
  by (simp add: frame_ok_def)

lemma frame_ok_Settle [simp]: "frame_ok r (Settle t reg)"
  by (simp add: frame_ok_plain)

lemma holds_follows:
  assumes "follows why r r'" and "sound r" and "issued r' < 2 ^ 64"
    and "holds rem k token r" and "unat token \<le> issued r"
  shows "holds rem k token r' \<and> unat token \<le> issued r'"
proof -
  have life: "lifecycle (why k) (issued r) (issued r') (place_of r k) (place_of r' k)"
    using assms by (simp add: follows_def)
  have "removing op = rem" if "in_flight r' k = Some op" "transition_token op = token" for op
    using life lifecycle_tokens [of "why k" "issued r" "issued r'" "bound_at r k" "parked r k"
        "in_flight r k" "bound_at r' k" "parked r' k" op] that assms(4,5)
    by (auto simp: place_of_def holds_def begun_def)
  with assms show ?thesis by (auto simp: holds_def follows_def)
qed

lemma rehomes_token:
  assumes "rehomes f = Some x"
  shows "frame_token f = Some (rem, k, token) \<Longrightarrow> \<not> rem"
  using assms by (cases f rule: rehomes.cases) simp_all

lemma frame_ok_follows:
  assumes "follows why r r'" and "sound r" and "issued r' < 2 ^ 64" and "frame_ok r f"
  shows "frame_ok r' f"
  unfolding frame_ok_def
proof (intro allI impI)
  fix rem k token
  assume f: "frame_token f = Some (rem, k, token)"
  with assms(4) have t: "unat token \<le> issued r" "holds rem k token r" by (auto simp: frame_ok_def)
  have now: "holds rem k token r' \<and> unat token \<le> issued r'"
    using holds_follows [OF assms(1-3) t(2,1)] .
  have life: "lifecycle (why k) (issued r) (issued r') (place_of r k) (place_of r' k)"
    using assms by (simp add: follows_def)
  have "bound_at r' k \<noteq> None" if "rehomes f = Some (u, target)" "current_token k token r'" for u target
  proof -
    from that(2) obtain op where op: "in_flight r' k = Some op" "transition_token op = token"
      using current_tokenD by blast
    have "\<not> rem" using rehomes_token [OF that(1) f] .
    with now op have free: "\<not> removing op" by (simp add: holds_def)
    have "(\<exists>op0. in_flight r k = Some op0 \<and> transition_token op = transition_token op0)
      \<or> begun (removing op) (issued r) (issued r') op"
      using life lifecycle_tokens [of "why k" "issued r" "issued r'" "bound_at r k" "parked r k"
        "in_flight r k" "bound_at r' k" "parked r' k" op] op(1)
      by (auto simp: place_of_def)
    then have "current_token k token r"
      using op(2) t(1) by (auto simp: begun_def current_token_def)
    with that(1) f assms(4) have "bound_at r k \<noteq> None" by (simp add: frame_ok_def)
    with life op free t(1) show ?thesis
      using lifecycle_stays_bound [of "why k" "issued r" "issued r'" "bound_at r k" "parked r k"
        "in_flight r k" "bound_at r' k" "parked r' k" op]
      by (simp add: place_of_def)
  qed
  moreover have "binding_id target = binding_id u" if "rehomes f = Some (u, target)" for u target
    using that f assms(4) by (simp add: frame_ok_def)
  ultimately show "unat token \<le> issued r' \<and> holds rem k token r' \<and>
    (\<forall>t target. rehomes f = Some (t, target) \<longrightarrow>
       binding_id target = binding_id t \<and> (current_token k token r' \<longrightarrow> bound_at r' k \<noteq> None))"
    using now by blast
qed

section \<open>Tokens that sections hand out\<close>

lemma holds_begun:
  assumes "registry_wf r" and "Suc (issued r) < 2 ^ 64"
  shows "holds rem (binding_id t) (fst (begin_transition t rem r)) (snd (begin_transition t rem r)) \<and>
    unat (fst (begin_transition t rem r)) \<le> issued (snd (begin_transition t rem r))"
  using assms by (auto simp: holds_def views begin_transition_token)

lemma claim_parked_token:
  assumes "claim_parked k key r = (Some (t, token), r')" and "sound r" and "issued r' < 2 ^ 64"
  shows "frame_ok r' (Activating reg t token)"
proof -
  from assms(1) obtain u where
    t: "t = u\<lparr>provider_namespace := fst key\<rparr>" "(token, r') = begin_transition t False (pending_remove k r)"
    by (auto simp: claim_parked_def Let_def split_beta split: if_splits option.splits)
  then have "token = fst (begin_transition t False (pending_remove k r))"
    "r' = snd (begin_transition t False (pending_remove k r))"
    by (metis fst_conv, metis snd_conv)
  then show ?thesis
    using holds_begun [of "pending_remove k r" False t] assms(2,3) soundD(1)
    by (simp add: frame_ok_def views)
qed

lemma rehome_begin_token:
  assumes "rehome_begin key k r = (Some (t, target, token), r')" and "sound r" and "issued r' < 2 ^ 64"
  shows "frame_ok r' (RehomeOld reg t target token)"
proof -
  from assms(1) have t: "bound_at r k = Some t" "target = t\<lparr>provider_namespace := fst key\<rparr>"
    "begin_transition target False r = (token, r')"
    by (auto simp: rehome_begin_def Let_def split_beta split: if_splits option.splits)
  then have r': "token = fst (begin_transition target False r)" "r' = snd (begin_transition target False r)"
    by simp_all
  have "binding_id t = k" using assms(2) t(1) by (rule soundD)
  then show ?thesis
    using holds_begun [of r False target] assms(3) soundD(1) [OF assms(2)] t(1,2)
    by (simp add: frame_ok_def views r')
qed

lemma begin_removal_token:
  assumes "begin_removal k r = (Inr (t, token), r')" and "sound r" and "issued r' < 2 ^ 64"
  shows "frame_ok r' (RemoveWith t token)"
proof -
  from assms(1) have "begin_transition t True r = (token, r')"
    by (auto simp: begin_removal_def Let_def split_beta split: option.splits)
  then have r': "token = fst (begin_transition t True r)" "r' = snd (begin_transition t True r)"
    by simp_all
  show ?thesis
    using holds_begun [of r True t] assms(3) soundD(1) [OF assms(2)] by (simp add: frame_ok_def views r')
qed

lemma recovery_token:
  assumes "recover_abandoned_removal runtime k token before r = (Some (Inr (t, token')), r')"
    and "sound r" and "issued r' < 2 ^ 64"
  shows "frame_ok r' (FailOver t token')"
proof -
  define r0 where "r0 = pending_remove k (drop_token k r)"
  from assms(1) have "begin_transition t False r0 = (token', r')"
    by (auto simp: recover_abandoned_removal_def Let_def split_beta r0_def
        split: option.splits if_splits)
  then have r': "token' = fst (begin_transition t False r0)" "r' = snd (begin_transition t False r0)"
    by simp_all
  have "registry_wf r0" using soundD(1) [OF assms(2)] by (simp add: r0_def views)
  then show ?thesis
    using holds_begun [of r0 False t] assms(3) by (simp add: frame_ok_def views r')
qed

lemma claim_orphans_tokens:
  "registry_wf r \<Longrightarrow> issued r + length ts < 2 ^ 64 \<Longrightarrow>
   (t, token) \<in> set (fst (claim_orphans ts r)) \<Longrightarrow>
   issued r < unat token \<and> unat token \<le> issued r + length ts"
proof (induction ts arbitrary: r)
  case (Cons u ts)
  let ?r = "snd (begin_transition u False r)"
  have "unat (fst (begin_transition u False r)) = Suc (issued r)"
    using Cons.prems by (intro begin_transition_token) simp_all
  moreover have "issued ?r < unat token \<and> unat token \<le> issued ?r + length ts"
    if "(t, token) \<in> set (fst (claim_orphans ts ?r))"
    by (rule Cons.IH) (use Cons.prems that in \<open>simp_all add: views\<close>)
  ultimately show ?case
    using Cons.prems(3) by (auto simp: split_beta Let_def views)
qed simp

lemma take_trigger_type_tokens:
  assumes "take_trigger_type_if_provider key w r = (Some claimed, r')"
    and "sound r" and "issued r' < 2 ^ 64" and "(t, token) \<in> set claimed"
  shows "frame_ok r' (FailOver t token)"
proof -
  define r0 where "r0 = r\<lparr>trigger_types := map_remove key (trigger_types r)\<rparr>"
  from assms(1) obtain ts where "claim_orphans ts r0 = (claimed, r')"
    by (auto simp: take_trigger_type_if_provider_def Let_def split_beta r0_def
        split: option.splits if_splits)
  then have eq: "claimed = fst (claim_orphans ts r0)" "r' = snd (claim_orphans ts r0)" by simp_all
  have r0: "registry_wf r0" "issued r0 = issued r" "failing_over r0 = failing_over r"
    using soundD(1) [OF assms(2)] by (simp_all add: r0_def registry_wf_def map_laws)
  have n: "issued r0 + length ts < 2 ^ 64" using assms(3) by (simp add: eq claim_orphans_views)
  have token: "issued r < unat token \<and> unat token \<le> issued r'"
    using claim_orphans_tokens [OF r0(1) n] assms(4) by (simp add: eq claim_orphans_views r0)
  have "\<not> removing op" if "in_flight r' k = Some op" "transition_token op = token" for k op
    using claim_orphans_in_flight [OF r0(1) n, of k] that token soundD(7) [OF assms(2), of k op]
    by (auto simp: eq r0 begun_def)
  then show ?thesis using token by (auto simp: frame_ok_def holds_def)
qed

lemma fail_over_resolve_token:
  assumes "fail_over_resolve t token r = (Some (moving, next), r')"
    and "sound r" and "issued r' < 2 ^ 64" and "frame_ok r (FailOver t token)"
  shows "frame_ok r' (FailOverWith moving next token)"
proof -
  have "follows upkeep r r'"
    using fail_over_resolve_follows [of r t token] assms(1) by simp
  then have "frame_ok r' (FailOver t token)"
    using frame_ok_follows assms(2-4) by blast
  moreover have "binding_id moving = binding_id t"
    using assms(1) by (auto simp: fail_over_resolve_def Let_def split: option.splits if_splits)
  ultimately show ?thesis by (simp add: frame_ok_def)
qed

section \<open>Steps follow the life cycle\<close>

fun reason_of :: "frame \<Rightarrow> string \<Rightarrow> reason" where
  "reason_of (Registering t reg) = registers (binding_id t)"
| "reason_of (Park t) = registers (binding_id t)"
| "reason_of (Unregister k) = removes k"
| "reason_of (RemoveFinish t token reg) = removes (binding_id t)"
| "reason_of (UnregisterWorker w) = departs {w}"
| "reason_of (WorkerBindings w ks keys) = departs {w}"
| "reason_of (Sweep connected) = departs {w. w \<notin> set connected}"
| "reason_of _ = upkeep"

lemma follows_via: "follows why r (snd x) \<Longrightarrow> x = (a, r') \<Longrightarrow> follows why r r'"
  by simp

lemmas section_outcomes =
  follows_via [OF park_intent_follows] follows_via [OF claim_parked_follows]
  follows_via [OF rehome_begin_follows] follows_via [OF fail_over_resolve_follows]
  follows_via [OF take_trigger_type_follows] follows_via [OF begin_removal_follows]
  follows_via [OF park_rejected_follows] follows_via [OF remove_worker_binding_follows]

lemmas settlement_outcomes =
  follows_via [OF settle_activation_follows] follows_via [OF rehome_settle_follows]
  follows_via [OF fail_over_settle_follows] follows_via [OF finish_removal_follows]
  follows_via [OF recover_abandoned_removal_follows]

lemmas inputs = on_run_def on_reply_def on_timed_reply_def Let_def

lemma advance_follows:
  assumes "advance f i r = Some (fs, spawned, r')" and "sound r" and "frame_ok r f"
  shows "follows (reason_of f) r r'"
proof (cases f)
  case (RehomeDetaching reg old t target token)
  with assms(3) have "follows upkeep r (snd (finish_transition (binding_id t) token r))"
    by (intro finish_transition_follows) (auto simp: frame_ok_def)
  with assms(1) RehomeDetaching show ?thesis
    by (auto simp: inputs follows_same split: input.splits if_splits)
next
  case (RehomeReplaying reg old t target token)
  with assms(3) have "follows upkeep r (snd (rehome_settle target token replayed r))" for replayed
    by (intro rehome_settle_follows) (auto simp: frame_ok_def)
  with assms(1) RehomeReplaying show ?thesis
    by (auto simp: inputs split_beta split: input.splits)
qed (use assms in \<open>auto simp: inputs follows_same publish_binding_follows park_intent_follows
      frame_ok_def drop_worker_intents_follows cancel_worker_claims_follows
      sweep_dead_intents_follows types_follow sound_def registry_wf_def map_laws
      dest: section_outcomes settlement_outcomes
      split: input.splits answer.splits option.splits prod.splits sum.splits if_splits\<close>)

text \<open>The frames that a section leaves behind know what they need of the tokens they hold.\<close>

lemma token_frames:
  assumes "frame_ok r f" and "frame_token f = frame_token g"
    and "rehomes g = None \<or> rehomes f = rehomes g"
  shows "frame_ok r g"
  using assms by (auto simp: frame_ok_def)

lemma recovery_frames:
  assumes "recover_abandoned_removal runtime k token before r = (recovery, r')"
    and "sound r" and "issued r' < 2 ^ 64" and "task \<in> set (recovery_tasks recovery)" and "g \<in> set task"
  shows "frame_ok r' g"
proof -
  consider "recovery = None" | t reg where "recovery = Some (Inl (t, reg))"
    | t token' where "recovery = Some (Inr (t, token'))"
    by (metis option.exhaust sum.exhaust surj_pair)
  then show ?thesis
    using assms recovery_token [of runtime k token before r]
    by cases (auto simp: recovery_tasks_def)
qed

lemma take_frames:
  assumes "take_trigger_type_if_provider key w r = (claimed, r')"
    and "sound r" and "issued r' < 2 ^ 64" and "task \<in> set (fail_over_tasks claimed)" and "g \<in> set task"
  shows "frame_ok r' g"
  using assms take_trigger_type_tokens [of key w r]
  by (auto simp: fail_over_tasks_def split: option.splits)

lemma settle_both_frames: "task \<in> set (settle_both target reg t old) \<Longrightarrow> g \<in> set task \<Longrightarrow> frame_ok r g"
  by (auto simp: settle_both_def split: option.splits)

lemma advance_frames:
  assumes adv: "advance f i r = Some (fs, spawned, r')" and r: "sound r" "frame_ok r f"
    and n: "issued r' < 2 ^ 64"
  shows "list_all (frame_ok r') fs \<and> list_all (list_all (frame_ok r')) spawned"
proof -
  have same: "frame_ok r' f"
    using frame_ok_follows [OF advance_follows [OF adv r] r(1) n r(2)] .
  show ?thesis
    using adv r n same
    by (cases f)
      (auto simp: inputs frame_ok_plain list_all_iff
        intro: token_frames [of r' f] claim_parked_token [OF _ r(1) n]
          rehome_begin_token [OF _ r(1) n] begin_removal_token [OF _ r(1) n]
          fail_over_resolve_token [OF _ r(1) n]
        dest: recovery_frames [OF _ r(1) n] take_frames [OF _ r(1) n] settle_both_frames
        split: input.splits answer.splits option.splits prod.splits sum.splits if_splits)
qed

lemma abort_follows:
  assumes "abort runtime f r = (spawned, r')" and "sound r" and "frame_ok r f" and "issued r' < 2 ^ 64"
  shows "follows upkeep r r' \<and> list_all (list_all (frame_ok r')) spawned"
proof (cases f)
  case (Removing t token reg)
  then obtain recovery where r: "recover_abandoned_removal runtime (binding_id t) token (Some reg) r
    = (recovery, r')" "spawned = recovery_tasks recovery"
    using assms(1) by (auto split: prod.splits)
  have "holds True (binding_id t) token r" using assms(3) Removing by (auto simp: frame_ok_def)
  with recover_abandoned_removal_follows [of "binding_id t" token r runtime "Some reg"] r(1)
  have "follows upkeep r r'" by simp
  then show ?thesis using recovery_frames [OF r(1) assms(2,4)] r(2) by (simp add: list_all_iff)
next
  case (RehomeDetaching reg old t target token)
  with assms show ?thesis
    using recover_abandoned_activation_follows [of target token r True]
    by (auto simp: frame_ok_def settle_both_def list_all_iff)
next
  case (RehomeReplaying reg old t target token)
  with assms show ?thesis
    using recover_abandoned_activation_follows [of target token r "old \<noteq> None"]
    by (auto simp: frame_ok_def settle_both_def list_all_iff split: option.splits)
qed (use assms in \<open>auto simp: follows_same recover_abandoned_activation_follows frame_ok_def\<close>)

section \<open>The invariant of the system\<close>

text \<open>
  It holds as long as no token was issued twice: after \<open>2 ^ 64\<close> transitions the counter of the
  tokens starts again.
\<close>

definition system_ok :: "system \<Rightarrow> bool" where
  "system_ok s \<longleftrightarrow>
     (issued (registry_of s) < 2 ^ 64 \<longrightarrow>
        sound (registry_of s) \<and> list_all (list_all (frame_ok (registry_of s))) (tasks s) \<and>
        (\<forall>k. one_place (place_of (registry_of s) k)))"

fun label_reason :: "label \<Rightarrow> system \<Rightarrow> string \<Rightarrow> reason" where
  "label_reason (Start f) s = upkeep"
| "label_reason (Advance n i) s = reason_of (hd (tasks s ! n))"
| "label_reason (Abort n runtime) s = upkeep"

lemma tasks_follow:
  assumes "follows why r r'" and "sound r" and "issued r' < 2 ^ 64"
    and "list_all (list_all (frame_ok r)) ts"
  shows "list_all (list_all (frame_ok r')) ts"
  using assms frame_ok_follows by (fastforce simp: list_all_iff)

lemma list_all_update: "list_all P xs \<Longrightarrow> P y \<Longrightarrow> list_all P (xs[n := y])"
  by (auto simp: list_all_iff dest: set_update_subset_insert [THEN subsetD])

lemma do_step_follows:
  assumes "do_step l s = Some s'" and "sound (registry_of s)"
    and "list_all (list_all (frame_ok (registry_of s))) (tasks s)"
    and n: "issued (registry_of s') < 2 ^ 64"
  shows "follows (label_reason l s) (registry_of s) (registry_of s') \<and>
    list_all (list_all (frame_ok (registry_of s'))) (tasks s')"
proof (cases l)
  case (Start f)
  with assms(1,3) show ?thesis
    by (cases f) (auto simp: follows_same frame_ok_plain split: if_splits)
next
  case (Advance m i)
  with assms(1) obtain f rest fs spawned r' where
    m: "m < length (tasks s)" "tasks s ! m = f # rest" and
    adv: "advance f i (registry_of s) = Some (fs, spawned, r')" and
    s': "s' = \<lparr>registry_of = r', tasks = (tasks s)[m := fs @ rest] @ spawned\<rparr>"
    by (auto split: if_splits list.splits)
  have ok: "frame_ok (registry_of s) f" "list_all (frame_ok (registry_of s)) (f # rest)"
    using assms(3) m nth_mem [of m "tasks s"] by (auto simp: list_all_iff)
  have fol: "follows (reason_of f) (registry_of s) r'" using advance_follows [OF adv assms(2) ok(1)] .
  have "list_all (list_all (frame_ok r')) ([f # rest] @ tasks s)"
    by (rule tasks_follow [OF fol assms(2)]) (use n ok(2) assms(3) in \<open>simp_all add: s'\<close>)
  then show ?thesis
    using fol advance_frames [OF adv assms(2) ok(1)] n Advance m
    by (simp add: s' list_all_update)
next
  case (Abort m runtime)
  with assms(1) obtain f rest spawned r' where
    m: "m < length (tasks s)" "tasks s ! m = f # rest" and
    ab: "abort runtime f (registry_of s) = (spawned, r')" and
    s': "s' = \<lparr>registry_of = r', tasks = (tasks s)[m := []] @ spawned\<rparr>"
    by (auto split: if_splits list.splits prod.splits)
  have ok: "frame_ok (registry_of s) f"
    using assms(3) m nth_mem [of m "tasks s"] by (auto simp: list_all_iff)
  have fol: "follows upkeep (registry_of s) r' \<and> list_all (list_all (frame_ok r')) spawned"
    using abort_follows [OF ab assms(2) ok] n by (simp add: s')
  then have "list_all (list_all (frame_ok r')) (tasks s)"
    using tasks_follow [OF _ assms(2)] n assms(3) by (auto simp: s')
  then show ?thesis using fol Abort by (simp add: s' list_all_update)
qed

text \<open>The count of tokens never goes down, whatever the state.\<close>

lemma section_issued:
  "issued (snd (park_intent t r)) = issued r"
  "issued (publish_binding t r) = issued r"
  "issued r \<le> issued (snd (claim_parked k key r))"
  "issued (snd (settle_activation t token replayed r)) = issued r"
  "issued r \<le> issued (snd (rehome_begin key k r))"
  "issued (snd (rehome_settle t token replayed r)) = issued r"
  "issued r \<le> issued (snd (take_trigger_type_if_provider key w r))"
  "issued (snd (fail_over_resolve t token r)) = issued r"
  "issued (snd (fail_over_settle t token replayed r)) = issued r"
  "issued r \<le> issued (snd (begin_removal k r))"
  "issued (snd (finish_removal k token r)) = issued r"
  "issued r \<le> issued (snd (recover_abandoned_removal runtime k token before r))"
  "issued (recover_abandoned_activation t token has_source r) = issued r"
  "issued (cancel_worker_claims w r) = issued r"
  "issued (drop_worker_intents w r) = issued r"
  "issued (snd (remove_worker_binding w k r)) = issued r"
  "issued (snd (park_rejected k r)) = issued r"
  "issued (sweep_dead_intents connected r) = issued r"
  using park_intent_follows [of t r] publish_binding_follows [of t r]
    claim_parked_follows [of r k key] rehome_begin_follows [of r key k]
    take_trigger_type_follows [of r key w] begin_removal_follows [of k r]
  by (auto simp: follows_def park_intent_def publish_binding_def settle_activation_def rehome_settle_def
      fail_over_resolve_def fail_over_settle_def finish_removal_def recover_abandoned_removal_def
      recover_abandoned_activation_def cancel_worker_claims_def drop_worker_intents_def
      remove_worker_binding_def park_rejected_def sweep_dead_intents_def
      split_beta Let_def views split: option.split)

lemma issued_via:
  "issued r \<le> issued (snd x) \<Longrightarrow> x = (a, r') \<Longrightarrow> issued r \<le> issued r'"
  "issued (snd x) = issued r \<Longrightarrow> x = (a, r') \<Longrightarrow> issued r \<le> issued r'"
  by auto

lemmas issued_outcomes =
  issued_via(2) [OF section_issued(1)] issued_via(1) [OF section_issued(3)]
  issued_via(2) [OF section_issued(4)] issued_via(1) [OF section_issued(5)]
  issued_via(2) [OF section_issued(6)] issued_via(1) [OF section_issued(7)]
  issued_via(2) [OF section_issued(8)] issued_via(2) [OF section_issued(9)]
  issued_via(1) [OF section_issued(10)] issued_via(2) [OF section_issued(11)]
  issued_via(1) [OF section_issued(12)] issued_via(2) [OF section_issued(16)]
  issued_via(2) [OF section_issued(17)]

lemma advance_issued: "advance f i r = Some (fs, spawned, r') \<Longrightarrow> issued r \<le> issued r'"
  by (cases f)
    (auto simp: inputs section_issued views dest: issued_outcomes
      split: input.splits answer.splits option.splits prod.splits sum.splits if_splits)

lemma abort_issued: "abort runtime f r = (spawned, r') \<Longrightarrow> issued r \<le> issued r'"
  by (cases f) (auto simp: section_issued dest: issued_outcomes split: prod.splits)

lemma do_step_issued:
  "do_step l s = Some s' \<Longrightarrow> issued (registry_of s) \<le> issued (registry_of s')"
  by (cases l)
    (auto dest: advance_issued abort_issued split: if_splits list.splits prod.splits)

lemma system_ok_step:
  assumes "system_ok s" and "do_step l s = Some s'"
  shows "system_ok s'"
  unfolding system_ok_def
proof
  assume n: "issued (registry_of s') < 2 ^ 64"
  then have s: "sound (registry_of s)" "list_all (list_all (frame_ok (registry_of s))) (tasks s)"
    "\<And>k. one_place (place_of (registry_of s) k)"
    using assms(1) do_step_issued [OF assms(2)] by (auto simp: system_ok_def)
  note fol = do_step_follows [OF assms(2) s(1,2) n]
  have "one_place (place_of (registry_of s') k)" for k
    using fol s(1,3) n lifecycle_one_place unfolding follows_def by blast
  then show "sound (registry_of s') \<and> list_all (list_all (frame_ok (registry_of s'))) (tasks s') \<and>
    (\<forall>k. one_place (place_of (registry_of s') k))"
    using fol follows_sound s(1) n by blast
qed

lemma system_ok_new: "system_ok system_new"
  by (simp add: system_ok_def system_new_def sound_def registry_wf_new names_agree_def
      tokens_issued_def place_of_def)
    (simp add: registry_new_def store_new_def store_get_def)

interpretation registry_tasks: step_invariant "\<lambda>s. s = system_new" "\<lambda>s s'. \<exists>l. registry_step l s s'" system_ok
  by unfold_locales (auto simp: system_ok_new registry_step_iff intro: system_ok_step)

lemma run_reaches: "registry_run allowed s s' \<Longrightarrow> (\<lambda>s s'. \<exists>l. registry_step l s s')\<^sup>*\<^sup>* s s'"
  by (induction rule: registry_run.induct) (auto intro: rtranclp.rtrancl_into_rtrancl)

lemma run_system_ok: "registry_run allowed system_new s \<Longrightarrow> system_ok s"
  using registry_tasks.inv_reachable [OF refl run_reaches] .

lemma run_append:
  "registry_run allowed s' s'' \<Longrightarrow> registry_run any s s' \<Longrightarrow> (\<And>l s. any l s) \<Longrightarrow> registry_run any s s''"
  by (induction rule: registry_run.induct) (auto intro: registry_run.more)

lemma run_issued:
  "registry_run allowed s s' \<Longrightarrow> issued (registry_of s) \<le> issued (registry_of s')"
proof (induction rule: registry_run.induct)
  case (more s s' l s'')
  then show ?case using do_step_issued [of l s' s''] by (simp add: registry_step_iff)
qed simp

lemma step_lifecycle:
  assumes "system_ok s" and "registry_step l s s'" and "issued (registry_of s') < 2 ^ 64"
  shows "lifecycle (label_reason l s k) (issued (registry_of s)) (issued (registry_of s'))
    (place_of (registry_of s) k) (place_of (registry_of s') k)"
proof -
  have step: "do_step l s = Some s'" using assms(2) by (simp add: registry_step_iff)
  with do_step_issued assms(1,3) have "sound (registry_of s)"
    "list_all (list_all (frame_ok (registry_of s))) (tasks s)"
    by (fastforce simp: system_ok_def)+
  with do_step_follows [OF step] assms(3) show ?thesis unfolding follows_def by blast
qed

text \<open>What holds of a binding at a state, and is kept by all allowed steps, holds after the run.\<close>

lemma run_keeps:
  assumes "registry_run allowed s s'" and "system_ok s" and "issued (registry_of s') < 2 ^ 64"
    and "P (place_of (registry_of s) k)"
    and "\<And>l s x n n'. allowed l s \<Longrightarrow> lifecycle (label_reason l s k) n n' (place_of (registry_of s) k) x \<Longrightarrow>
      P (place_of (registry_of s) k) \<Longrightarrow> P x"
  shows "P (place_of (registry_of s') k)"
  using assms(1-4)
proof (induction rule: registry_run.induct)
  case (more s s' l s'')
  have "system_ok s'"
    using more.hyps(1) more.prems(1)
    by (induction rule: registry_run.induct) (auto simp: registry_step_iff intro: system_ok_step)
  moreover have "issued (registry_of s') < 2 ^ 64"
    using more.hyps(3) more.prems(2) do_step_issued [of l s' s''] by (simp add: registry_step_iff)
  ultimately show ?case
    using more assms(5) step_lifecycle [of s' l s''] by blast
qed simp

end
