(* ===== verification/Trigger_Safety.thy ===== *)
theory Trigger_Safety
  imports Trigger_Steps
begin

text \<open>
  What the trigger registry promises of its bindings in every interleaving of its operations, and
  one promise of its documentation that a race breaks.
\<close>

section \<open>Sample bindings and providers\<close>

abbreviation any_step :: "label \<Rightarrow> system \<Rightarrow> bool" where
  "any_step \<equiv> \<lambda>_ _. True"

definition sample_binding :: "string \<Rightarrow> string \<Rightarrow> string option \<Rightarrow> trigger" where
  "sample_binding k ty explicit =
     \<lparr>binding_id = k, trigger_type = ty, bound_function = ''f'', config = Null, owner_worker = None,
      binding_metadata = None, target_namespace = ''b'', trigger_namespace = explicit,
      home_namespace = ''b'', provider_namespace = default_namespace\<rparr>"

definition sample_provider :: "string \<Rightarrow> string \<Rightarrow> registrator \<Rightarrow> provider" where
  "sample_provider ns ty reg =
     \<lparr>type_id = ty, type_namespace = ns, type_description = [], trigger_request_format = None,
      call_request_format = None, call_response_format = None, type_registrator = reg,
      provider_worker = Some 7\<rparr>"

text \<open>A registration that finds no provider, as task \<open>n\<close>; one that a provider accepts.\<close>

definition park_run :: "nat \<Rightarrow> trigger \<Rightarrow> label list" where
  "park_run n t = Start (Register t) # replicate 5 (Advance n (Run 0))"

definition bind_run :: "nat \<Rightarrow> trigger \<Rightarrow> label list" where
  "bind_run n t = Start (Register t) # replicate 2 (Advance n (Run 0)) @ [Advance n (Reply Accepted True)]"

text \<open>A provider that registers as task \<open>n\<close>, up to the first intent it claims, if any.\<close>

definition provide_run :: "nat \<Rightarrow> provider \<Rightarrow> label list" where
  "provide_run n p = Start (RegisterType p) # replicate 6 (Advance n (Run 0))"

definition after :: "label list \<Rightarrow> system" where
  "after ls = the (run_labels any_step ls system_new)"

text \<open>
  A binding is bound, its provider leaves and a move of the binding starts; then the binding is
  unregistered, and the move is still under way.
\<close>

definition unregistered :: "label list" where
  "unregistered =
     provide_run 0 (sample_provider ''b'' ''cron'' 1) @ bind_run 1 (sample_binding ''x'' ''cron'' None) @
     [Start (RemoveType (''b'', ''cron'') 7), Advance 2 (Run 0), Advance 3 (Run 0),
      Start (Unregister ''x''), Advance 4 (Run 0), Advance 4 (Run 0), Advance 4 (Run 0)]"

text \<open>The move goes on to its end.\<close>

definition late_move :: "label list" where
  "late_move = [Advance 3 (Run 0), Advance 3 (Run 0)]"

text \<open>A binding is bound, and its provider leaves.\<close>

definition bound_first :: "label list" where
  "bound_first =
     provide_run 0 (sample_provider ''b'' ''cron'' 1) @ bind_run 1 (sample_binding ''x'' ''cron'' None)"


section \<open>Promises\<close>

text \<open>C8: In every state the trigger registry can reach, whatever the interleaving of its operations,
  the answers of the providers and the cancellations (and as long as fewer than \<open>2 ^ 64\<close>
  transitions were started), a binding is bound or parked but not both, a binding that is being
  moved is not parked, and dispatch by type finds exactly the bound bindings of the type.\<close>

theorem binding_rests_in_one_place:
  assumes "registry_run any_step system_new s" and "issued (registry_of s) < 2 ^ 64"
  shows "(bound_at (registry_of s) k = None \<or> parked (registry_of s) k = None) \<and>
    (\<forall>op. in_flight (registry_of s) k = Some op \<longrightarrow> \<not> removing op \<longrightarrow> parked (registry_of s) k = None) \<and>
    (\<forall>t. t \<in> set (targets_for_type ty (triggers (registry_of s))) \<longleftrightarrow>
       bound_at (registry_of s) (binding_id t) = Some t \<and> trigger_type t = ty)"
proof -
  have ok: "sound (registry_of s)" "one_place (place_of (registry_of s) k)"
    using run_system_ok [OF assms(1)] assms(2) by (simp_all add: system_ok_def)
  have store: "store_ok (triggers (registry_of s))"
    using ok(1) by (simp add: sound_def registry_wf_def)
  have sorted: "map_sorted (by_id (triggers (registry_of s)))"
    using store by (simp add: store_ok_def store_wf_def)
  have "t \<in> set (targets_for_type ty (triggers (registry_of s))) \<longleftrightarrow>
      bound_at (registry_of s) (binding_id t) = Some t \<and> trigger_type t = ty" for t
  proof
    assume "t \<in> set (targets_for_type ty (triggers (registry_of s)))"
    then obtain k where "(k, t) \<in> set (by_id (triggers (registry_of s)))" "trigger_type t = ty"
      by (auto simp: targets_for_type_live [OF store])
    then have "bound_at (registry_of s) k = Some t" by (simp add: store_get_def map_of_mem_iff [OF sorted])
    with soundD(4) [OF ok(1)] \<open>trigger_type t = ty\<close>
    show "bound_at (registry_of s) (binding_id t) = Some t \<and> trigger_type t = ty" by blast
  next
    assume "bound_at (registry_of s) (binding_id t) = Some t \<and> trigger_type t = ty"
    then show "t \<in> set (targets_for_type ty (triggers (registry_of s)))"
      by (force simp: targets_for_type_live [OF store] store_get_def map_of_mem_iff [OF sorted])
  qed
  moreover have "(bound_at (registry_of s) k = None \<or> parked (registry_of s) k = None) \<and>
    (\<forall>op. in_flight (registry_of s) k = Some op \<longrightarrow> \<not> removing op \<longrightarrow> parked (registry_of s) k = None)"
    using ok(2) by (simp add: place_of_def)
  ultimately show ?thesis by (intro conjI) (rule conjunct1, assumption, rule conjunct2, assumption, rule allI)
qed

lemma bound_first_runs: "run_labels any_step bound_first system_new = Some (after bound_first)"
  "issued (registry_of (after bound_first)) = 0"
  "bound_at (registry_of (after bound_first)) ''x'' \<noteq> None"
  by code_simp+

theorem binding_rests_in_one_place_witness:
  "parked (registry_of (after bound_first)) ''x'' = None"
  using binding_rests_in_one_place [OF run_labels_runs [OF bound_first_runs(1)], of "''x''"]
    bound_first_runs(2,3)
  by simp

text \<open>C10: Every step of the registry from a reachable state does to every binding what the life cycle
  of bindings allows for the reason of the step: internal work never loses or invents a binding,
  a registration binds or parks it, a removal takes it away, and a departure of workers touches
  only what they own.\<close>

theorem registry_refines_lifecycle:
  assumes "registry_run any_step system_new s" and "registry_step l s s'"
    and "issued (registry_of s') < 2 ^ 64"
  shows "lifecycle (label_reason l s k) (issued (registry_of s)) (issued (registry_of s'))
    (place_of (registry_of s) k) (place_of (registry_of s') k)"
  using step_lifecycle [OF run_system_ok [OF assms(1)] assms(2,3)] .

lemma first_step: "registry_step (Start (Unregister ''x'')) system_new (system_new\<lparr>tasks := [[Unregister ''x'']]\<rparr>)"
  by (simp add: registry_step_iff system_new_def)

theorem registry_refines_lifecycle_witness:
  "lifecycle Upkeep 0 0 (place_of registry_new ''x'') (place_of registry_new ''x'')"
  using registry_refines_lifecycle [OF registry_run.none first_step, of "''x''"]
  by (simp add: system_new_def) (simp add: registry_new_def)

text \<open>C9: Once a binding is nowhere in the registry (for instance because it was unregistered), no
  operation that is still under way brings it back: it stays away until it is registered again.\<close>

theorem removed_bindings_stay_removed:
  assumes "registry_run any_step system_new s" and "absent (place_of (registry_of s) k)"
    and "registry_run (\<lambda>l s. label_reason l s k \<noteq> Registration) s s'"
    and "issued (registry_of s') < 2 ^ 64"
  shows "absent (place_of (registry_of s') k)"
  using run_keeps [OF assms(3) run_system_ok [OF assms(1)] assms(4), of absent k] assms(2)
    lifecycle_absent
  by blast

lemma unregistered_runs: "run_labels any_step unregistered system_new = Some (after unregistered)"
  "absent (place_of (registry_of (after unregistered)) ''x'')"
  "run_labels (\<lambda>l s. label_reason l s ''x'' \<noteq> Registration) late_move (after unregistered) =
     Some (after (unregistered @ late_move))"
  "issued (registry_of (after (unregistered @ late_move))) = 2"
  by code_simp+

theorem removed_bindings_stay_removed_witness:
  "absent (place_of (registry_of (after (unregistered @ late_move))) ''x'')"
  using removed_bindings_stay_removed [OF run_labels_runs [OF unregistered_runs(1)]
    unregistered_runs(2) run_labels_runs [OF unregistered_runs(3)]] unregistered_runs(4)
  by simp






section \<open>A promise that a race breaks\<close>

text \<open>
  Two intents are parked.  Their provider registers, takes the names of both from a snapshot and
  activates the first; while it waits for the answer, the second name is registered again, for
  another type and for the namespace \<open>a\<close> explicitly, and parked.  The provider then claims that
  name without looking at the intent again.
\<close>

definition drain_race :: "label list" where
  "drain_race =
     park_run 0 (sample_binding ''x'' ''cron'' None) @ park_run 1 (sample_binding ''y'' ''cron'' None) @
     provide_run 2 (sample_provider ''b'' ''cron'' 1) @
     park_run 3 (sample_binding ''y'' ''http'' (Some ''a'')) @
     [Advance 2 (Reply Accepted True), Advance 2 (Run 0), Advance 2 (Reply Accepted True)]"

lemma drain_race_runs: "run_labels any_step drain_race system_new = Some (after drain_race)"
  "map_option trigger_namespace (bound_at (registry_of (after drain_race)) ''y'') = Some (Some ''a'')"
  "map_option provider_key (bound_at (registry_of (after drain_race)) ''y'') = Some (''b'', ''http'')"
  "has_type (''a'', ''http'') (registry_of (after drain_race)) = False"
  by code_simp+

text \<open>C29: A binding that names the namespace of its provider is not always served by that namespace
  or nobody: a provider that drains parked intents can claim an intent that was replaced meanwhile,
  and a binding for namespace \<open>a\<close> and type \<open>http\<close> is then live with the provider of \<open>cron\<close> in
  namespace \<open>b\<close>, while it resolves to no provider at all.\<close>

theorem drained_intent_reaches_wrong_provider:
  "\<exists>s t. registry_run any_step system_new s \<and> bound_at (registry_of s) ''y'' = Some t \<and>
     trigger_namespace t = Some ''a'' \<and> provider_namespace t = ''b'' \<and>
     resolve_provider_key t (registry_of s) = None"
proof -
  obtain t where "bound_at (registry_of (after drain_race)) ''y'' = Some t" "trigger_namespace t = Some ''a''"
    "provider_key t = (''b'', ''http'')"
    using drain_race_runs(2,3) by auto
  then show ?thesis
    using run_labels_runs [OF drain_race_runs(1)] drain_race_runs(4)
    by (intro exI [of _ "after drain_race"] exI [of _ t])
      (simp add: resolve_provider_key_def provider_key_def)
qed

end
