(* ===== verification/Trigger_Order.thy ===== *)
theory Trigger_Order
  imports Trigger_Steps
begin

text \<open>
  Where bindings end up does not depend on the order in which workers come and go: when the
  operations of the registry run one after the other and the providers accept what they are
  asked, every binding that can be resolved is bound to the provider it resolves to, and every
  other is parked.
\<close>

section \<open>Operations that run alone\<close>

definition friendly :: "nat \<Rightarrow> frame \<Rightarrow> input" where
  "friendly n f = (if awaits f = None then Run n else Reply Accepted True)"

text \<open>
  \<open>must Q fs r\<close>: the frames \<open>fs\<close>, and the tasks they start after them, run to their end from \<open>r\<close>,
  whatever elements their loops pick, when every provider accepts; the end satisfies \<open>Q\<close>.
\<close>

inductive must :: "(registry \<Rightarrow> bool) \<Rightarrow> frame list \<Rightarrow> registry \<Rightarrow> bool" for Q :: "registry \<Rightarrow> bool" where
  fin: "Q r \<Longrightarrow> must Q [] r"
| go: "(\<And>n. \<exists>fs spawned r'. advance f (friendly n f) r = Some (fs, spawned, r') \<and>
      must Q (fs @ rest @ concat spawned) r') \<Longrightarrow> must Q (f # rest) r"

lemma must_go:
  assumes "\<And>n. advance f (friendly n f) r = Some (fs n, spawned n, r' n)"
    and "\<And>n. must Q (fs n @ rest @ concat (spawned n)) (r' n)"
  shows "must Q (f # rest) r"
  by (rule must.go) (use assms in blast)

section \<open>Settled registries\<close>

definition fits :: "registry \<Rightarrow> trigger \<Rightarrow> bool" where
  "fits r t \<longleftrightarrow> resolve_provider_key t r = Some (provider_key t)"

definition tidy :: "registry \<Rightarrow> bool" where
  "tidy r \<longleftrightarrow> registry_wf r \<and> names_agree r \<and> (\<forall>k. bound_at r k = None \<or> parked r k = None)"

definition settled :: "registry \<Rightarrow> bool" where
  "settled r \<longleftrightarrow> tidy r \<and>
     (\<forall>k. in_flight r k = None) \<and>
     (\<forall>k t. bound_at r k = Some t \<longrightarrow> fits r t) \<and>
     (\<forall>k t. parked r k = Some t \<longrightarrow> resolve_provider_key t r = None)"

lemma settledI:
  assumes "tidy r" and "\<And>k. in_flight r k = None" and "\<And>k t. bound_at r k = Some t \<Longrightarrow> fits r t"
    and "\<And>k t. parked r k = Some t \<Longrightarrow> resolve_provider_key t r = None"
  shows "settled r"
  unfolding settled_def using assms by (intro conjI allI impI)

lemma settledD:
  assumes "settled r"
  shows "tidy r" "in_flight r k = None" "bound_at r k = Some t \<Longrightarrow> fits r t"
    "parked r k = Some t \<Longrightarrow> resolve_provider_key t r = None"
  using assms by (simp_all add: settled_def)

lemma tidyI:
  assumes "registry_wf r" and "\<And>k t. bound_at r k = Some t \<Longrightarrow> binding_id t = k"
    and "\<And>k t. parked r k = Some t \<Longrightarrow> binding_id t = k"
    and "\<And>k op. in_flight r k = Some op \<Longrightarrow> binding_id (transition_target op) = k"
    and "\<And>k. bound_at r k = None \<or> parked r k = None"
  shows "tidy r"
  unfolding tidy_def names_agree_def using assms by (intro conjI allI impI) (simp, blast, simp, simp)

lemma tidyD:
  assumes "tidy r"
  shows "registry_wf r" "names_agree r" "bound_at r k = Some t \<Longrightarrow> binding_id t = k"
    "parked r k = Some t \<Longrightarrow> binding_id t = k"
    "bound_at r k = Some t \<Longrightarrow> parked r k = None" "parked r k = Some t \<Longrightarrow> bound_at r k = None"
  using assms by (auto simp: tidy_def names_agree_def) (metis option.distinct(1))+

lemma resolve_simps [simp]:
  "resolve_provider_key (t\<lparr>provider_namespace := ns\<rparr>) r = resolve_provider_key t r"
  by (simp add: resolve_provider_key_def split: option.split)

lemma resolve_types:
  "trigger_types r' = trigger_types r \<Longrightarrow> resolve_provider_key t r' = resolve_provider_key t r"
  by (auto simp: resolve_provider_key_def has_type_def split: option.split)

lemma fits_types: "trigger_types r' = trigger_types r \<Longrightarrow> fits r' t = fits r t"
  using resolve_types [of r' r t] by (simp add: fits_def)

lemmas resolve_primitives = types_primitives [THEN resolve_types] types_primitives [THEN fits_types]

lemma resolve_SomeD:
  assumes "resolve_provider_key t r = Some key"
  shows "snd key = trigger_type t" "\<exists>reg. provider_registrator key r = Some reg"
  using assms
  by (auto simp: resolve_provider_key_def provider_registrator_def has_type_def
      split: option.splits if_splits)

lemma fits_resolved:
  "resolve_provider_key t r = Some key \<Longrightarrow> fits r (t\<lparr>provider_namespace := fst key\<rparr>)"
  using resolve_SomeD(1) [of t r key] by (cases key) (auto simp: fits_def provider_key_def)

lemmas order_views = views split_beta Let_def resolve_primitives

section \<open>Registration of a binding\<close>

lemma settled_park: "settled r \<Longrightarrow> resolve_provider_key t r = None \<Longrightarrow> settled (snd (park_intent t r))"
  by (auto simp: settled_def tidy_def park_intent_def order_views names_agree_def)

lemma settled_publish: "settled r \<Longrightarrow> fits r t \<Longrightarrow> settled (publish_binding t r)"
  by (auto simp: settled_def tidy_def publish_binding_def order_views names_agree_def)

lemma must_register:
  assumes "settled r"
  shows "must settled [Register t] r"
proof (cases "resolve_provider_key t r")
  case (Some key)
  then obtain reg where reg: "provider_registrator key r = Some reg" using resolve_SomeD by blast
  let ?t = "t\<lparr>provider_namespace := fst key\<rparr>"
  have "must settled [Registering ?t reg] r"
    by (rule must_go)
      (auto simp: friendly_def inputs intro!: must.fin settled_publish assms fits_resolved [OF Some])
  then have "must settled [RegisterWith ?t (Some key)] r"
    by (intro must_go) (auto simp: friendly_def inputs reg)
  then show ?thesis by (intro must_go) (auto simp: friendly_def inputs Some)
next
  case None
  let ?r = "snd (park_intent t r)"
  have "settled ?r" using assms None by (rule settled_park)
  moreover have "resolve_provider_key t ?r = None"
    using None by (simp add: park_intent_def order_views)
  ultimately have rec: "must settled [Recheck t] ?r"
    by (intro must_go) (auto simp: friendly_def inputs intro: must.fin)
  have det: "must settled [ParkDetaching t reg live] ?r" for reg live
    using rec by (intro must_go) (auto simp: friendly_def inputs)
  have "must settled [ParkDetach t superseded] ?r" for superseded
    by (rule must.go) (auto simp: friendly_def inputs rec det split: option.splits)
  then have "must settled [Park t] r"
    by (intro must_go) (auto simp: friendly_def inputs split_beta)
  then have "must settled [RegisterWith t None] r" by (intro must_go) (auto simp: friendly_def inputs)
  then show ?thesis by (intro must_go) (auto simp: friendly_def inputs None)
qed

section \<open>Registration of a provider\<close>

text \<open>A binding on the fallback that the provider at \<open>key\<close> will claim back.\<close>

definition stray :: "type_key \<Rightarrow> trigger \<Rightarrow> bool" where
  "stray key t \<longleftrightarrow>
     trigger_namespace t = None \<and> provider_namespace t = default_namespace \<and>
     home_namespace t \<noteq> default_namespace \<and> (home_namespace t, trigger_type t) = key"

text \<open>The registry while \<open>key\<close> is being provided: \<open>ks\<close> are the intents still to activate.\<close>

definition arriving :: "type_key \<Rightarrow> string set \<Rightarrow> registry \<Rightarrow> bool" where
  "arriving key ks r \<longleftrightarrow> tidy r \<and> has_type key r \<and>
     (\<forall>k. in_flight r k = None) \<and>
     (\<forall>k t. bound_at r k = Some t \<longrightarrow> fits r t \<or> stray key t) \<and>
     (\<forall>k t. parked r k = Some t \<longrightarrow>
        resolve_provider_key t r = (if k \<in> ks then Some key else None))"

lemma resolve_new_type:
  assumes "map_sorted (trigger_types r)"
  shows "resolve_provider_key t (r\<lparr>trigger_types := map_insert key p (trigger_types r)\<rparr>) =
    (case trigger_namespace t of
       Some explicit \<Rightarrow> if (explicit, trigger_type t) = key then Some key else resolve_provider_key t r
     | None \<Rightarrow>
         if (home_namespace t, trigger_type t) = key then Some key
         else if (default_namespace, trigger_type t) = key \<and> \<not> has_type (home_namespace t, trigger_type t) r
         then Some key else resolve_provider_key t r)"
  using assms
  by (auto simp: resolve_provider_key_def has_type_def map_laws split: option.split)

lemma arriving_new_type:
  assumes "settled r" and r'_def: "r' = r\<lparr>trigger_types := map_insert key p (trigger_types r)\<rparr>"
  shows "arriving key {k. \<exists>t. parked r k = Some t \<and> resolve_provider_key t r' = Some key} r'"
proof -
  have wf: "registry_wf r" using assms(1) by (simp add: settled_def tidy_def)
  then have sorted: "map_sorted (trigger_types r)" by (simp add: registry_wf_def)
  note res = resolve_new_type [OF sorted, of _ key p, folded r'_def]
  have "tidy r'"
    using assms(1) wf by (auto simp: settled_def tidy_def r'_def registry_wf_def names_agree_def map_laws)
  moreover have "has_type key r'" using sorted by (simp add: r'_def has_type_def map_laws)
  moreover have "fits r' t \<or> stray key t" if "bound_at r k = Some t" for k t
  proof -
    have "fits r t" using assms(1) that by (auto simp: settled_def)
    then show ?thesis
      by (auto simp: fits_def res stray_def provider_key_def split: option.splits if_splits)
        (auto simp: resolve_provider_key_def split: if_splits)
  qed
  moreover have "resolve_provider_key t r' = None \<or> resolve_provider_key t r' = Some key"
    if "parked r k = Some t" for k t
    using assms(1) that by (auto simp: settled_def res split: option.splits)
  ultimately show ?thesis
    using assms(1) by (auto simp: arriving_def settled_def r'_def)
qed

lemma pick_distinct:
  assumes "pick n xs = (x, ys)" and "xs \<noteq> []" and "distinct xs"
  shows "x \<in> set xs" "length xs = Suc (length ys)" "set ys = set xs - {x}" "distinct ys"
proof -
  have "x \<in> set xs" "ys = remove1 x xs" using assms by (auto simp: pick_def Let_def)
  then show "x \<in> set xs" "length xs = Suc (length ys)" "set ys = set xs - {x}" "distinct ys"
    using assms(2,3) by (auto simp: length_remove1 length_greater_0_conv)
qed

lemma current_begun:
  "registry_wf r \<Longrightarrow> binding_id t = k \<Longrightarrow>
   current_token k (fst (begin_transition t rem r)) (snd (begin_transition t rem r))"
  by (simp add: current_token_def views)

lemma claim_settles:
  assumes "arriving key ks r" and "k \<in> ks" and "parked r k = Some t"
    and claim: "claim_parked k key r = (Some (u, token), r2)"
  shows "\<exists>r3. settle_activation u token True r2 = (Some True, r3) \<and> arriving key (ks - {k}) r3"
proof -
  have a: "tidy r" "\<And>k. in_flight r k = None" "resolve_provider_key t r = Some key"
    using assms(1-3) by (auto simp: arriving_def)
  then have k: "binding_id t = k" "bound_at r k = None" "registry_wf r" using assms(3) tidyD by blast+
  have u: "u = t\<lparr>provider_namespace := fst key\<rparr>"
    "token = fst (begin_transition u False (pending_remove k r))"
    "r2 = snd (begin_transition u False (pending_remove k r))"
    using claim assms(3) a(2) by (auto simp: claim_parked_def is_removing_def Let_def split_beta)
  have id: "binding_id u = k" by (simp add: u(1) k(1))
  have wf2: "registry_wf r2" unfolding u(3) using k(3) by (simp add: views)
  have cur: "current_token k token r2"
    unfolding u(2,3) by (rule current_begun) (simp_all add: views k(3) id)
  have v2: "bound_at r2 k' = bound_at r k'" "parked r2 k' = (if k' = k then None else parked r k')"
    "k' \<noteq> k \<Longrightarrow> in_flight r2 k' = None" "trigger_types r2 = trigger_types r" for k'
    unfolding u(3) using k(3) a(2) id by (simp_all add: views)
  define r3 where "r3 = live_insert u (snd (finish_transition k token r2))"
  have "settle_activation u token True r2 = (Some True, r3)"
    using cur v2(1,2) k(2) by (simp add: settle_activation_def r3_def split_beta Let_def views id store_contains_def)
  moreover have "arriving key (ks - {k}) r3"
  proof -
    have b: "bound_at r3 k' = (if k' = k then Some u else bound_at r k')"
      "parked r3 k' = (if k' = k then None else parked r k')" "in_flight r3 k' = None" for k'
      unfolding r3_def using wf2 cur v2 by (simp_all add: views id)
    have ty: "trigger_types r3 = trigger_types r" by (simp add: r3_def views v2(4))
    have "registry_wf r3" unfolding r3_def using wf2 by (simp add: views)
    moreover have "names_agree r3"
      using tidyD(2) [OF a(1)] b id by (simp add: names_agree_def)
    moreover have "fits r3 u" using fits_resolved [OF a(3)] fits_types [OF ty] by (simp add: u(1))
    moreover have "bound_at r3 k' = None \<or> parked r3 k' = None" for k'
      using a(1) b(1,2) [of k'] by (auto simp: tidy_def)
    moreover have "has_type key r3" using assms(1) ty by (simp add: arriving_def has_type_def)
    moreover have "fits r3 t' \<or> stray key t'" if "bound_at r3 k' = Some t'" for k' t'
      using that b(1) [of k'] assms(1) fits_types [OF ty] \<open>fits r3 u\<close>
      by (auto simp: arriving_def split: if_splits)
    moreover have "resolve_provider_key t' r3 = (if k' \<in> ks - {k} then Some key else None)"
      if "parked r3 k' = Some t'" for k' t'
      using that b(2) [of k'] assms(1) resolve_types [OF ty] by (auto simp: arriving_def split: if_splits)
    ultimately show ?thesis using b(3) by (simp add: arriving_def tidy_def)
  qed
  ultimately show ?thesis by blast
qed

lemma must_drain:
  assumes "arriving key (set ks) r" and "distinct ks"
    and "\<And>r. arriving key {} r \<Longrightarrow> must Q [TypeRehome key] r"
  shows "must Q [TypeDrain key reg ks] r"
  using assms(1,2)
proof (induction "length ks" arbitrary: ks r)
  case 0
  then show ?case by (intro must_go) (auto simp: friendly_def inputs intro: assms(3))
next
  case (Suc m)
  then have ne: "ks \<noteq> []" by auto
  show ?case
  proof (rule must.go)
    fix n
    obtain k ys where p: "pick n ks = (k, ys)" by (cases "pick n ks")
    note ks = pick_distinct [OF p ne Suc.prems(2)]
    have IH: "must Q [TypeDrain key reg ys] r'" if "arriving key (set ks - {k}) r'" for r'
      using that ks Suc.hyps by simp
    have flight: "\<not> is_removing k r" using Suc.prems(1) by (simp add: arriving_def is_removing_def)
    show "\<exists>fs spawned r'. advance (TypeDrain key reg ks) (friendly n (TypeDrain key reg ks)) r
        = Some (fs, spawned, r') \<and> must Q (fs @ [] @ concat spawned) r'"
    proof (cases "parked r k")
      case None
      then have "arriving key (set ks - {k}) r"
        using Suc.prems(1) by (auto simp: arriving_def split: if_splits)
      then show ?thesis
        using None flight ne p IH by (simp add: friendly_def inputs claim_parked_def)
    next
      case (Some t)
      then obtain u token r2 where claim: "claim_parked k key r = (Some (u, token), r2)"
        using flight by (simp add: claim_parked_def Let_def split_beta)
      obtain r3 where "settle_activation u token True r2 = (Some True, r3)" "arriving key (set ks - {k}) r3"
        using claim_settles [OF Suc.prems(1) ks(1) Some claim] by blast
      then have "must Q [Activating reg u token, TypeDrain key reg ys] r2"
        using IH by (intro must_go) (auto simp: friendly_def inputs)
      then show ?thesis using claim ne p by (simp add: friendly_def inputs)
    qed
  qed
qed

text \<open>The registry while bindings go home: those not yet home are among \<open>ks\<close>.\<close>

definition homing :: "type_key \<Rightarrow> string set \<Rightarrow> registry \<Rightarrow> bool" where
  "homing key ks r \<longleftrightarrow> tidy r \<and> has_type key r \<and>
     (\<forall>k. in_flight r k = None) \<and>
     (\<forall>k t. bound_at r k = Some t \<longrightarrow> fits r t \<or> stray key t \<and> k \<in> ks) \<and>
     (\<forall>k t. parked r k = Some t \<longrightarrow> resolve_provider_key t r = None)"

lemma homing_settled: "homing key {} r \<Longrightarrow> settled r"
  by (simp add: homing_def settled_def)

lemma rehome_settles:
  assumes "homing key ks r" and start: "rehome_begin key k r = (Some (t, target, token), r2)"
  shows "current_token (binding_id t) token r2"
    "\<exists>r3. rehome_settle target token True r2 = (True, r3) \<and> homing key (ks - {k}) r3"
proof -
  have a: "tidy r" "\<And>k. in_flight r k = None" "has_type key r" using assms(1) by (auto simp: homing_def)
  have t: "bound_at r k = Some t" "is_on_fallback t" "home_namespace t = fst key" "trigger_type t = snd key"
    "target = t\<lparr>provider_namespace := fst key\<rparr>" "token = fst (begin_transition target False r)"
    "r2 = snd (begin_transition target False r)"
    using start by (auto simp: rehome_begin_def Let_def split_beta split: option.splits if_splits)
  have wf: "registry_wf r" using a(1) by (rule tidyD)
  have id: "binding_id t = k" "binding_id target = k" using tidyD(3) [OF a(1) t(1)] t(5) by simp_all
  have v2: "bound_at r2 k' = bound_at r k'" "parked r2 k' = parked r k'"
    "k' \<noteq> k \<Longrightarrow> in_flight r2 k' = None" "trigger_types r2 = trigger_types r" "registry_wf r2" for k'
    unfolding t(7) using wf a(2) id by (simp_all add: views)
  have cur: "current_token k token r2"
    unfolding t(6,7) by (rule current_begun) (simp_all add: wf id)
  then show "current_token (binding_id t) token r2" by (simp add: id)
  define r3 where "r3 = live_insert target (snd (finish_transition k token r2))"
  have "rehome_settle target token True r2 = (True, r3)"
    using cur by (simp add: rehome_settle_def r3_def split_beta Let_def views id)
  moreover have "homing key (ks - {k}) r3"
  proof -
    have b: "bound_at r3 k' = (if k' = k then Some target else bound_at r k')"
      "parked r3 k' = parked r k'" "in_flight r3 k' = None" for k'
      unfolding r3_def using v2 cur by (simp_all add: views id)
    have ty: "trigger_types r3 = trigger_types r" by (simp add: r3_def views v2(4))
    have "registry_wf r3" unfolding r3_def using v2(5) by (simp add: views)
    moreover have "names_agree r3"
      using tidyD(2) [OF a(1)] b id by (simp add: names_agree_def)
    moreover have "resolve_provider_key t r = Some key"
      using t(2-4) a(3) by (simp add: resolve_provider_key_def is_on_fallback_def)
    then have "fits r3 target" using fits_resolved fits_types [OF ty] by (simp add: t(5))
    moreover have "bound_at r3 k' = None \<or> parked r3 k' = None" for k'
      using a(1) b(1,2) [of k'] tidyD(5) [OF a(1) t(1)] by (auto simp: tidy_def split: if_splits)
    moreover have "has_type key r3" using a(3) ty by (simp add: has_type_def)
    moreover have "fits r3 t' \<or> stray key t' \<and> k' \<in> ks - {k}" if "bound_at r3 k' = Some t'" for k' t'
      using that b(1) [of k'] assms(1) fits_types [OF ty] \<open>fits r3 target\<close>
      by (auto simp: homing_def split: if_splits)
    moreover have "resolve_provider_key t' r3 = None" if "parked r3 k' = Some t'" for k' t'
      using that b(2) [of k'] assms(1) resolve_types [OF ty] by (auto simp: homing_def)
    ultimately show ?thesis using b(3) by (simp add: homing_def tidy_def)
  qed
  ultimately show "\<exists>r3. rehome_settle target token True r2 = (True, r3) \<and> homing key (ks - {k}) r3"
    by blast
qed

lemma must_rehome_one:
  assumes "homing key ks r" and start: "rehome_begin key k r = (Some (t, target, token), r2)"
    and "\<And>r. homing key (ks - {k}) r \<Longrightarrow> must Q rest r"
  shows "must Q (RehomeOld reg t target token # rest) r2"
proof -
  have cur: "current_token (binding_id t) token r2" using rehome_settles(1) [OF assms(1,2)] .
  obtain r3 where r3: "rehome_settle target token True r2 = (True, r3)" "homing key (ks - {k}) r3"
    using rehome_settles(2) [OF assms(1,2)] by blast
  have last: "must Q (RehomeReplaying reg old t target token # rest) r2" for old
    using r3 assms(3) by (intro must_go) (auto simp: friendly_def inputs)
  have "must Q (RehomeCheck reg old t target token # rest) r2" for old
    using last cur by (intro must_go) (auto simp: friendly_def inputs)
  then have "must Q (RehomeDetaching reg old t target token # rest) r2" for old
    by (intro must_go) (auto simp: friendly_def inputs)
  with last show ?thesis
    by (intro must.go) (auto simp: friendly_def inputs split: option.splits)
qed

lemma homing_skip:
  assumes "homing key ks r" and "fst (rehome_begin key k r) = None"
  shows "homing key (ks - {k}) r"
proof -
  have "fits r t" if "bound_at r k = Some t" for t
  proof (rule ccontr)
    assume "\<not> fits r t"
    then have "stray key t" "in_flight r k = None" using assms(1) that by (auto simp: homing_def)
    then show False
      using assms(2) that by (auto simp: rehome_begin_def stray_def is_on_fallback_def Let_def split_beta)
  qed
  then show ?thesis using assms(1) by (auto simp: homing_def)
qed

lemma must_rehome:
  assumes "homing key (set ks) r" and "distinct ks" and "\<And>r. settled r \<Longrightarrow> must Q rest r"
  shows "must Q (Rehome key reg ks # rest) r"
  using assms(1,2)
proof (induction "length ks" arbitrary: ks r)
  case 0
  then have "settled r" using homing_settled by auto
  with 0 show ?case by (intro must_go) (auto simp: friendly_def inputs intro: assms(3))
next
  case (Suc m)
  then have ne: "ks \<noteq> []" by auto
  show ?case
  proof (rule must.go)
    fix n
    obtain k ys where p: "pick n ks = (k, ys)" by (cases "pick n ks")
    note ks = pick_distinct [OF p ne Suc.prems(2)]
    have IH: "must Q (Rehome key reg ys # rest) r'" if "homing key (set ks - {k}) r'" for r'
      using that ks Suc.hyps by simp
    show "\<exists>fs spawned r'. advance (Rehome key reg ks) (friendly n (Rehome key reg ks)) r
        = Some (fs, spawned, r') \<and> must Q (fs @ rest @ concat spawned) r'"
    proof (cases "rehome_begin key k r")
      case (Pair started r2)
      show ?thesis
      proof (cases started)
        case None
        then have "r2 = r" "fst (rehome_begin key k r) = None"
          using Pair by (auto simp: rehome_begin_def Let_def split_beta split: option.splits if_splits)
        then show ?thesis
          using None Pair ne p IH homing_skip [OF Suc.prems(1)] by (simp add: friendly_def inputs)
      next
        case (Some x)
        then obtain t target token where "rehome_begin key k r = (Some (t, target, token), r2)"
          using Pair by (cases x) auto
        then show ?thesis
          using must_rehome_one [OF Suc.prems(1), of k t target token r2 Q "Rehome key reg ys # rest"] IH ne p
          by (simp add: friendly_def inputs)
      qed
    qed
  qed
qed

lemma provided: "has_type key r \<Longrightarrow> \<exists>reg. provider_registrator key r = Some reg"
  by (auto simp: has_type_def provider_registrator_def)

lemma must_type_rehome:
  assumes "arriving key {} r"
  shows "must settled [TypeRehome key] r"
proof (cases "fst key = default_namespace")
  case True
  then have "\<not> stray key t" for t by (auto simp: stray_def)
  then have "settled r" using assms by (simp add: arriving_def settled_def)
  with True show ?thesis by (intro must_go) (auto simp: friendly_def inputs intro: must.fin)
next
  case False
  have "has_type key r" using assms by (simp add: arriving_def)
  then obtain reg where reg: "provider_registrator key r = Some reg" using provided by blast
  define ks where "ks = map binding_id (fallback_bindings_for key r)"
  have a: "tidy r" "\<And>k. in_flight r k = None" using assms by (auto simp: arriving_def)
  then have sorted: "map_sorted (by_id (triggers r))"
    by (auto simp: tidy_def registry_wf_def store_ok_def store_wf_def)
  have names: "\<And>k t. (k, t) \<in> set (by_id (triggers r)) \<Longrightarrow> binding_id t = k"
    using a(1) sorted by (auto simp: tidy_def names_agree_def store_get_def map_of_mem_iff)
  have "map binding_id (map snd m) = map fst m" if "set m \<subseteq> set (by_id (triggers r))" for m
    using that names by (induction m) auto
  then have "ks = map fst (filter (\<lambda>(k, t). trigger_type t = snd key \<and> home_namespace t = fst key \<and>
      is_on_fallback t \<and> in_flight r k = None) (by_id (triggers r)))"
    unfolding ks_def fallback_bindings_for_def by (metis (no_types, lifting) filter_is_subset)
  moreover have "distinct (map fst (filter P (by_id (triggers r))))" for P
    using map_sorted_distinct [OF map_sorted_filter [OF sorted]] .
  ultimately have dist: "distinct ks" by simp
  have "k \<in> set ks" if "bound_at r k = Some t" "stray key t" for k t
    using that a(2) names [of k t] sorted
    by (force simp: ks_def fallback_bindings_for_def stray_def is_on_fallback_def store_get_def
        map_of_mem_iff)
  then have "fits r t \<or> stray key t \<and> k \<in> set ks" if "bound_at r k = Some t" for k t
    using assms that unfolding arriving_def by metis
  then have "homing key (set ks) r" using assms by (simp add: homing_def arriving_def)
  then have "must settled [Rehome key reg ks] r" using dist by (rule must_rehome) (rule must.fin)
  then have "must settled [RehomeSnapshot key reg] r"
    by (intro must_go) (auto simp: friendly_def inputs ks_def)
  then show ?thesis using False reg by (intro must_go) (auto simp: friendly_def inputs)
qed

lemma must_type_replay:
  assumes "must Q [TypePending key reg] r"
  shows "must Q [TypeReplay key reg ts] r"
proof (induction "length ts" arbitrary: ts)
  case 0
  with assms show ?case by (intro must_go) (auto simp: friendly_def inputs)
next
  case (Suc m)
  then have ne: "ts \<noteq> []" by auto
  have less: "must Q [TypeReplaying key reg t ys] r" if "length ys = m" for t ys
    using Suc.hyps(1) that by (intro must_go) (auto simp: friendly_def inputs)
  show ?case
  proof (rule must.go)
    fix n
    obtain t ys where p: "pick n ts = (t, ys)" by (cases "pick n ts")
    with ne have "t \<in> set ts" "ys = remove1 t ts" by (auto simp: pick_def Let_def)
    with Suc.hyps(2) have "length ys = m" by (simp add: length_remove1)
    with less ne p show "\<exists>fs spawned r'. advance (TypeReplay key reg ts) (friendly n (TypeReplay key reg ts)) r
        = Some (fs, spawned, r') \<and> must Q (fs @ [] @ concat spawned) r'"
      by (simp add: friendly_def inputs)
  qed
qed

lemma keys_filter_value:
  assumes "map_sorted m"
  shows "k \<in> set (map fst (filter (\<lambda>(k, v). P v) m)) \<longleftrightarrow> (\<exists>v. map_of m k = Some v \<and> P v)"
  by (auto simp: map_of_mem_iff [OF assms] image_iff split_beta)

lemma values_filter:
  assumes "map_sorted m"
  shows "v \<in> set (map snd (filter (\<lambda>(k, v). P k v) m)) \<longleftrightarrow> (\<exists>k. map_of m k = Some v \<and> P k v)"
  by (force simp: map_of_mem_iff [OF assms])

lemma resolvable_intents_parked:
  assumes "map_sorted (pending_triggers r)"
  shows "set (resolvable_intents key r) =
    {k. \<exists>t. parked r k = Some t \<and> resolve_provider_key t r = Some key}"
proof -
  have "trigger_type t = snd key \<and> resolve_provider_key t r = Some key \<longleftrightarrow>
      resolve_provider_key t r = Some key" for t
    using resolve_SomeD(1) [of t r key] by metis
  then show ?thesis
    unfolding resolvable_intents_def using keys_filter_value [OF assms] by (simp only: set_eq_iff mem_Collect_eq) simp
qed

lemma must_register_type:
  assumes "settled r"
  shows "must settled [RegisterType p] r"
proof -
  define key where "key = type_provider_key p"
  define r' where "r' = r\<lparr>trigger_types := map_insert key p (trigger_types r)\<rparr>"
  have arr: "arriving key {k. \<exists>t. parked r k = Some t \<and> resolve_provider_key t r' = Some key} r'"
    using assms r'_def by (rule arriving_new_type)
  then have "has_type key r'" unfolding arriving_def by blast
  then obtain reg where reg: "provider_registrator key r' = Some reg" using provided by blast
  have wf: "map_sorted (pending_triggers r')"
    using arr unfolding arriving_def tidy_def registry_wf_def by blast
  have "pending_triggers r' = pending_triggers r" unfolding r'_def by simp
  then have "set (resolvable_intents key r') = {k. \<exists>t. parked r k = Some t \<and> resolve_provider_key t r' = Some key}"
    using resolvable_intents_parked [OF wf, of key] by (simp only:)
  then have "arriving key (set (resolvable_intents key r')) r'" using arr by simp
  moreover have "distinct (resolvable_intents key r')"
    unfolding resolvable_intents_def by (rule map_sorted_distinct [OF map_sorted_filter [OF wf]])
  ultimately have "must settled [TypeDrain key reg (resolvable_intents key r')] r'"
    by (rule must_drain [OF _ _ must_type_rehome])
  then have "must settled [TypePending key reg] r'"
    by (intro must_go) (auto simp: friendly_def inputs)
  then have "must settled [TypeReplay key reg ts] r'" for ts by (rule must_type_replay)
  then have "must settled [TypeReplayWith key ts] r'" for ts
    using reg by (intro must_go) (auto simp: friendly_def inputs)
  then have "must settled [TypeSnapshot key] r'" by (intro must_go) (auto simp: friendly_def inputs)
  then show ?thesis by (intro must_go) (auto simp: friendly_def inputs key_def r'_def)
qed

section \<open>Removal of a binding\<close>

lemma settled_removed:
  assumes "settled r" and "registry_wf r'" and "trigger_types r' = trigger_types r"
    and "\<And>k'. bound_at r' k' = bound_at r k' \<or> bound_at r' k' = None"
    and "\<And>k'. parked r' k' = parked r k' \<or> parked r' k' = None"
    and "\<And>k'. in_flight r' k' = None"
  shows "settled r'"
proof -
  have b: "bound_at r k' = Some t" if "bound_at r' k' = Some t" for k' t
    using that assms(4) [of k'] by simp
  have p: "parked r k' = Some t" if "parked r' k' = Some t" for k' t
    using that assms(5) [of k'] by simp
  note r = settledD [OF assms(1)]
  show ?thesis
  proof (rule settledI)
    show "tidy r'"
    proof (rule tidyI)
      show "binding_id t = k" if "bound_at r' k = Some t" for k t using tidyD(3) [OF r(1) b [OF that]] .
      show "binding_id t = k" if "parked r' k = Some t" for k t using tidyD(4) [OF r(1) p [OF that]] .
      show "bound_at r' k = None \<or> parked r' k = None" for k
        using tidyD(5) [OF r(1) b [of k]] assms(5) [of k] by (cases "bound_at r' k") auto
    qed (simp_all add: assms(2,6))
    show "fits r' t" if "bound_at r' k = Some t" for k t
      using r(3) [OF b [OF that]] fits_types [OF assms(3)] by simp
    show "resolve_provider_key t r' = None" if "parked r' k = Some t" for k t
      using r(4) [OF p [OF that]] resolve_types [OF assms(3)] by simp
  qed (rule assms(6))
qed

lemma must_unregister:
  assumes "settled r"
  shows "must settled [Unregister k] r"
proof (cases "bound_at r k")
  case None
  have wf: "registry_wf r" and flight: "\<And>k. in_flight r k = None"
    using assms by (auto simp: settled_def tidy_def)
  have "settled (pending_remove k (drop_token k r))"
    by (rule settled_removed [OF assms]) (simp_all add: views wf flight)
  with None show ?thesis
    by (intro must_go)
      (auto simp: friendly_def inputs begin_removal_def interrupt_failover_drop intro: must.fin)
next
  case (Some t)
  have wf: "registry_wf r" and flight: "\<And>k. in_flight r k = None" and id: "binding_id t = k"
    using assms Some tidyD(3) [of r k t] by (auto simp: settled_def tidy_def)
  define token where "token = fst (begin_transition t True r)"
  define r2 where "r2 = snd (begin_transition t True r)"
  have cur: "current_token k token r2"
    unfolding token_def r2_def using wf id by (rule current_begun)
  have "settled (pending_remove k (live_remove k (snd (finish_transition k token r2))))"
    by (rule settled_removed [OF assms])
      (use cur in \<open>simp_all add: views wf flight id r2_def\<close>)
  with cur have last: "must settled [RemoveFinish t token reg] r2" for reg
    by (intro must_go)
      (auto simp: friendly_def inputs finish_removal_def split_beta views id
        split: option.split intro: must.fin)
  then have "must settled [Removing t token reg] r2" for reg
    by (intro must_go) (auto simp: friendly_def inputs)
  with last have "must settled [RemoveWith t token] r2"
    by (intro must.go) (auto simp: friendly_def inputs split: option.splits)
  then show ?thesis
    by (intro must_go) (auto simp: friendly_def inputs begin_removal_def Some token_def r2_def split_beta)
qed

section \<open>Departure of providers\<close>

text \<open>
  The registry while bindings leave a provider that is gone: the bindings still to move are
  listed in \<open>os\<close>, each in flight with its token; every other is where it belongs.
\<close>

definition leaving :: "(trigger \<times> u64) list \<Rightarrow> registry \<Rightarrow> bool" where
  "leaving os r \<longleftrightarrow> tidy r \<and> distinct (map (binding_id \<circ> fst) os) \<and>
     (\<forall>(t, token) \<in> set os. bound_at r (binding_id t) = Some t \<and> \<not> has_type (provider_key t) r \<and>
        (\<exists>op. in_flight r (binding_id t) = Some op \<and> transition_token op = token \<and> \<not> removing op)) \<and>
     (\<forall>k. k \<notin> binding_id ` fst ` set os \<longrightarrow> in_flight r k = None) \<and>
     (\<forall>k t. bound_at r k = Some t \<longrightarrow> k \<notin> binding_id ` fst ` set os \<longrightarrow> fits r t) \<and>
     (\<forall>k t. parked r k = Some t \<longrightarrow> resolve_provider_key t r = None)"

lemma leaving_settled: "leaving [] r \<longleftrightarrow> settled r"
  by (simp add: leaving_def settled_def)

text \<open>One binding moves: it is bound where it resolves now, or parked.\<close>

lemma leaving_moved:
  assumes "leaving ((t, token) # os) r" and "registry_wf r'" and "trigger_types r' = trigger_types r"
    and "\<And>k. k \<noteq> binding_id t \<Longrightarrow> bound_at r' k = bound_at r k \<and> parked r' k = parked r k \<and> in_flight r' k = in_flight r k"
    and "in_flight r' (binding_id t) = None"
    and "(\<exists>u. bound_at r' (binding_id t) = Some u \<and> binding_id u = binding_id t \<and> fits r u \<and>
           parked r' (binding_id t) = None) \<or>
         (\<exists>u. parked r' (binding_id t) = Some u \<and> binding_id u = binding_id t \<and>
           resolve_provider_key u r = None \<and> bound_at r' (binding_id t) = None)"
  shows "leaving os r'"
proof -
  let ?k = "binding_id t"
  have old: "tidy r" "distinct (map (binding_id \<circ> fst) os)" "?k \<notin> binding_id ` fst ` set os"
    using assms(1) by (auto simp: leaving_def)
  have names: "names_agree r" using old(1) by (rule tidyD)
  have "tidy r'"
  proof (rule tidyI [OF assms(2)])
    fix k
    show "binding_id u = k" if "bound_at r' k = Some u" for u
      using that assms(4,6) tidyD(3) [OF old(1)] by (cases "k = ?k") auto
    show "binding_id u = k" if "parked r' k = Some u" for u
      using that assms(4,6) tidyD(4) [OF old(1)] by (cases "k = ?k") auto
    show "binding_id (transition_target op) = k" if "in_flight r' k = Some op" for op
      using that assms(4,5) names by (cases "k = ?k") (auto simp: names_agree_def)
    show "bound_at r' k = None \<or> parked r' k = None"
      using assms(4,6) old(1) by (cases "k = ?k") (auto simp: tidy_def)
  qed
  moreover have "bound_at r' (binding_id u) = Some u \<and> \<not> has_type (provider_key u) r' \<and>
      (\<exists>op. in_flight r' (binding_id u) = Some op \<and> transition_token op = tok \<and> \<not> removing op)"
    if "(u, tok) \<in> set os" for u tok
  proof -
    have "binding_id u \<noteq> ?k" using that old(3) by (metis fst_conv image_eqI)
    then show ?thesis
      using that assms(1) assms(4) [of "binding_id u"] by (auto simp: leaving_def has_type_def assms(3))
  qed
  moreover have "in_flight r' k = None" if "k \<notin> binding_id ` fst ` set os" for k
    using that assms(1,4,5) by (cases "k = ?k") (auto simp: leaving_def)
  moreover have "fits r' u" if "bound_at r' k = Some u" "k \<notin> binding_id ` fst ` set os" for k u
    using that assms(1,4,6) fits_types [OF assms(3)] by (cases "k = ?k") (auto simp: leaving_def)
  moreover have "resolve_provider_key u r' = None" if "parked r' k = Some u" for k u
    using that assms(1,4,6) resolve_types [OF assms(3)] by (cases "k = ?k") (auto simp: leaving_def)
  ultimately show ?thesis using old(2) by (auto simp: leaving_def)
qed

lemma fail_over_resolve_views:
  assumes "registry_wf r" and "in_flight r (binding_id t) = Some op" and "transition_token op = token"
  defines "m \<equiv> (case resolve_provider_key t r of
    Some key \<Rightarrow> t\<lparr>provider_namespace := fst key\<rparr> | None \<Rightarrow> t)"
  shows "\<exists>r2. fail_over_resolve t token r = (Some (m, resolve_provider_key t r), r2) \<and>
    registry_wf r2 \<and> trigger_types r2 = trigger_types r \<and> current_token (binding_id t) token r2 \<and>
    (\<forall>k. bound_at r2 k = bound_at r k \<and> parked r2 k = parked r k \<and>
       (k \<noteq> binding_id t \<longrightarrow> in_flight r2 k = in_flight r k))"
  using assms(1-3)
  by (simp add: fail_over_resolve_def m_def registry_wf_def map_laws current_token_def Let_def)

lemma fail_over_settle_views:
  assumes "registry_wf r" and "current_token (binding_id m) token r"
  shows "fst (fail_over_settle m token replayed r) = replayed"
    "registry_wf (snd (fail_over_settle m token replayed r))"
    "trigger_types (snd (fail_over_settle m token replayed r)) = trigger_types r"
    "bound_at (snd (fail_over_settle m token replayed r)) k =
       (if k = binding_id m then if replayed then Some m else None else bound_at r k)"
    "parked (snd (fail_over_settle m token replayed r)) k =
       (if k = binding_id m \<and> \<not> replayed then Some m else parked r k)"
    "in_flight (snd (fail_over_settle m token replayed r)) k =
       (if k = binding_id m then None else in_flight r k)"
  using assms by (auto simp: fail_over_settle_def split_beta Let_def views)

lemma must_fail_over:
  assumes leav: "leaving ((t, token) # os) r" and rest: "\<And>r. leaving os r \<Longrightarrow> must Q rest r"
  shows "must Q (FailOver t token # rest) r"
proof -
  let ?k = "binding_id t"
  have r: "tidy r" "registry_wf r" "bound_at r ?k = Some t" using leav by (auto simp: leaving_def tidy_def)
  from leav obtain op where op: "in_flight r ?k = Some op" "transition_token op = token"
    by (auto simp: leaving_def)
  define to where "to = resolve_provider_key t r"
  define m where "m = (case to of Some key \<Rightarrow> t\<lparr>provider_namespace := fst key\<rparr> | None \<Rightarrow> t)"
  obtain r2 where r2: "fail_over_resolve t token r = (Some (m, to), r2)" "registry_wf r2"
    "trigger_types r2 = trigger_types r" "current_token ?k token r2"
    "\<And>k. bound_at r2 k = bound_at r k" "\<And>k. parked r2 k = parked r k"
    "\<And>k. k \<noteq> ?k \<Longrightarrow> in_flight r2 k = in_flight r k"
    using fail_over_resolve_views [OF r(2) op] unfolding m_def to_def by blast
  have id: "binding_id m = ?k" by (simp add: m_def split: option.split)
  have cur: "current_token (binding_id m) token r2" using r2(4) by (simp add: id)
  note sv = fail_over_settle_views [OF r2(2) cur]
  let ?r = "snd (fail_over_settle m token (to \<noteq> None) r2)"
  have fit: "to \<noteq> None \<Longrightarrow> fits r m" "to = None \<Longrightarrow> resolve_provider_key m r = None"
    using fits_resolved [of t r] by (auto simp: m_def to_def)
  have "parked r ?k = None" using tidyD(5) [OF r(1,3)] .
  then have "leaving os ?r"
    by (intro leaving_moved [OF leav]) (use fit r2(3,5-7) in \<open>cases to; auto simp: sv id\<close>)+
  then have after: "must Q rest ?r" by (rule rest)
  have home: "must Q (FailOverHome m # rest) ?r" if "to \<noteq> None" "is_on_fallback m"
  proof -
    have "\<not> has_type (home_namespace m, trigger_type m) r"
      using that
      by (auto simp: m_def to_def is_on_fallback_def resolve_provider_key_def split: option.splits if_splits)
    then have "provider_registrator (home_namespace m, trigger_type m) ?r = None"
      by (simp add: has_type_def provider_registrator_def sv r2(3))
    with after show ?thesis by (intro must_go) (auto simp: friendly_def inputs)
  qed
  have settle: "must Q (FailOverSettle m reg token (to \<noteq> None) # rest) r2" if "to = None \<longrightarrow> reg = None" for reg
    using after home sv(1) that
    by (intro must_go [where r' = "\<lambda>_. ?r" and spawned = "\<lambda>_. []"
          and fs = "\<lambda>_. if to \<noteq> None \<and> is_on_fallback m then [FailOverHome m] else []"])
      (auto simp: friendly_def inputs split_beta split: option.split)
  have "must Q (FailOverWith m to token # rest) r2"
  proof (cases to)
    case None
    with settle [of None] show ?thesis by (intro must_go) (auto simp: friendly_def inputs)
  next
    case (Some key)
    then obtain reg where reg: "provider_registrator key r2 = Some reg"
      using resolve_SomeD(2) [of t r key] by (auto simp: to_def provider_registrator_def r2(3))
    have "must Q (FailOverReplaying m reg token # rest) r2"
      using settle [of "Some reg"] Some by (intro must_go) (auto simp: friendly_def inputs)
    then show ?thesis using Some reg by (intro must_go) (auto simp: friendly_def inputs)
  qed
  then show ?thesis by (intro must_go) (auto simp: friendly_def inputs r2(1))
qed

lemma must_fail_overs:
  assumes "leaving os r"
  shows "must settled (map (\<lambda>(t, token). FailOver t token) os) r"
  using assms
proof (induction os arbitrary: r)
  case Nil
  then show ?case by (simp add: leaving_settled must.fin)
next
  case (Cons o' os)
  then show ?case by (cases o') (auto intro: must_fail_over)
qed

lemma claim_orphans_exact:
  "registry_wf r \<Longrightarrow> distinct (map binding_id ts) \<Longrightarrow>
   map fst (fst (claim_orphans ts r)) = ts \<and>
   (\<forall>(t, token) \<in> set (fst (claim_orphans ts r)). \<exists>op. in_flight (snd (claim_orphans ts r)) (binding_id t) = Some op \<and>
      transition_token op = token \<and> \<not> removing op \<and> binding_id (transition_target op) = binding_id t) \<and>
   (\<forall>k. k \<notin> binding_id ` set ts \<longrightarrow> in_flight (snd (claim_orphans ts r)) k = in_flight r k)"
proof (induction ts arbitrary: r)
  case (Cons t ts)
  let ?r = "snd (begin_transition t False r)"
  have IH: "map fst (fst (claim_orphans ts ?r)) = ts \<and>
   (\<forall>(t, token) \<in> set (fst (claim_orphans ts ?r)). \<exists>op. in_flight (snd (claim_orphans ts ?r)) (binding_id t) = Some op \<and>
      transition_token op = token \<and> \<not> removing op \<and> binding_id (transition_target op) = binding_id t) \<and>
   (\<forall>k. k \<notin> binding_id ` set ts \<longrightarrow> in_flight (snd (claim_orphans ts ?r)) k = in_flight ?r k)"
    by (rule Cons.IH) (use Cons.prems in \<open>simp_all add: views\<close>)
  have "binding_id t \<notin> binding_id ` set ts" using Cons.prems(2) by simp
  with IH have "in_flight (snd (claim_orphans ts ?r)) (binding_id t) = in_flight ?r (binding_id t)" by blast
  then show ?case using IH Cons.prems(1) by (simp add: split_beta Let_def views)
qed simp

lemma resolve_removed_type:
  "resolve_provider_key t r = None \<Longrightarrow>
   resolve_provider_key t (r\<lparr>trigger_types := map_remove key (trigger_types r)\<rparr>) = None"
  by (auto simp: resolve_provider_key_def has_type_def map_of_remove split: option.splits if_splits)

lemma fits_removed_type:
  "fits r t \<Longrightarrow> provider_key t \<noteq> key \<Longrightarrow> fits (r\<lparr>trigger_types := map_remove key (trigger_types r)\<rparr>) t"
  by (auto simp: fits_def provider_key_def resolve_provider_key_def has_type_def map_of_remove
      split: option.splits if_splits)

lemma take_leaving:
  assumes "leaving os r"
  shows "\<exists>os'. fail_over_tasks (fst (take_trigger_type_if_provider key w r)) =
      map (\<lambda>(t, token). [FailOver t token]) os' \<and>
    leaving (os @ os') (snd (take_trigger_type_if_provider key w r))"
proof (cases "\<exists>p. map_of (trigger_types r) key = Some p \<and> provider_worker p = Some w")
  case False
  then have "take_trigger_type_if_provider key w r = (None, r)"
    by (auto simp: take_trigger_type_if_provider_def split: option.split)
  then show ?thesis using assms by (simp add: fail_over_tasks_def)
next
  case True
  define r0 where "r0 = r\<lparr>trigger_types := map_remove key (trigger_types r)\<rparr>"
  define ts where "ts = map snd (filter (\<lambda>(k, t). provider_key t = key \<and> \<not> is_removing k r0)
    (by_id (triggers r0)))"
  define os' where "os' = fst (claim_orphans ts r0)"
  define r' where "r' = snd (claim_orphans ts r0)"
  have take: "take_trigger_type_if_provider key w r = (Some os', r')"
    using True by (auto simp: take_trigger_type_if_provider_def r0_def ts_def os'_def r'_def Let_def split_beta)
  have v0: "triggers r0 = triggers r" "pending_triggers r0 = pending_triggers r"
    "failing_over r0 = failing_over r"
    by (simp_all add: r0_def)
  have old: "tidy r" "registry_wf r" "names_agree r" using assms tidyD by (auto simp: leaving_def)
  have wf0: "registry_wf r0" using old(2) by (simp add: r0_def registry_wf_def map_laws)
  have sorted: "map_sorted (by_id (triggers r))"
    using old(2) by (simp add: registry_wf_def store_ok_def store_wf_def)
  have mem: "(k, t) \<in> set (by_id (triggers r)) \<longleftrightarrow> bound_at r k = Some t" for k t
    using map_of_mem_iff [OF sorted] by (simp add: store_get_def)
  have ids: "map binding_id ts = map fst (filter (\<lambda>(k, t). provider_key t = key \<and> \<not> is_removing k r0)
    (by_id (triggers r)))"
  proof -
    have "map binding_id (map snd m) = map fst m" if "set m \<subseteq> set (by_id (triggers r))" for m
      using that
    proof (induction m)
      case (Cons e m)
      then have "bound_at r (fst e) = Some (snd e)" using mem [of "fst e" "snd e"] by simp
      then show ?case using Cons tidyD(3) [OF old(1)] by simp
    qed simp
    then show ?thesis unfolding ts_def v0 by (metis (no_types, lifting) filter_is_subset)
  qed
  have dist: "distinct (map binding_id ts)"
    unfolding ids by (rule map_sorted_distinct [OF map_sorted_filter [OF sorted]])
  note exact = claim_orphans_exact [OF wf0 dist, folded os'_def r'_def]
  have v: "bound_at r' k = bound_at r k" "parked r' k = parked r k" "trigger_types r' = trigger_types r0"
    "registry_wf r'" for k
    using wf0 by (simp_all add: r'_def v0 claim_orphans_views)
  have gone: "\<not> has_type key r'" "has_type key r" "has_type key' r' \<Longrightarrow> has_type key' r" for key'
    using True by (auto simp: has_type_def v(3) r0_def map_of_remove split: if_splits)
  have ts: "t \<in> set ts \<longleftrightarrow> bound_at r (binding_id t) = Some t \<and> provider_key t = key \<and> \<not> is_removing (binding_id t) r"
    for t
  proof -
    have "t \<in> set ts \<longleftrightarrow> (\<exists>k. bound_at r k = Some t \<and> provider_key t = key \<and> \<not> is_removing k r)"
      unfolding ts_def v0 using values_filter [OF sorted]
      by (simp only: store_get_def is_removing_def v0)
    then show ?thesis using tidyD(3) [OF old(1)] by metis
  qed
  have os: "bound_at r (binding_id t) = Some t" "\<not> has_type (provider_key t) r"
    "\<exists>op. in_flight r (binding_id t) = Some op \<and> transition_token op = token \<and> \<not> removing op"
    if "(t, token) \<in> set os" for t token
    using that assms by (auto simp: leaving_def)
  have apart: "binding_id t \<notin> binding_id ` set ts" if "(t, token) \<in> set os" for t token
  proof
    assume "binding_id t \<in> binding_id ` set ts"
    then obtain u where "u \<in> set ts" "binding_id u = binding_id t" by auto
    then have "u = t" using os(1) [OF that] ts by simp
    then show False using \<open>u \<in> set ts\<close> ts os(2) [OF that] gone(2) by simp
  qed
  have claimed: "fst ` set os' = set ts" using exact by (metis list.set_map)
  have "leaving (os @ os') r'"
    unfolding leaving_def
  proof (intro conjI)
    show "tidy r'"
    proof (rule tidyI [OF v(4)])
      show "binding_id (transition_target op) = k" if "in_flight r' k = Some op" for k op
      proof (cases "k \<in> binding_id ` set ts")
        case True
        then obtain t token where "(t, token) \<in> set os'" "binding_id t = k" using claimed by fastforce
        then show ?thesis using exact that by fastforce
      next
        case False
        then show ?thesis using exact that old(3) v0 by (auto simp: names_agree_def)
      qed
    qed (use tidyD(3,4) [OF old(1)] old(1) in \<open>auto simp: v tidy_def\<close>)
    show "distinct (map (binding_id \<circ> fst) (os @ os'))"
    proof -
      have "map fst os' = ts" using exact by (rule conjunct1)
      then have "map (binding_id \<circ> fst) os' = map binding_id ts" by (simp flip: map_map)
      moreover have "x \<notin> set (map binding_id ts)" if "x \<in> set (map (binding_id \<circ> fst) os)" for x
      proof -
        from that obtain e where "e \<in> set os" "x = binding_id (fst e)" unfolding set_map by auto
        then show ?thesis using apart [of "fst e" "snd e"] by simp
      qed
      moreover have "distinct (map (binding_id \<circ> fst) os)" using assms by (simp add: leaving_def)
      ultimately show ?thesis using dist unfolding map_append distinct_append by auto
    qed
    show "\<forall>(t, token) \<in> set (os @ os'). bound_at r' (binding_id t) = Some t \<and> \<not> has_type (provider_key t) r' \<and>
        (\<exists>op. in_flight r' (binding_id t) = Some op \<and> transition_token op = token \<and> \<not> removing op)"
    proof (intro ballI, clarify)
      fix t token assume "(t, token) \<in> set (os @ os')"
      then consider "(t, token) \<in> set os" | "(t, token) \<in> set os'" by auto
      then show "bound_at r' (binding_id t) = Some t \<and> \<not> has_type (provider_key t) r' \<and>
        (\<exists>op. in_flight r' (binding_id t) = Some op \<and> transition_token op = token \<and> \<not> removing op)"
      proof cases
        case 1
        then show ?thesis using os [OF 1] apart [OF 1] exact gone(3) [of "provider_key t"] v0 by (auto simp: v(1))
      next
        case 2
        then have "t \<in> set ts" using claimed by force
        then show ?thesis using 2 ts exact gone(1) by (auto simp: v(1))
      qed
    qed
    show "\<forall>k. k \<notin> binding_id ` fst ` set (os @ os') \<longrightarrow> in_flight r' k = None"
      using exact assms claimed v0 by (auto simp: leaving_def image_Un)
    show "\<forall>k t. bound_at r' k = Some t \<longrightarrow> k \<notin> binding_id ` fst ` set (os @ os') \<longrightarrow> fits r' t"
    proof (intro allI impI)
      fix k t assume t: "bound_at r' k = Some t" and k: "k \<notin> binding_id ` fst ` set (os @ os')"
      have b: "bound_at r k = Some t" "binding_id t = k" using t tidyD(3) [OF old(1)] by (simp_all add: v(1))
      have "k \<notin> binding_id ` fst ` set os" "k \<notin> binding_id ` set ts" using k claimed by (auto simp: image_Un)
      then have "fits r t" "in_flight r k = None" "t \<notin> set ts"
        using assms b by (auto simp: leaving_def)
      then have "provider_key t \<noteq> key" using ts b by (simp add: is_removing_def)
      then have "fits r0 t" using fits_removed_type \<open>fits r t\<close> by (simp add: r0_def)
      then show "fits r' t" using fits_types [OF v(3)] by simp
    qed
    show "\<forall>k t. parked r' k = Some t \<longrightarrow> resolve_provider_key t r' = None"
    proof (intro allI impI)
      fix k t assume "parked r' k = Some t"
      then have "resolve_provider_key t r = None" using assms by (simp add: v(2) leaving_def)
      then show "resolve_provider_key t r' = None"
        using resolve_removed_type resolve_types [OF v(3)] by (simp add: r0_def)
    qed
  qed
  then show ?thesis using take by (auto simp: fail_over_tasks_def)
qed

lemma must_worker_types:
  assumes "leaving os r"
  shows "must settled (WorkerTypes w keys # map (\<lambda>(t, token). FailOver t token) os) r"
  using assms
proof (induction "length keys" arbitrary: keys os r)
  case 0
  then show ?case by (intro must_go) (auto simp: friendly_def inputs intro: must_fail_overs)
next
  case (Suc m)
  then have ne: "keys \<noteq> []" by auto
  show ?case
  proof (rule must.go)
    fix n
    obtain key ys where p: "pick n keys = (key, ys)" by (cases "pick n keys")
    with ne have "key \<in> set keys" "ys = remove1 key keys" by (auto simp: pick_def Let_def)
    with Suc.hyps(2) have len: "m = length ys" by (simp add: length_remove1)
    obtain os' where os': "fail_over_tasks (fst (take_trigger_type_if_provider key w r)) =
        map (\<lambda>(t, token). [FailOver t token]) os'"
      "leaving (os @ os') (snd (take_trigger_type_if_provider key w r))"
      using take_leaving [OF Suc.prems] by blast
    have "concat (map (\<lambda>(t, token). [FailOver t token]) os') = map (\<lambda>(t, token). FailOver t token) os'"
      by (induction os') auto
    with Suc.hyps(1) [OF len os'(2)] ne p os'(1)
    show "\<exists>fs spawned r'. advance (WorkerTypes w keys) (friendly n (WorkerTypes w keys)) r
        = Some (fs, spawned, r') \<and> must settled (fs @ map (\<lambda>(t, token). FailOver t token) os @ concat spawned) r'"
      by (simp add: friendly_def inputs split_beta)
  qed
qed

lemma concat_singletons:
  "concat (map (\<lambda>(t, token). [FailOver t token]) os) = map (\<lambda>(t, token). FailOver t token) os"
  by (induction os) auto

lemma must_remove_type:
  assumes "settled r"
  shows "must settled [RemoveType key w] r"
proof -
  obtain os' where os': "fail_over_tasks (fst (take_trigger_type_if_provider key w r)) =
      map (\<lambda>(t, token). [FailOver t token]) os'"
    "leaving ([] @ os') (snd (take_trigger_type_if_provider key w r))"
    using take_leaving [of "[]" r] assms by (metis leaving_settled)
  from os'(2) have "must settled (map (\<lambda>(t, token). FailOver t token) os')
    (snd (take_trigger_type_if_provider key w r))"
    by (intro must_fail_overs) simp
  with os'(1) show ?thesis
    by (intro must_go) (auto simp: friendly_def inputs split_beta concat_singletons)
qed

lemma filter_pending_settled:
  assumes "settled r"
  shows "settled (r\<lparr>pending_triggers := filter P (pending_triggers r)\<rparr>)"
proof -
  have wf: "registry_wf r" using assms by (simp add: settled_def tidy_def)
  then have sorted: "map_sorted (pending_triggers r)" by (simp add: registry_wf_def)
  have "map_of (filter P (pending_triggers r)) k = parked r k \<or> map_of (filter P (pending_triggers r)) k = None" for k
  proof (cases "map_of (filter P (pending_triggers r)) k")
    case (Some t)
    then have "(k, t) \<in> set (pending_triggers r)"
      using map_of_mem_iff [OF map_sorted_filter [OF sorted], of P k t] by simp
    with Some show ?thesis using map_of_mem_iff [OF sorted, of k t] by simp
  qed simp
  then show ?thesis
    using wf settledD(2) [OF assms]
    by (intro settled_removed [OF assms]) (auto simp: registry_wf_def map_sorted_filter)
qed

lemma must_sweep: "settled r \<Longrightarrow> must settled [Sweep connected] r"
  by (rule must_go)
    (auto simp: friendly_def inputs sweep_dead_intents_def intro!: must.fin filter_pending_settled)

lemma remove_worker_binding_settled:
  assumes "settled r"
  shows "settled (snd (remove_worker_binding w k r))"
proof -
  have wf: "registry_wf r" using assms by (simp add: settled_def tidy_def)
  show ?thesis
    using wf settledD(2) [OF assms]
    by (intro settled_removed [OF assms])
      (auto simp: remove_worker_binding_def split_beta Let_def drop_token_def interrupt_failover_def
        registry_wf_def map_laws store_get_remove_if split: option.split)
qed

lemma must_worker_bindings:
  assumes "settled r"
  shows "must settled [WorkerBindings w ks keys] r"
  using assms
proof (induction "length ks" arbitrary: ks r)
  case 0
  have "settled (drop_worker_intents w r)"
    unfolding drop_worker_intents_def by (rule filter_pending_settled [OF 0(2)])
  then have "must settled [WorkerTypes w keys] (drop_worker_intents w r)"
    using must_worker_types [of "[]"] by (simp add: leaving_settled)
  with 0 show ?case by (intro must_go) (auto simp: friendly_def inputs)
next
  case (Suc m)
  then have ne: "ks \<noteq> []" by auto
  show ?case
  proof (rule must.go)
    fix n
    obtain k ys where p: "pick n ks = (k, ys)" by (cases "pick n ks")
    with ne have "k \<in> set ks" "ys = remove1 k ks" by (auto simp: pick_def Let_def)
    with Suc.hyps(2) have len: "m = length ys" by (simp add: length_remove1)
    obtain removed r2 where r2: "remove_worker_binding w k r = (removed, r2)"
      by (cases "remove_worker_binding w k r")
    have s2: "settled r2" using remove_worker_binding_settled [OF Suc.prems, of w k] r2 by simp
    have next_one: "must settled [WorkerBindings w ys keys] r2" using Suc.hyps(1) [OF len s2] .
    have "must settled [WorkerDetaching w t reg ys keys] r2" if "bound_at r2 (binding_id t) = None" for t reg
      using next_one that by (intro must_go) (auto simp: friendly_def inputs store_contains_def)
    then have detach: "must settled [WorkerDetach w t ys keys] r2" if "bound_at r2 (binding_id t) = None" for t
      using next_one that by (intro must.go) (auto simp: friendly_def inputs split: option.splits)
    have "bound_at r2 (binding_id t) = None" if "removed = Some t" for t
    proof -
      have "bound_at r k = Some t" "bound_at r2 k = None"
        using r2 that
        by (auto simp: remove_worker_binding_def split_beta Let_def fst_store_remove drop_token_def
            interrupt_failover_def store_get_remove_if split: option.splits if_splits)
      then show ?thesis using tidyD(3) settledD(1) [OF Suc.prems] by metis
    qed
    then show "\<exists>fs spawned r'. advance (WorkerBindings w ks keys) (friendly n (WorkerBindings w ks keys)) r
        = Some (fs, spawned, r') \<and> must settled (fs @ [] @ concat spawned) r'"
      using next_one detach ne p r2 by (cases removed) (simp_all add: friendly_def inputs)
  qed
qed

lemma must_unregister_worker:
  assumes "settled r"
  shows "must settled [UnregisterWorker w] r"
proof -
  have "failing_over r = []"
    using settledD(2) [OF assms] by (metis map_of_eq_empty_iff ext)
  then have "cancel_worker_claims w r = drop_worker_intents w r"
    by (simp add: cancel_worker_claims_def drop_worker_intents_def)
  then have "settled (cancel_worker_claims w r)"
    unfolding drop_worker_intents_def by (simp add: filter_pending_settled [OF assms])
  then have "must settled [WorkerBindings w ks keys] (cancel_worker_claims w r)" for ks keys
    by (rule must_worker_bindings)
  then have "must settled [WorkerSnapshot w] (cancel_worker_claims w r)"
    by (intro must_go) (auto simp: friendly_def inputs)
  then show ?thesis by (intro must_go) (auto simp: friendly_def inputs)
qed

section \<open>Sequences of operations\<close>

text \<open>The outcome of frames that run alone; the loops pick in any order.\<close>

inductive completes :: "frame list \<Rightarrow> registry \<Rightarrow> registry \<Rightarrow> bool" where
  ends: "completes [] r r"
| run: "advance f (friendly n f) r = Some (fs, spawned, r') \<Longrightarrow>
    completes (fs @ rest @ concat spawned) r' r'' \<Longrightarrow> completes (f # rest) r r''"

inductive_cases completes_NilE: "completes [] r r'"
inductive_cases completes_ConsE: "completes (f # rest) r r'"

lemma must_completes: "must Q fs r \<Longrightarrow> (\<exists>r'. completes fs r r') \<and> (\<forall>r'. completes fs r r' \<longrightarrow> Q r')"
proof (induction rule: must.induct)
  case (fin r)
  then show ?case by (auto intro: completes.ends elim: completes_NilE)
next
  case (go f r rest)
  obtain fs spawned r' where "advance f (friendly 0 f) r = Some (fs, spawned, r')"
    "\<exists>r''. completes (fs @ rest @ concat spawned) r' r''"
    using go [of 0] by blast
  then have "\<exists>r''. completes (f # rest) r r''" by (blast intro: completes.run)
  moreover have "Q r''" if "completes (f # rest) r r''" for r''
    using that
  proof (rule completes_ConsE)
    fix n fs spawned r'
    assume "advance f (friendly n f) r = Some (fs, spawned, r')"
      "completes (fs @ rest @ concat spawned) r' r''"
    with go [of n] show ?thesis by auto
  qed
  ultimately show ?case by blast
qed

fun operation :: "frame \<Rightarrow> bool" where
  "operation (ParkRejected k w) = False"
| "operation f = entry f"

lemma operation_must: "settled r \<Longrightarrow> operation f \<Longrightarrow> must settled [f] r"
  by (cases f)
    (simp_all add: must_register must_register_type must_unregister must_unregister_worker
      must_remove_type must_sweep)

inductive sequence :: "frame list \<Rightarrow> registry \<Rightarrow> registry \<Rightarrow> bool" where
  nothing: "sequence [] r r"
| another: "operation f \<Longrightarrow> completes [f] r r' \<Longrightarrow> sequence fs r' r'' \<Longrightarrow> sequence (f # fs) r r''"

lemma settled_new: "settled registry_new"
  by (rule settledI)
    (simp_all add: tidy_def registry_wf_new names_agree_def,
     simp_all add: registry_new_def store_new_def store_get_def)

lemma sequence_settled: "sequence fs r r' \<Longrightarrow> settled r \<Longrightarrow> settled r'"
proof (induction rule: sequence.induct)
  case (another f r r' fs r'')
  then show ?case using must_completes [OF operation_must] by blast
qed

text \<open>The binding registered under a name, whatever provider serves it now.\<close>

definition registered :: "registry \<Rightarrow> string \<Rightarrow> trigger option" where
  "registered r k =
     map_option (\<lambda>t. t\<lparr>provider_namespace := []\<rparr>)
       (case bound_at r k of Some t \<Rightarrow> Some t | None \<Rightarrow> parked r k)"

text \<open>Where a settled registry serves a binding is a function of the providers and the binding.\<close>

definition served_by :: "registry \<Rightarrow> string \<Rightarrow> type_key option" where
  "served_by r k = Option.bind (registered r k) (\<lambda>t. resolve_provider_key t r)"

lemma settled_served:
  assumes "settled r"
  shows "map_option provider_key (bound_at r k) = served_by r k"
    "parked r k \<noteq> None \<longleftrightarrow> registered r k \<noteq> None \<and> served_by r k = None"
proof -
  note r = settledD [OF assms]
  show "map_option provider_key (bound_at r k) = served_by r k"
  proof (cases "bound_at r k")
    case None
    then show ?thesis using r(4) [of k] by (cases "parked r k") (auto simp: served_by_def registered_def)
  next
    case (Some t)
    then show ?thesis using r(3) [OF Some] by (simp add: served_by_def registered_def fits_def)
  qed
  show "parked r k \<noteq> None \<longleftrightarrow> registered r k \<noteq> None \<and> served_by r k = None"
  proof (cases "bound_at r k")
    case None
    then show ?thesis using r(4) [of k] by (cases "parked r k") (auto simp: served_by_def registered_def)
  next
    case (Some t)
    then show ?thesis
      using r(3) [OF Some] tidyD(5) [OF r(1) Some] by (simp add: served_by_def registered_def fits_def)
  qed
qed

section \<open>Running a sequence\<close>

fun run_alone :: "nat \<Rightarrow> frame list \<Rightarrow> registry \<Rightarrow> registry option" where
  "run_alone fuel [] r = Some r"
| "run_alone 0 (f # rest) r = None"
| "run_alone (Suc fuel) (f # rest) r =
     (case advance f (friendly 0 f) r of
        Some (fs, spawned, r') \<Rightarrow> run_alone fuel (fs @ rest @ concat spawned) r'
      | None \<Rightarrow> None)"

lemma run_alone_completes: "run_alone fuel fs r = Some r' \<Longrightarrow> completes fs r r'"
  by (induction fuel fs r rule: run_alone.induct)
    (auto intro: completes.intros split: option.splits)

fun run_sequence :: "frame list \<Rightarrow> registry \<Rightarrow> registry option" where
  "run_sequence [] r = Some r"
| "run_sequence (f # fs) r =
     (if operation f then Option.bind (run_alone 100 [f] r) (run_sequence fs) else None)"

lemma run_sequence_sequence: "run_sequence fs r = Some r' \<Longrightarrow> sequence fs r r'"
  by (induction fs arbitrary: r)
    (auto intro: sequence.intros run_alone_completes split: if_splits bind_splits)

definition early_binding :: trigger where
  "early_binding =
     \<lparr>binding_id = ''x'', trigger_type = ''cron'', bound_function = ''f'', config = Null,
      owner_worker = None, binding_metadata = None, target_namespace = ''b'', trigger_namespace = None,
      home_namespace = ''b'', provider_namespace = default_namespace\<rparr>"

definition cron_provider :: "string \<Rightarrow> registrator \<Rightarrow> provider" where
  "cron_provider ns reg =
     \<lparr>type_id = ''cron'', type_namespace = ns, type_description = [], trigger_request_format = None,
      call_request_format = None, call_response_format = None, type_registrator = reg,
      provider_worker = None\<rparr>"

text \<open>The binding comes first and the provider at home last; the other way round.\<close>

definition binding_first :: registry where
  "binding_first = the (run_sequence [Register early_binding, RegisterType (cron_provider default_namespace 1),
     RegisterType (cron_provider ''b'' 2)] registry_new)"

definition providers_first :: registry where
  "providers_first = the (run_sequence [RegisterType (cron_provider ''b'' 2),
     RegisterType (cron_provider default_namespace 1), Register early_binding] registry_new)"

lemma demo_runs:
  "run_sequence [Register early_binding, RegisterType (cron_provider default_namespace 1),
     RegisterType (cron_provider ''b'' 2)] registry_new \<noteq> None"
  "run_sequence [RegisterType (cron_provider ''b'' 2),
     RegisterType (cron_provider default_namespace 1), Register early_binding] registry_new \<noteq> None"
  by code_simp+

lemma demo_sequences:
  "sequence [Register early_binding, RegisterType (cron_provider default_namespace 1),
     RegisterType (cron_provider ''b'' 2)] registry_new binding_first"
  "sequence [RegisterType (cron_provider ''b'' 2),
     RegisterType (cron_provider default_namespace 1), Register early_binding] registry_new providers_first"
  unfolding binding_first_def providers_first_def
  by (rule run_sequence_sequence, rule sym, rule option.collapse, rule demo_runs)+


section \<open>Placement\<close>

text \<open>C31: Every operation of the trigger registry that runs alone after others, with providers that
  accept what they are asked, comes to an end, and then every binding that resolves to a provider
  is bound to that provider, every other binding is parked and nothing is in flight.\<close>

theorem operations_end_settled:
  assumes "sequence fs registry_new r" and "operation f"
  shows "(\<exists>r'. completes [f] r r') \<and>
    (\<forall>r' k. completes [f] r r' \<longrightarrow> in_flight r' k = None \<and>
       map_option provider_key (bound_at r' k) = served_by r' k \<and>
       (parked r' k \<noteq> None \<longleftrightarrow> registered r' k \<noteq> None \<and> served_by r' k = None))"
proof -
  have "must settled [f] r"
    using sequence_settled [OF assms(1) settled_new] assms(2) by (rule operation_must)
  then have ends: "\<exists>r'. completes [f] r r'" and ok: "\<And>r'. completes [f] r r' \<Longrightarrow> settled r'"
    using must_completes by blast+
  show ?thesis
    by (intro conjI allI impI ends) (rule settledD(2) settled_served, erule ok)+
qed

theorem operations_end_settled_witness:
  "\<exists>r'. completes [RemoveType (''b'', ''cron'') 2] binding_first r'"
  using operations_end_settled [OF demo_sequences(1), of "RemoveType (''b'', ''cron'') 2"]
  by simp



end
