(* ===== verification/Access_Wildcard.thy ===== *)
theory Access_Wildcard
  imports Rust_Str
begin

text \<open>
  The wildcard patterns of access rules (\<open>engine/src/workers/worker/rbac_config.rs\<close>): \<open>wildcard_match\<close>
  splits a pattern at its stars and looks for the parts from left to right, each at its first
  occurrence.  It is compared with the meaning of patterns, in which a star stands for any text.
  Rust slices the value at byte positions; the positions here are ends of occurrences of parts,
  which are whole characters.
\<close>

section \<open>The search\<close>

text \<open>The loop over the parts: the position reached so far and the index of the part.\<close>

fun match_parts :: "string \<Rightarrow> nat \<Rightarrow> nat \<Rightarrow> string list \<Rightarrow> bool" where
  "match_parts val pos i [] = True"
| "match_parts val pos i (part # parts) =
     (if part = [] then match_parts val pos (Suc i) parts
      else case find_str part (drop pos val) of
             Some found \<Rightarrow>
               if i = 0 \<and> found \<noteq> 0 then False
               else match_parts val (pos + (found + length part)) (Suc i) parts
           | None \<Rightarrow> False)"

definition wildcard_match :: "string \<Rightarrow> string \<Rightarrow> bool" where
  "wildcard_match pattern val =
     (if pattern = ''*'' then True
      else let parts = split_str (CHR ''*'') pattern
           in if length parts = 1 then pattern = val
              else match_parts val 0 0 parts \<and> (last parts = [] \<or> suffix (last parts) val))"

section \<open>What patterns mean\<close>

fun glob :: "string \<Rightarrow> string \<Rightarrow> bool" where
  "glob [] val = (val = [])"
| "glob (c # pattern) [] = (c = CHR ''*'' \<and> glob pattern [])"
| "glob (c # pattern) (x # val) =
     (if c = CHR ''*'' then glob pattern (x # val) \<or> glob (c # pattern) val
      else c = x \<and> glob pattern val)"

text \<open>
  The same by the parts between the stars: \<open>laid_out parts val\<close> when \<open>val\<close> begins with the first part,
  ends with the last and has the others in between in this order, and \<open>floats parts val\<close> when a
  suffix of \<open>val\<close> is so.
\<close>

fun laid_out :: "string list \<Rightarrow> string \<Rightarrow> bool" where
  "laid_out [] val = False"
| "laid_out [part] val = (val = part)"
| "laid_out (part # parts) val =
     (prefix part val \<and> (\<exists>n \<le> length val. length part \<le> n \<and> laid_out parts (drop n val)))"

definition floats :: "string list \<Rightarrow> string \<Rightarrow> bool" where
  "floats parts val \<longleftrightarrow> (\<exists>n \<le> length val. laid_out parts (drop n val))"

lemma ex_le_Suc: "(\<exists>n \<le> Suc m. P n) \<longleftrightarrow> P 0 \<or> (\<exists>n \<le> m. P (Suc n))"
  by (metis Suc_le_mono not0_implies_Suc zero_le)

lemma glob_star: "glob (CHR ''*'' # pattern) val \<longleftrightarrow> (\<exists>n \<le> length val. glob pattern (drop n val))"
  by (induction val) (simp_all add: ex_le_Suc)

lemma laid_out_Cons:
  assumes "parts \<noteq> []"
  shows "laid_out (part # parts) val \<longleftrightarrow> prefix part val \<and> floats parts (drop (length part) val)"
proof -
  have "(\<exists>n \<le> length val. length part \<le> n \<and> laid_out parts (drop n val)) \<longleftrightarrow>
      (\<exists>n \<le> length val - length part. laid_out parts (drop (n + length part) val))"
    if "length part \<le> length val"
    by (metis (no_types) that le_add2 le_diff_conv2 le_add_diff_inverse2 add_leD2 Nat.le_diff_conv2)
  then show ?thesis
    using assms by (cases parts) (auto simp: floats_def dest: prefix_length_le)
qed

lemma laid_out_step: "laid_out ((c # part) # parts) (x # val) \<longleftrightarrow> c = x \<and> laid_out (part # parts) val"
  by (cases "parts = []") (auto simp: laid_out_Cons)

lemma laid_out_no_text: "\<not> laid_out ((c # part) # parts) []"
  by (cases "parts = []") (auto simp: laid_out_Cons)

lemma glob_laid_out: "glob pattern val \<longleftrightarrow> laid_out (split_str (CHR ''*'') pattern) val"
proof (induction pattern arbitrary: val)
  case (Cons c pattern)
  show ?case
  proof (cases "c = CHR ''*''")
    case True
    then show ?thesis by (simp add: glob_star Cons laid_out_Cons floats_def)
  next
    case False
    then show ?thesis
      by (cases val) (simp_all add: Cons laid_out_step laid_out_no_text)
  qed
qed simp

section \<open>The search is exact\<close>

lemma floats_drop:
  assumes "floats parts (drop m val)" and le: "n \<le> m"
  shows "floats parts (drop n val)"
proof -
  from assms obtain j where j: "j \<le> length (drop m val)" "laid_out parts (drop (j + m) val)"
    by (auto simp: floats_def)
  show ?thesis
  proof (cases "m \<le> length val")
    case True
    then show ?thesis
      using j le unfolding floats_def by (intro exI [of _ "j + (m - n)"]) simp
  next
    case False
    then show ?thesis
      using j unfolding floats_def by (intro exI [of _ "length (drop n val)"]) simp
  qed
qed

lemma floats_last: "floats [part] val \<longleftrightarrow> suffix part val"
proof
  assume "floats [part] val"
  then show "suffix part val" using suffix_drop by (auto simp: floats_def)
next
  assume "suffix part val"
  then obtain zs where "val = zs @ part" by (auto simp: suffix_def)
  then show "floats [part] val" by (auto simp: floats_def intro: exI [of _ "length zs"])
qed

text \<open>Taking the first occurrence leaves the most room for the parts that follow.\<close>

lemma floats_Cons:
  assumes "parts \<noteq> []"
  shows "floats (part # parts) val \<longleftrightarrow>
    (\<exists>n. find_str part val = Some n \<and> floats parts (drop (n + length part) val))"
proof
  assume "floats (part # parts) val"
  then obtain m where m: "m \<le> length val" "prefix part (drop m val)" "floats parts (drop (length part) (drop m val))"
    by (auto simp: floats_def laid_out_Cons [OF assms])
  then obtain n where "n \<le> m" "find_str part val = Some n" using find_str_first by blast
  then show "\<exists>n. find_str part val = Some n \<and> floats parts (drop (n + length part) val)"
    using m(3) floats_drop [of parts "m + length part" val "n + length part"] by (simp add: add.commute)
next
  assume "\<exists>n. find_str part val = Some n \<and> floats parts (drop (n + length part) val)"
  then obtain n where n: "find_str part val = Some n" "floats parts (drop (n + length part) val)" by blast
  then have "laid_out (part # parts) (drop n val)" "n \<le> length val"
    using find_str_SomeD [OF n(1)] by (auto simp: laid_out_Cons [OF assms] add.commute)
  then show "floats (part # parts) val" by (auto simp: floats_def)
qed

lemma suffix_of_drop: "suffix part val \<Longrightarrow> length part \<le> length (drop pos val) \<Longrightarrow> suffix part (drop pos val)"
  by (metis suffix_drop suffix_length_suffix)

lemma match_parts_floats:
  "parts \<noteq> [] \<Longrightarrow> i \<noteq> 0 \<Longrightarrow> pos \<le> length val \<Longrightarrow>
   match_parts val pos i parts \<and> (last parts = [] \<or> suffix (last parts) val) \<longleftrightarrow>
   floats parts (drop pos val)"
proof (induction val pos i parts rule: match_parts.induct)
  case (2 val pos i part parts)
  show ?case
  proof (cases "parts = []")
    case True
    have "suffix part val \<and> find_str part (drop pos val) \<noteq> None \<longleftrightarrow> suffix part (drop pos val)"
    proof
      assume "suffix part val \<and> find_str part (drop pos val) \<noteq> None"
      then show "suffix part (drop pos val)"
        using suffix_of_drop find_str_SomeD by (metis add_leD2 option.collapse)
    next
      assume s: "suffix part (drop pos val)"
      then obtain m where "m \<le> length (drop pos val)" "drop m (drop pos val) = part"
        using floats_last [of part "drop pos val"] by (auto simp: floats_def)
      then have "find_str part (drop pos val) \<noteq> None" using find_str_first [of part m "drop pos val"] by auto
      then show "suffix part val \<and> find_str part (drop pos val) \<noteq> None"
        using s suffix_drop suffix_order.trans by blast
    qed
    then show ?thesis
      using True 2 by (auto simp: floats_last split: option.splits)
  next
    case False
    show ?thesis
    proof (cases "part = []")
      case True
      then show ?thesis using 2 False by (cases "drop pos val") (auto simp: floats_Cons)
    next
      case nonempty: False
      show ?thesis
      proof (cases "find_str part (drop pos val)")
        case None
        then show ?thesis using nonempty False by (simp add: floats_Cons)
      next
        case (Some n)
        then have "pos + (n + length part) \<le> length val"
          using find_str_SomeD [OF Some, THEN conjunct1] 2(5) unfolding length_drop by linarith
        then show ?thesis
          using 2 Some nonempty False by (simp add: floats_Cons add.commute add.left_commute)
      qed
    qed
  qed
qed simp

lemma find_str_zero: "part \<noteq> [] \<Longrightarrow> find_str part val = Some 0 \<longleftrightarrow> prefix part val"
  by (cases val) auto

lemma wildcard_glob: "wildcard_match pattern val \<longleftrightarrow> glob pattern val"
proof (cases "CHR ''*'' \<in> set pattern")
  case False
  then show ?thesis
    by (auto simp: wildcard_match_def glob_laid_out split_str_plain)
next
  case True
  define parts where "parts = split_str (CHR ''*'') pattern"
  have "length parts \<noteq> 1" using True split_str_single unfolding parts_def by blast
  then obtain part rest where p: "parts = part # rest" "rest \<noteq> []"
    by (cases parts; cases "tl parts") (auto simp: parts_def)
  have "match_parts val 0 0 parts \<and> (last parts = [] \<or> suffix (last parts) val) \<longleftrightarrow> laid_out parts val"
  proof (cases "part = []")
    case True
    then show ?thesis using p match_parts_floats [OF p(2), of 1 0 val] by (simp add: laid_out_Cons)
  next
    case False
    show ?thesis
    proof (cases "prefix part val")
      case True
      then have "find_str part val = Some 0" using False by (simp add: find_str_zero)
      then show ?thesis
        using p False True match_parts_floats [OF p(2), of 1 "length part" val]
        by (simp add: laid_out_Cons prefix_length_le)
    next
      case no: False
      then have "find_str part val \<noteq> Some 0" using False by (simp add: find_str_zero)
      then show ?thesis using p False no by (auto simp: laid_out_Cons split: option.splits)
    qed
  qed
  then show ?thesis
    using \<open>length parts \<noteq> 1\<close> by (auto simp: wildcard_match_def Let_def parts_def glob_laid_out)
qed

text \<open>C32: A wildcard pattern matches a text exactly when the text can be had from the pattern by
  putting any text in place of every star; in particular the search that takes every part at its
  first occurrence, and tests the end of the text at last, misses nothing and accepts nothing else.\<close>

theorem wildcard_match_exact: "wildcard_match pattern val \<longleftrightarrow> glob pattern val"
  by (rule wildcard_glob)

end
