(* ===== verification/Function_Registry.thy ===== *)
theory Function_Registry
  imports Trigger_Store
begin

text \<open>
  The registry of functions (\<open>engine/src/function.rs\<close>) and how a call finds its function in it
  (\<open>engine/src/engine/mod.rs\<close>, \<open>legacy_worker_functions.rs\<close>): functions are kept by namespace and
  identifier, and a call is resolved in one namespace.  A handler is a number; a \<open>DashMap\<close> is a
  sorted association list.  What the two listeners are told is recorded in \<open>notified\<close>.
\<close>

section \<open>The registry\<close>

record function_entry =
  handler :: nat
  described_id :: string
  function_description :: "string option"
  request_format :: "json option"
  response_format :: "json option"
  function_metadata :: "json option"

datatype function_change = Registered | Unregistered

datatype function_listener = ObserverListener | ChangeListener

record functions_registry =
  function_table :: "((string \<times> string) \<times> function_entry) list"
  scope_function_ids :: "string list option"
  change_listener :: bool
  observer_listener :: bool
  notified :: "(function_listener \<times> function_change \<times> string \<times> string) list"

definition functions_new :: functions_registry where
  "functions_new =
     \<lparr>function_table = [], scope_function_ids = None, change_listener = False, observer_listener = False,
      notified = []\<rparr>"

definition set_change_listener :: "functions_registry \<Rightarrow> functions_registry" where
  "set_change_listener r = r\<lparr>change_listener := True\<rparr>"

definition set_observer_listener :: "functions_registry \<Rightarrow> functions_registry" where
  "set_observer_listener r = r\<lparr>observer_listener := True\<rparr>"

definition notify_change :: "function_change \<Rightarrow> string \<Rightarrow> string \<Rightarrow> functions_registry \<Rightarrow> functions_registry" where
  "notify_change change ns i r =
     (let told = (if observer_listener r then [(ObserverListener, change, ns, i)] else []) @
                 (if change_listener r then [(ChangeListener, change, ns, i)] else [])
      in r\<lparr>notified := notified r @ told\<rparr>)"

definition register_function_ns :: "string \<Rightarrow> string \<Rightarrow> function_entry \<Rightarrow> functions_registry \<Rightarrow> functions_registry" where
  "register_function_ns ns i f r =
     (let r = notify_change Registered ns i (r\<lparr>function_table := map_insert (ns, i) f (function_table r)\<rparr>)
      in r\<lparr>scope_function_ids := map_option (\<lambda>ids. ids @ [i]) (scope_function_ids r)\<rparr>)"

definition register_function :: "string \<Rightarrow> function_entry \<Rightarrow> functions_registry \<Rightarrow> functions_registry" where
  "register_function = register_function_ns default_namespace"

definition remove_function :: "string \<Rightarrow> string \<Rightarrow> functions_registry \<Rightarrow> functions_registry" where
  "remove_function ns i r =
     (let removed = map_of (function_table r) (ns, i) \<noteq> None;
          r = r\<lparr>function_table := map_remove (ns, i) (function_table r)\<rparr>;
          r = (if removed then notify_change Unregistered ns i r else r)
      in r\<lparr>scope_function_ids := map_option (filter (\<lambda>j. j \<noteq> i)) (scope_function_ids r)\<rparr>)"

definition with_function :: "string \<Rightarrow> string \<Rightarrow> (function_entry option \<Rightarrow> 'a) \<Rightarrow> functions_registry \<Rightarrow> 'a" where
  "with_function ns i read r = read (map_of (function_table r) (ns, i))"

definition get_function :: "string \<Rightarrow> string \<Rightarrow> functions_registry \<Rightarrow> function_entry option" where
  "get_function ns i r = with_function ns i (\<lambda>f. f) r"

definition get_handler :: "string \<Rightarrow> string \<Rightarrow> functions_registry \<Rightarrow> nat option" where
  "get_handler ns i r = with_function ns i (map_option handler) r"

definition namespaces_for :: "string \<Rightarrow> functions_registry \<Rightarrow> string list" where
  "namespaces_for i r = sort (map (\<lambda>e. fst (fst e)) (filter (\<lambda>e. snd (fst e) = i) (function_table r)))"

section \<open>Functions that are gone\<close>

definition WORKERS_TO_COMPOSE_GUIDE :: string where
  "WORKERS_TO_COMPOSE_GUIDE = ''https://iii.dev/docs/upgrading/workers-to-compose''"

definition STREAM_MIGRATION_GUIDE :: string where
  "STREAM_MIGRATION_GUIDE = ''https://iii.dev/docs/upgrading/migrate-from-streams''"

definition STREAM_FUNCTIONS :: "string list" where
  "STREAM_FUNCTIONS =
     [''stream::set'', ''stream::get'', ''stream::delete'', ''stream::list'', ''stream::list_groups'',
      ''stream::list_all'', ''stream::send'', ''stream::update'']"

definition stream_unavailable_message :: "string \<Rightarrow> string option" where
  "stream_unavailable_message i =
     (if i \<notin> set STREAM_FUNCTIONS then None
      else Some (''Function '' @ i @
        '' is not available: the iii-stream worker is not running. To keep '' @
        ''using it, enable iii-stream in the engine config.yaml (`workers:` entry `- name: '' @
        ''iii-stream`) or under `engine.workers.iii-stream` in worker-compose.yaml. '' @
        i @ '' is deprecated (iii-stream) and will be removed in an upcoming release. '' @
        ''Behavior is unchanged for now. Migration guide: '' @ STREAM_MIGRATION_GUIDE))"

definition removed_worker_functions :: "(string \<times> string option) list" where
  "removed_worker_functions =
     [(''worker::add'', Some ''compose::add''), (''worker::remove'', Some ''compose::remove''),
      (''worker::update'', Some ''compose::update''), (''worker::start'', Some ''compose::up''),
      (''worker::stop'', Some ''compose::down''), (''worker::list'', Some ''compose::status''),
      (''worker::schema'', Some ''compose::schema''), (''worker::status'', Some ''compose::status''),
      (''worker::validate'', Some ''compose::validate''), (''worker::clear'', None),
      (''worker::logs'', None)]"

definition migration_message :: "string \<Rightarrow> string option" where
  "migration_message i =
     (case stream_unavailable_message i of
        Some message \<Rightarrow> Some message
      | None \<Rightarrow>
          (case map_of removed_worker_functions i of
             None \<Rightarrow> None
           | Some replacement \<Rightarrow>
               Some (''Function '' @ i @ '' was removed in iii 0.23.'' @
                 (case replacement of
                    Some r \<Rightarrow> '' Use '' @ r @ '' instead.''
                  | None \<Rightarrow> '' There is no direct compose::* replacement.'') @
                 '' Migration guide: '' @ WORKERS_TO_COMPOSE_GUIDE)))"

section \<open>Finding a function\<close>

record error_body =
  error_code :: string
  error_message :: string
  error_stacktrace :: "string option"

definition error_body_new :: "string \<Rightarrow> string \<Rightarrow> error_body" where
  "error_body_new code message = \<lparr>error_code = code, error_message = message, error_stacktrace = None\<rparr>"

definition CONTENT_FUNCTION_ID :: string where
  "CONTENT_FUNCTION_ID = ''iii-observability::ui-content''"

fun join :: "string \<Rightarrow> string list \<Rightarrow> string" where
  "join sep [] = []"
| "join sep [s] = s"
| "join sep (s # ss) = s @ sep @ join sep ss"

definition requested_namespace :: "string option \<Rightarrow> string" where
  "requested_namespace requested_ns = (case requested_ns of Some ns \<Rightarrow> ns | None \<Rightarrow> default_namespace)"

definition not_found_message :: "string \<Rightarrow> string \<Rightarrow> functions_registry \<Rightarrow> string" where
  "not_found_message ns i r =
     (let known = namespaces_for i r
      in if known = []
         then (case migration_message i of
                 Some message \<Rightarrow> message
               | None \<Rightarrow> ''Function '' @ i @ '' not found in namespace '' @ ns @ ''.'')
         else ''Function '' @ i @ '' not found in namespace '' @ ns @
              ''. It is registered in namespace(s): '' @ join '', '' known @ ''.'')"

definition resolve_function_with ::
  "string option \<Rightarrow> string \<Rightarrow> (functions_registry \<Rightarrow> string \<Rightarrow> string \<Rightarrow> 'a option) \<Rightarrow> functions_registry \<Rightarrow>
     (error_body, 'a) result"
where
  "resolve_function_with requested_ns i lookup r =
     (let ns = requested_namespace requested_ns
      in case lookup r ns i of
           Some f \<Rightarrow> Ok f
         | None \<Rightarrow>
             (case (if ns \<noteq> default_namespace \<and> i = CONTENT_FUNCTION_ID
                    then lookup r default_namespace i else None) of
                Some f \<Rightarrow> Ok f
              | None \<Rightarrow>
                  Err (error_body_new ''function_not_found'' (not_found_message ns i r))))"

definition resolve_function_handler ::
  "string option \<Rightarrow> string \<Rightarrow> functions_registry \<Rightarrow> (error_body, string \<times> nat) result"
where
  "resolve_function_handler requested_ns i r =
     (let ns = requested_namespace requested_ns
      in case get_handler ns i r of
           Some h \<Rightarrow> Ok (ns, h)
         | None \<Rightarrow>
             map_sum id (Pair default_namespace)
               (resolve_function_with requested_ns i (\<lambda>r ns i. get_handler ns i r) r))"

section \<open>What the registry holds\<close>

definition registry_sorted :: "functions_registry \<Rightarrow> bool" where
  "registry_sorted r \<longleftrightarrow> map_sorted (function_table r)"

lemma functions_notify [simp]: "function_table (notify_change change ns i r) = function_table r"
  by (simp add: notify_change_def Let_def)

lemma table_register [simp]:
  "function_table (register_function_ns ns i f r) = map_insert (ns, i) f (function_table r)"
  by (simp add: register_function_ns_def Let_def)

lemma table_remove [simp]: "function_table (remove_function ns i r) = map_remove (ns, i) (function_table r)"
  by (simp add: remove_function_def Let_def)

interpretation fns: key_map
  "\<lambda>r (ns, i). get_function ns i r"
  "\<lambda>(ns, i) f. register_function_ns ns i f"
  "\<lambda>(ns, i). remove_function ns i"
  registry_sorted
  by unfold_locales
    (auto simp: registry_sorted_def get_function_def with_function_def map_laws split: if_splits)

lemma get_handler_get: "get_handler ns i r = map_option handler (get_function ns i r)"
  by (simp add: get_handler_def get_function_def with_function_def)

lemma with_function_get: "with_function ns i read r = read (get_function ns i r)"
  by (simp add: get_function_def with_function_def)

text \<open>The namespaces listed for an identifier are those in which it is registered, each once and in order.\<close>

lemma namespaces_for_exact:
  assumes "registry_sorted r"
  shows "set (namespaces_for i r) = {ns. get_function ns i r \<noteq> None}" "sorted (namespaces_for i r)"
    "distinct (namespaces_for i r)"
proof -
  have d: "distinct (map fst (function_table r))"
    using assms by (simp add: registry_sorted_def map_sorted_distinct)
  show "set (namespaces_for i r) = {ns. get_function ns i r \<noteq> None}"
    by (force simp: namespaces_for_def get_function_def with_function_def map_of_eq_None_iff)
  show "sorted (namespaces_for i r)" by (simp add: namespaces_for_def)
  have "inj_on (\<lambda>e. fst (fst e)) (set (filter (\<lambda>e. snd (fst e) = i) (function_table r)))"
    using d by (auto simp: inj_on_def distinct_map) (metis eq_key_imp_eq_value d)
  then show "distinct (namespaces_for i r)"
    using d by (simp add: namespaces_for_def distinct_map)
qed

end
