(* ===== verification/Access_Rules.thy ===== *)
theory Access_Rules
  imports Access_Wildcard Function_Registry
begin

text \<open>
  Who may call which function (\<open>engine/src/workers/worker/rbac_config.rs\<close>, \<open>rbac_session.rs\<close>, and the
  checks of \<open>engine/src/engine/mod.rs\<close>): the rules of the configuration with their written form, the
  session that an auth function grants, and the decision for one function in one namespace.
  A slice whose start lies behind its end panics; the panic is an error value here.
\<close>

section \<open>Equality of JSON values\<close>

text \<open>\<open>PartialEq\<close> of \<open>serde_json::Value\<close>: numbers of different representation differ, floats compare as numbers.\<close>

fun number_eq :: "number \<Rightarrow> number \<Rightarrow> bool" where
  "number_eq (PosInt a) (PosInt b) = (a = b)"
| "number_eq (NegInt a) (NegInt b) = (a = b)"
| "number_eq (Float a) (Float b) = f64_eq a b"
| "number_eq _ _ = False"

fun value_eq :: "json \<Rightarrow> json \<Rightarrow> bool"
  and values_eq :: "json list \<Rightarrow> json list \<Rightarrow> bool"
  and entries_eq :: "object \<Rightarrow> object \<Rightarrow> bool"
where
  "value_eq Null b = (b = Null)"
| "value_eq (Bool x) b = (b = Bool x)"
| "value_eq (Number n) b = (case b of Number n' \<Rightarrow> number_eq n n' | _ \<Rightarrow> False)"
| "value_eq (String s) b = (b = String s)"
| "value_eq (Array vs) b = (case b of Array ws \<Rightarrow> values_eq vs ws | _ \<Rightarrow> False)"
| "value_eq (Object m) b = (case b of Object m' \<Rightarrow> entries_eq m m' | _ \<Rightarrow> False)"
| "values_eq [] ws = (ws = [])"
| "values_eq (v # vs) ws = (case ws of w # ws' \<Rightarrow> value_eq v w \<and> values_eq vs ws' | [] \<Rightarrow> False)"
| "entries_eq [] m' = (m' = [])"
| "entries_eq ((k, v) # m) m' =
     (case m' of (k', w) # m'' \<Rightarrow> k = k' \<and> value_eq v w \<and> entries_eq m m'' | [] \<Rightarrow> False)"

section \<open>Rules\<close>

datatype metadata_value = Exact json | Wildcard string

datatype filter_matcher = Match string | MetadataMatch "(string \<times> metadata_value) list"

record function_filter =
  rule_matcher :: filter_matcher
  rule_namespace :: "string option"

record rbac_config =
  auth_function_id :: "string option"
  expose_functions :: "function_filter list"
  on_trigger_registration_function_id :: "string option"
  on_trigger_type_registration_function_id :: "string option"
  on_function_registration_function_id :: "string option"
  on_observer_registration_function_id :: "string option"

definition match_pattern :: "string \<Rightarrow> function_filter" where
  "match_pattern pattern = \<lparr>rule_matcher = Match pattern, rule_namespace = None\<rparr>"

definition metadata_filter :: "(string \<times> metadata_value) list \<Rightarrow> function_filter" where
  "metadata_filter m = \<lparr>rule_matcher = MetadataMatch m, rule_namespace = None\<rparr>"

definition in_namespace :: "string \<Rightarrow> function_filter \<Rightarrow> function_filter" where
  "in_namespace ns rule = rule\<lparr>rule_namespace := Some ns\<rparr>"

fun metadata_value_matches :: "metadata_value \<Rightarrow> json \<Rightarrow> bool" where
  "metadata_value_matches (Exact expected) v = value_eq v expected"
| "metadata_value_matches (Wildcard pattern) v =
     (case as_str v of Some s \<Rightarrow> wildcard_match pattern s | None \<Rightarrow> False)"

definition filter_matches :: "function_filter \<Rightarrow> string \<Rightarrow> string \<Rightarrow> json option \<Rightarrow> bool" where
  "filter_matches rule i ns metadata =
     (let rule_ns = (case rule_namespace rule of Some n \<Rightarrow> n | None \<Rightarrow> default_namespace)
      in if rule_ns \<noteq> ns then False
         else case rule_matcher rule of
                Match pattern \<Rightarrow> wildcard_match pattern i
              | MetadataMatch expected \<Rightarrow>
                  (case metadata of
                     Some (Object obj) \<Rightarrow>
                       list_all (\<lambda>(key, m).
                         case map_of obj key of Some v \<Rightarrow> metadata_value_matches m v | None \<Rightarrow> False) expected
                   | _ \<Rightarrow> False))"

section \<open>The written form of rules\<close>

datatype rule_error =
    SlicePanic
  | NotAPattern string
  | UnknownKey string
  | InvalidType
  | MatchAndMetadata
  | NoCondition

definition match_open :: "char \<Rightarrow> string" where
  "match_open q = ''match('' @ [q]"

definition match_close :: "char \<Rightarrow> string" where
  "match_close q = [q, CHR '')'']"

abbreviation double_quote :: char where "double_quote \<equiv> CHR 0x22"
abbreviation single_quote :: char where "single_quote \<equiv> CHR 0x27"

definition wrapped_in :: "char \<Rightarrow> string \<Rightarrow> bool" where
  "wrapped_in q s \<longleftrightarrow> prefix (match_open q) s \<and> suffix (match_close q) s"

definition parse_match_pattern :: "string \<Rightarrow> (rule_error, string option) result" where
  "parse_match_pattern s =
     (let trimmed = trim s
      in if wrapped_in double_quote trimmed \<or> wrapped_in single_quote trimmed
         then if 7 \<le> length trimmed - 2 then Ok (Some (take (length trimmed - 2 - 7) (drop 7 trimmed)))
              else Err SlicePanic
         else Ok None)"

definition write_pattern :: "string \<Rightarrow> string" where
  "write_pattern pattern = match_open double_quote @ pattern @ match_close double_quote"

definition parse_metadata_value :: "json \<Rightarrow> (rule_error, metadata_value) result" where
  "parse_metadata_value v =
     (case as_str v of
        None \<Rightarrow> Ok (Exact v)
      | Some s \<Rightarrow>
          (case parse_match_pattern s of
             Err e \<Rightarrow> Err e
           | Ok (Some pattern) \<Rightarrow> Ok (Wildcard pattern)
           | Ok None \<Rightarrow> Ok (Exact v)))"

fun serialize_metadata_value :: "metadata_value \<Rightarrow> json" where
  "serialize_metadata_value (Exact v) = v"
| "serialize_metadata_value (Wildcard pattern) = String (write_pattern pattern)"

definition serialize_filter :: "function_filter \<Rightarrow> json" where
  "serialize_filter rule =
     (case (rule_matcher rule, rule_namespace rule) of
        (Match pattern, None) \<Rightarrow> String (write_pattern pattern)
      | _ \<Rightarrow>
          Object
            ((case rule_matcher rule of
                Match pattern \<Rightarrow> [(''match'', String pattern)]
              | MetadataMatch expected \<Rightarrow>
                  [(''metadata'', Object (map (\<lambda>(k, m). (k, serialize_metadata_value m)) expected))]) @
             (case rule_namespace rule of Some ns \<Rightarrow> [(''namespace'', String ns)] | None \<Rightarrow> [])))"

fun insert_metadata ::
  "object \<Rightarrow> (string \<times> metadata_value) list \<Rightarrow> (rule_error, (string \<times> metadata_value) list) result"
where
  "insert_metadata [] m = Ok m"
| "insert_metadata ((k, v) # inner) m =
     (case parse_metadata_value v of
        Err e \<Rightarrow> Err e
      | Ok x \<Rightarrow> insert_metadata inner (map_insert k x m))"

definition hash_map_of :: "object \<Rightarrow> object" where
  "hash_map_of es = fold (\<lambda>(k, v). map_insert k v) es []"

text \<open>The loop of \<open>visit_map\<close> over the keys in the order of the input.\<close>

fun visit_keys ::
  "object \<Rightarrow> (string \<times> metadata_value) list \<Rightarrow> string option \<Rightarrow> string option \<Rightarrow>
     (rule_error, (string \<times> metadata_value) list \<times> string option \<times> string option) result"
where
  "visit_keys [] m pattern ns = Ok (m, pattern, ns)"
| "visit_keys ((key, v) # rest) m pattern ns =
     (if key = ''metadata'' then
        (case v of
           Object inner \<Rightarrow>
             (case insert_metadata (hash_map_of inner) m of
                Err e \<Rightarrow> Err e
              | Ok m' \<Rightarrow> visit_keys rest m' pattern ns)
         | _ \<Rightarrow> Err InvalidType)
      else if key = ''match'' then
        (case v of String raw \<Rightarrow> visit_keys rest m (Some raw) ns | _ \<Rightarrow> Err InvalidType)
      else if key = ''namespace'' then
        (case v of String s \<Rightarrow> visit_keys rest m pattern (Some s) | _ \<Rightarrow> Err InvalidType)
      else Err (UnknownKey key))"

definition visit_map :: "object \<Rightarrow> (rule_error, function_filter) result" where
  "visit_map es =
     (case visit_keys es [] None None of
        Err e \<Rightarrow> Err e
      | Ok (m, pattern, ns) \<Rightarrow>
          (case (pattern, m = []) of
             (Some p, True) \<Rightarrow> Ok \<lparr>rule_matcher = Match p, rule_namespace = ns\<rparr>
           | (None, False) \<Rightarrow> Ok \<lparr>rule_matcher = MetadataMatch m, rule_namespace = ns\<rparr>
           | (Some _, False) \<Rightarrow> Err MatchAndMetadata
           | (None, True) \<Rightarrow> Err NoCondition))"

definition visit_str :: "string \<Rightarrow> (rule_error, function_filter) result" where
  "visit_str s =
     (case parse_match_pattern s of
        Err e \<Rightarrow> Err e
      | Ok (Some pattern) \<Rightarrow> Ok \<lparr>rule_matcher = Match pattern, rule_namespace = None\<rparr>
      | Ok None \<Rightarrow> Err (NotAPattern s))"

fun deserialize_filter :: "json \<Rightarrow> (rule_error, function_filter) result" where
  "deserialize_filter (String s) = visit_str s"
| "deserialize_filter (Object es) = visit_map es"
| "deserialize_filter _ = Err InvalidType"

section \<open>The decision\<close>

definition INFRASTRUCTURE_FUNCTIONS :: "string list" where
  "INFRASTRUCTURE_FUNCTIONS =
     [''engine::channels::create'', ''engine::workers::register'', ''engine::log::info'',
      ''engine::log::warn'', ''engine::log::error'', ''engine::log::debug'', ''engine::log::trace'',
      ''engine::baggage::get'', ''engine::baggage::set'', ''engine::baggage::get_all'']"

definition grant_matches :: "string \<Rightarrow> string \<Rightarrow> (rule_error, bool) result" where
  "grant_matches grant i =
     (case parse_match_pattern grant of
        Err e \<Rightarrow> Err e
      | Ok parsed \<Rightarrow>
          (let raw = (case parsed of Some p \<Rightarrow> p | None \<Rightarrow> grant)
           in Ok (raw = i \<or> CHR ''*'' \<in> set raw \<and> wildcard_match raw i)))"

fun any_grant :: "string list \<Rightarrow> string \<Rightarrow> (rule_error, bool) result" where
  "any_grant [] i = Ok False"
| "any_grant (g # gs) i =
     (case grant_matches g i of
        Err e \<Rightarrow> Err e
      | Ok True \<Rightarrow> Ok True
      | Ok False \<Rightarrow> any_grant gs i)"

definition is_function_allowed_ref ::
  "string \<Rightarrow> string \<Rightarrow> rbac_config option \<Rightarrow> (string \<times> string list) list \<Rightarrow> string list \<Rightarrow> string list \<Rightarrow>
     function_entry option \<Rightarrow> (rule_error, bool) result"
where
  "is_function_allowed_ref i ns rbac session_namespaces allowed_functions forbidden_functions function =
     (if i \<in> set forbidden_functions then Ok False
      else case (case map_of session_namespaces ns of Some granted \<Rightarrow> any_grant granted i | None \<Rightarrow> Ok False) of
             Err e \<Rightarrow> Err e
           | Ok True \<Rightarrow> Ok True
           | Ok False \<Rightarrow>
               if ns = default_namespace \<and> i \<in> set allowed_functions then Ok True
               else if i \<in> set INFRASTRUCTURE_FUNCTIONS then Ok True
               else case rbac of
                      Some rules \<Rightarrow>
                        Ok (list_ex (\<lambda>rule. filter_matches rule i ns (Option.bind function function_metadata))
                              (expose_functions rules))
                    | None \<Rightarrow> Ok True)"

section \<open>Sessions\<close>

record auth_result =
  ar_namespaces :: "(string \<times> string list) list"
  ar_allowed_functions :: "string list"
  ar_forbidden_functions :: "string list"
  ar_allowed_trigger_types :: "string list option"
  ar_allow_trigger_type_registration :: bool
  ar_allow_function_registration :: bool
  ar_context :: json
  ar_function_registration_prefix :: "string option"

record session =
  session_rbac :: "rbac_config option"
  ip_address :: string
  session_id :: "128 word"
  namespaces :: "(string \<times> string list) list"
  allowed_functions :: "string list"
  forbidden_functions :: "string list"
  allowed_trigger_types :: "string list option"
  allow_trigger_type_registration :: bool
  allow_function_registration :: bool
  session_context :: json
  function_registration_prefix :: "string option"

text \<open>What \<open>serde\<close> derives for \<open>AuthResult\<close>: fields that are absent take their defaults.\<close>

fun strings_of :: "json list \<Rightarrow> string list option" where
  "strings_of [] = Some []"
| "strings_of (String s # vs) = map_option (Cons s) (strings_of vs)"
| "strings_of _ = None"

fun string_list :: "json \<Rightarrow> string list option" where
  "string_list (Array vs) = strings_of vs"
| "string_list _ = None"

fun string_lists_of :: "object \<Rightarrow> (string \<times> string list) list option" where
  "string_lists_of [] = Some []"
| "string_lists_of ((k, v) # m) =
     (case string_list v of
        None \<Rightarrow> None
      | Some l \<Rightarrow> map_option (map_insert k l) (string_lists_of m))"

fun string_lists :: "json \<Rightarrow> (string \<times> string list) list option" where
  "string_lists (Object m) = string_lists_of m"
| "string_lists _ = None"

fun as_bool :: "json \<Rightarrow> bool option" where
  "as_bool (Bool b) = Some b"
| "as_bool _ = None"

fun optional :: "(json \<Rightarrow> 'a option) \<Rightarrow> json \<Rightarrow> 'a option option" where
  "optional read Null = Some None"
| "optional read v = map_option Some (read v)"

definition field :: "json option \<Rightarrow> 'a \<Rightarrow> (json \<Rightarrow> 'a option) \<Rightarrow> 'a option" where
  "field v absent read = (case v of None \<Rightarrow> Some absent | Some v \<Rightarrow> read v)"

definition auth_fields :: "string list" where
  "auth_fields =
     [''namespaces'', ''allowed_functions'', ''forbidden_functions'', ''allowed_trigger_types'',
      ''allow_trigger_type_registration'', ''allow_function_registration'', ''context'',
      ''function_registration_prefix'']"

definition auth_result_of :: "(string \<Rightarrow> json option) \<Rightarrow> auth_result option" where
  "auth_result_of get =
     Option.bind (field (get ''namespaces'') [] string_lists) (\<lambda>ns.
     Option.bind (field (get ''allowed_functions'') [] string_list) (\<lambda>allowed.
     Option.bind (field (get ''forbidden_functions'') [] string_list) (\<lambda>forbidden.
     Option.bind (field (get ''allowed_trigger_types'') None (optional string_list)) (\<lambda>types.
     Option.bind (field (get ''allow_trigger_type_registration'') False as_bool) (\<lambda>allow_type.
     Option.bind (field (get ''allow_function_registration'') True as_bool) (\<lambda>allow_function.
     Option.bind (field (get ''context'') (Object []) Some) (\<lambda>context.
     Option.bind (field (get ''function_registration_prefix'') None (optional as_str)) (\<lambda>pre.
       Some \<lparr>ar_namespaces = ns, ar_allowed_functions = allowed, ar_forbidden_functions = forbidden,
             ar_allowed_trigger_types = types, ar_allow_trigger_type_registration = allow_type,
             ar_allow_function_registration = allow_function, ar_context = context,
             ar_function_registration_prefix = pre\<rparr>))))))))"

fun auth_result_from_value :: "json \<Rightarrow> auth_result option" where
  "auth_result_from_value (Object m) = auth_result_of (map_of m)"
| "auth_result_from_value (Array vs) =
     (if length vs \<le> length auth_fields then auth_result_of (map_of (zip auth_fields vs)) else None)"
| "auth_result_from_value _ = None"

definition open_auth_result :: auth_result where
  "open_auth_result =
     \<lparr>ar_namespaces = [], ar_allowed_functions = [], ar_forbidden_functions = [],
      ar_allowed_trigger_types = None, ar_allow_trigger_type_registration = True,
      ar_allow_function_registration = True, ar_context = Object [],
      ar_function_registration_prefix = None\<rparr>"

text \<open>
  \<open>answer\<close> is what the auth function answers when it is called, \<open>complaint\<close> the text in which
  \<open>serde_json\<close> reports a value of the wrong form.
\<close>

definition authenticate ::
  "rbac_config option \<Rightarrow> (string \<Rightarrow> (error_body, json option) result) \<Rightarrow> (json \<Rightarrow> string) \<Rightarrow>
     (error_body, auth_result) result"
where
  "authenticate rbac answer complaint =
     (case Option.bind rbac auth_function_id of
        None \<Rightarrow> Ok open_auth_result
      | Some auth_fn_id \<Rightarrow>
          (case answer auth_fn_id of
             Err e \<Rightarrow> Err (error_body_new ''AUTH_ERROR'' (error_message e))
           | Ok None \<Rightarrow> Err (error_body_new ''AUTH_ERROR'' ''auth function returned no result'')
           | Ok (Some v) \<Rightarrow>
               (case auth_result_from_value v of
                  Some auth \<Rightarrow> Ok auth
                | None \<Rightarrow> Err (error_body_new ''AUTH_ERROR'' (complaint v)))))"

definition handle_session ::
  "rbac_config option \<Rightarrow> string \<Rightarrow> 128 word \<Rightarrow> (string \<Rightarrow> (error_body, json option) result) \<Rightarrow>
     (json \<Rightarrow> string) \<Rightarrow> (error_body, session) result"
where
  "handle_session rbac ip uuid answer complaint =
     map_sum id (\<lambda>auth.
       \<lparr>session_rbac = rbac, ip_address = ip, session_id = uuid, namespaces = ar_namespaces auth,
        allowed_functions = ar_allowed_functions auth, forbidden_functions = ar_forbidden_functions auth,
        allowed_trigger_types = ar_allowed_trigger_types auth,
        allow_trigger_type_registration = ar_allow_trigger_type_registration auth,
        allow_function_registration = ar_allow_function_registration auth,
        session_context = ar_context auth,
        function_registration_prefix = ar_function_registration_prefix auth\<rparr>)
       (authenticate rbac answer complaint)"

section \<open>Checks of the engine\<close>

definition session_check :: "session \<Rightarrow> string \<Rightarrow> string \<Rightarrow> function_entry option \<Rightarrow> (rule_error, bool) result" where
  "session_check s ns i function =
     is_function_allowed_ref i ns (session_rbac s) (namespaces s) (allowed_functions s)
       (forbidden_functions s) function"

definition is_function_allowed :: "session \<Rightarrow> string option \<Rightarrow> string \<Rightarrow> functions_registry \<Rightarrow> (rule_error, bool) result" where
  "is_function_allowed s requested_ns i r =
     (let ns = requested_namespace requested_ns
      in case resolve_function_with requested_ns i
                (\<lambda>r n j. with_function n j (map_option (\<lambda>f. session_check s ns i (Some f))) r) r of
           Ok decision \<Rightarrow> decision
         | Err _ \<Rightarrow> session_check s ns i None)"

definition is_blank_namespace :: "string option \<Rightarrow> bool" where
  "is_blank_namespace ns \<longleftrightarrow> (case ns of Some n \<Rightarrow> trim n = [] | None \<Rightarrow> False)"

datatype gate =
    Proceed
  | BlankNamespace
  | Forbidden string
  | NamespaceForbidden string "string list"

definition declared_namespace :: "json \<Rightarrow> string" where
  "declared_namespace data =
     (case Option.bind (json_get data ''namespace'') as_str of Some n \<Rightarrow> n | None \<Rightarrow> default_namespace)"

text \<open>The tests that an invocation passes before it is run.\<close>

definition invocation_gate ::
  "session option \<Rightarrow> string option \<Rightarrow> string \<Rightarrow> json \<Rightarrow> functions_registry \<Rightarrow> (rule_error, gate) result"
where
  "invocation_gate session_opt ns i data r =
     (if is_blank_namespace ns then Ok BlankNamespace
      else case session_opt of
             None \<Rightarrow> Ok Proceed
           | Some s \<Rightarrow>
               (case is_function_allowed s ns i r of
                  Err e \<Rightarrow> Err e
                | Ok False \<Rightarrow>
                    Ok (Forbidden (if i \<in> set (forbidden_functions s)
                                   then ''remove from rbac.forbidden_functions''
                                   else ''add to rbac.expose_functions''))
                | Ok True \<Rightarrow>
                    if i = ''engine::workers::register'' \<and> namespaces s \<noteq> [] \<and>
                       map_of (namespaces s) (declared_namespace data) = None
                    then Ok (NamespaceForbidden (declared_namespace data) (sort (map fst (namespaces s))))
                    else Ok Proceed))"

end
