(* ===== verification/Access_Safety.thy ===== *)
theory Access_Safety
  imports Access_Rules
begin

text \<open>
  What the access rules guarantee: the decision in a namespace rests on what names this namespace
  and on nothing else, a denial always wins, grants and rules mean what their patterns mean, and
  rules are read back as they were written.  One malformed pattern makes the engine panic.
\<close>

section \<open>Patterns in quotes\<close>

lemma match_open_length [simp]: "length (match_open q) = 7"
  by (simp add: match_open_def)

lemma match_close_length [simp]: "length (match_close q) = 2"
  by (simp add: match_close_def)

lemma trim_wrapped: "trim (match_open q @ s @ match_close q) = match_open q @ s @ match_close q"
  by (rule trim_visible) (simp add: match_open_def match_close_def visible_def)

lemma parse_write_pattern [simp]: "parse_match_pattern (write_pattern p) = Ok (Some p)"
  by (simp add: parse_match_pattern_def write_pattern_def trim_wrapped wrapped_in_def suffixI
      suffix_def)

lemma wrapped_short:
  assumes "wrapped_in q s" and "length s \<le> 8"
  shows "s = match_open q @ '')''"
proof -
  obtain r where s: "s = match_open q @ r" using assms(1) by (auto simp: wrapped_in_def prefix_def)
  then have "r = [] \<or> (\<exists>c. r = [c])" using assms(2) by (cases r; cases "tl r") auto
  then show ?thesis
    using assms(1) unfolding wrapped_in_def s
    by (auto simp: match_open_def match_close_def suffix_def Cons_eq_append_conv)
qed

lemma wrapped_open: "wrapped_in q (match_open q @ '')'')"
  by (auto simp: wrapped_in_def match_open_def match_close_def suffix_def)

definition broken :: "string \<Rightarrow> bool" where
  "broken s \<longleftrightarrow> trim s = match_open double_quote @ '')'' \<or> trim s = match_open single_quote @ '')''"

lemma parse_broken: "parse_match_pattern s = Err SlicePanic \<longleftrightarrow> broken s"
proof -
  have "wrapped_in q t \<and> \<not> 7 \<le> length t - 2 \<longleftrightarrow> t = match_open q @ '')''" for q t
    using wrapped_short [of q t] wrapped_open [of q] by auto
  then show ?thesis unfolding parse_match_pattern_def broken_def by (auto simp: Let_def)
qed

lemma parse_no_other_error: "parse_match_pattern s = Err e \<Longrightarrow> e = SlicePanic"
  by (auto simp: parse_match_pattern_def Let_def split: if_splits)

section \<open>Rules are read back as written\<close>

lemma parse_metadata_value_stable:
  "parse_metadata_value v = Ok m \<Longrightarrow> parse_metadata_value (serialize_metadata_value m) = Ok m"
  by (cases v) (auto simp: parse_metadata_value_def split: option.splits sum.splits)

text \<open>What reading establishes of the metadata of a rule.\<close>

definition metadata_ok :: "(string \<times> metadata_value) list \<Rightarrow> bool" where
  "metadata_ok m \<longleftrightarrow> map_sorted m \<and>
     (\<forall>x \<in> set m. parse_metadata_value (serialize_metadata_value (snd x)) = Ok (snd x))"

lemma set_map_insert: "set (map_insert k x m) \<subseteq> Set.insert (k, x) (set m)"
  by (induction k x m rule: map_insert.induct) auto

lemma insert_metadata_ok: "insert_metadata es m = Ok m' \<Longrightarrow> metadata_ok m \<Longrightarrow> metadata_ok m'"
proof (induction es m rule: insert_metadata.induct)
  case (2 k v inner m)
  then obtain x where x: "parse_metadata_value v = Ok x" "insert_metadata inner (map_insert k x m) = Ok m'"
    by (auto split: sum.splits)
  have "metadata_ok (map_insert k x m)"
    using 2(3) parse_metadata_value_stable [OF x(1)] set_map_insert [of k x m]
    by (fastforce simp: metadata_ok_def map_sorted_insert)
  then show ?case using 2(1) x by blast
qed simp

lemma visit_keys_ok: "visit_keys es m p ns = Ok (m', p', ns') \<Longrightarrow> metadata_ok m \<Longrightarrow> metadata_ok m'"
  by (induction es m p ns rule: visit_keys.induct)
    (auto split: if_splits json.splits sum.splits dest: insert_metadata_ok)

text \<open>Writing metadata that is in order and reading it gives it back.\<close>

lemma hash_map_of_sorted: "map_sorted es \<Longrightarrow> hash_map_of es = es"
  unfolding hash_map_of_def
  by (rule map_of_sorted_eq)
    (simp_all add: jmap.wf_insert_all jmap.get_insert_all map_of_rev_sorted)

lemma map_insert_last: "(\<And>e. e \<in> set m \<Longrightarrow> fst e < k) \<Longrightarrow> map_insert k x m = m @ [(k, x)]"
  by (induction k x m rule: map_insert.induct) auto

lemma insert_metadata_written:
  "metadata_ok (m @ xs) \<Longrightarrow> insert_metadata (map (\<lambda>(k, x). (k, serialize_metadata_value x)) xs) m = Ok (m @ xs)"
proof (induction xs arbitrary: m)
  case (Cons kx xs)
  obtain k x where kx: "kx = (k, x)" by force
  have "map_insert k x m = m @ [(k, x)]"
    using Cons.prems unfolding kx
    by (intro map_insert_last) (auto simp: metadata_ok_def map_sorted_def sorted_wrt_append)
  moreover have "parse_metadata_value (serialize_metadata_value x) = Ok x"
    using Cons.prems by (auto simp: kx metadata_ok_def)
  ultimately show ?case using Cons.IH [of "m @ [(k, x)]"] Cons.prems by (simp add: kx)
qed simp

lemma map_sorted_values: "map_sorted (map (\<lambda>(k, x). (k, f x)) m) \<longleftrightarrow> map_sorted m"
  by (simp add: map_sorted_def case_prod_beta comp_def)

lemma visit_keys_metadata:
  "metadata_ok m \<Longrightarrow>
   visit_keys ((''metadata'', Object (map (\<lambda>(k, x). (k, serialize_metadata_value x)) m)) # rest) [] p ns =
   visit_keys rest m p ns"
  using insert_metadata_written [of "[]" m]
  by (simp add: hash_map_of_sorted map_sorted_values metadata_ok_def)

lemma visit_map_ok:
  assumes "visit_map es = Ok rule" and "rule_matcher rule = MetadataMatch m"
  shows "metadata_ok m \<and> m \<noteq> []"
proof -
  obtain m' p ns where k: "visit_keys es [] None None = Ok (m', p, ns)"
    using assms(1) by (cases "visit_keys es [] None None") (auto simp: visit_map_def)
  have "metadata_ok m'" using visit_keys_ok [OF k] by (simp add: metadata_ok_def)
  then show ?thesis
    using assms k by (auto simp: visit_map_def split: option.splits bool.splits)
qed

text \<open>C35: A rule that the engine reads from its configuration, whatever form it was written in, is
  read back as the same rule after the engine has written it: its pattern or its conditions on
  metadata and its namespace.\<close>

theorem rules_round_trip:
  assumes "deserialize_filter v = Ok rule"
  shows "deserialize_filter (serialize_filter rule) = Ok rule"
proof (cases "rule_matcher rule")
  case (Match p)
  then show ?thesis
    by (cases rule; cases "rule_namespace rule") (auto simp: serialize_filter_def visit_str_def visit_map_def)
next
  case (MetadataMatch m)
  then have "metadata_ok m \<and> m \<noteq> []"
    using assms visit_map_ok
    by (cases v) (auto simp: visit_str_def split: sum.splits option.splits)
  then show ?thesis
    using MetadataMatch
    by (cases rule; cases "rule_namespace rule")
      (simp_all add: serialize_filter_def visit_map_def visit_keys_metadata del: visit_keys.simps(2),
       simp add: visit_keys_metadata)
qed

definition sample_rule :: json where
  "sample_rule =
     Object [(''metadata'', Object [(''public'', Bool True), (''team'', String (write_pattern ''ops-*''))]),
             (''namespace'', String ''orders'')]"

theorem rules_round_trip_witness:
  "deserialize_filter (serialize_filter
     \<lparr>rule_matcher = MetadataMatch [(''public'', Exact (Bool True)), (''team'', Wildcard ''ops-*'')],
      rule_namespace = Some ''orders''\<rparr>) =
   Ok \<lparr>rule_matcher = MetadataMatch [(''public'', Exact (Bool True)), (''team'', Wildcard ''ops-*'')],
       rule_namespace = Some ''orders''\<rparr>"
proof (rule rules_round_trip)
  show "deserialize_filter sample_rule =
     Ok \<lparr>rule_matcher = MetadataMatch [(''public'', Exact (Bool True)), (''team'', Wildcard ''ops-*'')],
         rule_namespace = Some ''orders''\<rparr>"
    by (simp add: sample_rule_def visit_map_def hash_map_of_def parse_metadata_value_def)
qed

section \<open>What grants and rules mean\<close>

definition grant_pattern :: "string \<Rightarrow> string" where
  "grant_pattern g = (case parse_match_pattern g of Ok (Some p) \<Rightarrow> p | _ \<Rightarrow> g)"

lemma glob_refl: "glob p p"
proof (induction p)
  case (Cons c p)
  then show ?case by (cases "c = CHR ''*''") (auto simp: glob_star intro: exI [of _ 1])
qed simp

lemma glob_plain: "CHR ''*'' \<notin> set p \<Longrightarrow> glob p v \<longleftrightarrow> v = p"
  by (simp add: glob_laid_out split_str_plain)

lemma grant_matches_glob: "\<not> broken g \<Longrightarrow> grant_matches g i = Ok (glob (grant_pattern g) i)"
  using parse_broken [of g] parse_no_other_error [of g] glob_refl [of i] glob_plain [of _ i]
  by (cases "parse_match_pattern g")
    (auto simp: grant_matches_def grant_pattern_def wildcard_glob Let_def split: option.splits)

lemma any_grant_glob:
  "(\<And>g. g \<in> set gs \<Longrightarrow> \<not> broken g) \<Longrightarrow> any_grant gs i = Ok (\<exists>g \<in> set gs. glob (grant_pattern g) i)"
  by (induction gs) (auto simp: grant_matches_glob split: bool.splits)

definition rule_scope :: "function_filter \<Rightarrow> string" where
  "rule_scope rule = (case rule_namespace rule of Some n \<Rightarrow> n | None \<Rightarrow> default_namespace)"

definition grants_for :: "session \<Rightarrow> string \<Rightarrow> string list" where
  "grants_for s ns = (case map_of (namespaces s) ns of Some gs \<Rightarrow> gs | None \<Rightarrow> [])"

definition rules_for :: "session \<Rightarrow> string \<Rightarrow> function_filter set option" where
  "rules_for s ns = map_option (\<lambda>c. {rule \<in> set (expose_functions c). rule_scope rule = ns}) (session_rbac s)"

text \<open>The function whose metadata a check inspects.\<close>

definition reached :: "string \<Rightarrow> string \<Rightarrow> functions_registry \<Rightarrow> function_entry option" where
  "reached ns i r =
     (case get_function ns i r of
        Some f \<Rightarrow> Some f
      | None \<Rightarrow> if ns \<noteq> default_namespace \<and> i = CONTENT_FUNCTION_ID then get_function default_namespace i r else None)"

lemma is_function_allowed_reached:
  "is_function_allowed s requested i r =
   session_check s (requested_namespace requested) i (reached (requested_namespace requested) i r)"
  by (auto simp: is_function_allowed_def resolve_function_with_def reached_def with_function_get Let_def
      split: option.splits)

lemma filter_matches_scope: "filter_matches rule i ns md \<Longrightarrow> rule_scope rule = ns"
  by (auto simp: filter_matches_def rule_scope_def Let_def split: if_splits option.splits)

text \<open>The decision written without the order in which the code tests.\<close>

lemma session_check_decides:
  "session_check s ns i f =
   (if i \<in> set (forbidden_functions s) then Ok False
    else case any_grant (grants_for s ns) i of
           Err e \<Rightarrow> Err e
         | Ok granted \<Rightarrow>
             Ok (granted \<or> (ns = default_namespace \<and> i \<in> set (allowed_functions s)) \<or>
                 i \<in> set INFRASTRUCTURE_FUNCTIONS \<or>
                 (case rules_for s ns of
                    None \<Rightarrow> True
                  | Some rules \<Rightarrow> \<exists>rule \<in> rules. filter_matches rule i ns (Option.bind f function_metadata))))"
  unfolding session_check_def is_function_allowed_ref_def grants_for_def rules_for_def list_ex_iff
  using filter_matches_scope
  by (cases "map_of (namespaces s) ns"; cases "session_rbac s")
    (auto split: sum.splits bool.splits)

text \<open>C34: A session may call a function in a namespace exactly when the function is not denied and a
  grant for this namespace has a pattern that stands for the function, or the namespace is the default one and
  the function is among the grants without namespace, or the function is infrastructure, or the
  engine has no rules, or one of the rules for this namespace exposes it; the metadata that a rule
  inspects is that of the function the call would reach.  The exception are grants on whose text
  the engine panics.\<close>

theorem access_decision:
  assumes "\<And>g. g \<in> set (grants_for s (requested_namespace requested)) \<Longrightarrow> \<not> broken g"
  shows "is_function_allowed s requested i r =
    (let ns = requested_namespace requested
     in Ok (i \<notin> set (forbidden_functions s) \<and>
       ((\<exists>g \<in> set (grants_for s ns). glob (grant_pattern g) i) \<or>
        ns = default_namespace \<and> i \<in> set (allowed_functions s) \<or>
        i \<in> set INFRASTRUCTURE_FUNCTIONS \<or>
        (case rules_for s ns of
           None \<Rightarrow> True
         | Some rules \<Rightarrow> \<exists>rule \<in> rules. filter_matches rule i ns (Option.bind (reached ns i r) function_metadata)))))"
  by (simp add: is_function_allowed_reached session_check_decides any_grant_glob assms Let_def)

text \<open>C33: Access in a namespace does not depend on anything that belongs to another namespace.  Two
  sessions with the same denials that agree on the grants and rules for a namespace, and on the
  grants without namespace if it is the default one, are allowed the same there, whatever else
  they may do elsewhere and whatever functions are registered in other namespaces; only the one
  built-in content function is also looked up in the default namespace.\<close>

theorem namespaces_isolate:
  assumes "set (forbidden_functions s) = set (forbidden_functions s')"
    and "grants_for s ns = grants_for s' ns" and "rules_for s ns = rules_for s' ns"
    and "ns = default_namespace \<Longrightarrow> set (allowed_functions s) = set (allowed_functions s')"
    and "get_function ns i r = get_function ns i r'"
    and "i = CONTENT_FUNCTION_ID \<Longrightarrow> get_function default_namespace i r = get_function default_namespace i r'"
  shows "is_function_allowed s (Some ns) i r = is_function_allowed s' (Some ns) i r'"
proof -
  have "reached ns i r = reached ns i r'"
    using assms(5,6) by (simp add: reached_def split: option.split)
  moreover have "ns = default_namespace \<and> i \<in> set (allowed_functions s) \<longleftrightarrow>
      ns = default_namespace \<and> i \<in> set (allowed_functions s')"
    using assms(4) by blast
  ultimately show ?thesis
    unfolding is_function_allowed_reached session_check_decides requested_namespace_def option.case assms(1-3)
    by (simp only:)
qed

section \<open>Examples\<close>

definition tenant :: "string list \<Rightarrow> session" where
  "tenant unscoped =
     \<lparr>session_rbac = Some \<lparr>auth_function_id = Some ''auth'',
        expose_functions = [in_namespace ''orders'' (match_pattern ''public::*'')],
        on_trigger_registration_function_id = None, on_trigger_type_registration_function_id = None,
        on_function_registration_function_id = None, on_observer_registration_function_id = None\<rparr>,
      ip_address = ''10.0.0.1'', session_id = 1, namespaces = [(''orders'', [''svc::*::read'', write_pattern ''svc::get''])],
      allowed_functions = unscoped, forbidden_functions = [''svc::secret::read''], allowed_trigger_types = None,
      allow_trigger_type_registration = False, allow_function_registration = True,
      session_context = Null, function_registration_prefix = None\<rparr>"

lemma tenant_grants:
  "grants_for (tenant unscoped) ''orders'' = [''svc::*::read'', write_pattern ''svc::get'']"
  "rules_for (tenant unscoped) ''orders'' = Some {in_namespace ''orders'' (match_pattern ''public::*'')}"
  "forbidden_functions (tenant unscoped) = [''svc::secret::read'']"
  by (auto simp: grants_for_def rules_for_def tenant_def rule_scope_def in_namespace_def match_pattern_def)

lemma tenant_parse: "parse_match_pattern ''svc::*::read'' = Ok None"
  by (simp add: parse_match_pattern_def trim_visible visible_def wrapped_in_def match_open_def)

lemma tenant_patterns: "\<not> broken ''svc::*::read''" "\<not> broken (write_pattern p)"
  by (simp_all add: parse_broken [symmetric] tenant_parse)

lemma tenant_globs:
  "glob (grant_pattern ''svc::*::read'') ''svc::a::read''"
  by (simp add: grant_pattern_def tenant_parse)

theorem access_decision_witness:
  "is_function_allowed (tenant []) (Some ''orders'') ''svc::a::read'' functions_new = Ok True"
  using access_decision [of "tenant []" "Some ''orders''" "''svc::a::read''" functions_new] tenant_patterns tenant_globs
  by (auto simp: requested_namespace_def tenant_grants)

theorem namespaces_isolate_witness:
  "is_function_allowed (tenant [''svc::put'']) (Some ''orders'') ''svc::put'' functions_new =
   is_function_allowed (tenant []) (Some ''orders'') ''svc::put'' functions_new"
  by (rule namespaces_isolate) (simp_all add: tenant_grants default_namespace_def)

section \<open>A malformed grant\<close>

text \<open>C36: Reading a pattern panics exactly when the text, without white space around it, is the
  word match, a parenthesis, one quote and the closing parenthesis, so that the opening and the closing
  quote are the same character; then a session to which such a grant was given as the first one for a
  namespace cannot be decided for any function that is not denied.\<close>

theorem overlapping_quotes_panic:
  "(parse_match_pattern g = Err SlicePanic \<longleftrightarrow>
      trim g \<in> {''match('' @ [double_quote] @ '')'', ''match('' @ [single_quote] @ '')''}) \<and>
   (parse_match_pattern g = Err SlicePanic \<and> i \<notin> set (forbidden_functions s) \<longrightarrow>
      is_function_allowed (s\<lparr>namespaces := [(ns, g # gs)]\<rparr>) (Some ns) i r = Err SlicePanic)"
  using parse_broken [of g]
  by (auto simp: broken_def match_open_def is_function_allowed_reached requested_namespace_def
      session_check_decides grants_for_def grant_matches_def)

theorem overlapping_quotes_panic_witness:
  "is_function_allowed ((tenant [])\<lparr>namespaces := [(''orders'', [''match('' @ [double_quote] @ '')''])]\<rparr>)
     (Some ''orders'') ''svc::get'' functions_new = Err SlicePanic"
proof -
  have "trim (''match('' @ [double_quote] @ '')'') = ''match('' @ [double_quote] @ '')''"
    by (rule trim_visible) (simp add: visible_def)
  then show ?thesis
    using overlapping_quotes_panic [of "''match('' @ [double_quote] @ '')''" "''svc::get''" "tenant []" "''orders''" "[]" functions_new]
    by (simp add: tenant_grants)
qed

end
