(* ===== verification/Connection_Namespace.thy ===== *)
theory Connection_Namespace
  imports Trigger_Store
begin

text \<open>
  How a connection gets its namespace (\<open>engine/src/engine/mod.rs\<close>, \<open>engine_fn/mod.rs\<close>): registrations
  that arrive before the worker has announced itself are buffered, and released into the announced
  namespace, or into the default one when a grace period has passed.  The announcement, the grace
  timer, the reader of the connection and its teardown interleave at every await.  One connection is modelled: its
  entry of \<open>namespace_states\<close>, its entry of \<open>namespace_grace_tasks\<close> and the tasks that work on it; no
  operation touches the entry of another connection.
\<close>

section \<open>Messages and states\<close>

datatype message_kind =
    RegisterFunction | RegisterService | UnregisterFunction | RegisterTrigger | UnregisterTrigger
  | RegisterTriggerType | UnregisterTriggerType | Observe | Unobserve | AnyOther

text \<open>The number stands for what the message carries.\<close>

record wire_message =
  kind :: message_kind
  carries :: nat

definition is_namespaced_registration :: "wire_message \<Rightarrow> bool" where
  "is_namespaced_registration m \<longleftrightarrow>
     kind m \<in> {RegisterFunction, RegisterService, UnregisterFunction, RegisterTrigger, UnregisterTrigger,
               RegisterTriggerType, UnregisterTriggerType, Observe, Unobserve}"

datatype namespace_state =
    Pending "wire_message list"
  | Draining string "wire_message list"
  | Resolved string
  | Aborted string

section \<open>The entry of a connection\<close>

type_synonym ns_entry = "namespace_state option"

definition connection_namespace :: "ns_entry \<Rightarrow> string" where
  "connection_namespace e =
     (case e of
        Some (Resolved ns) \<Rightarrow> ns
      | Some (Draining ns _) \<Rightarrow> ns
      | Some (Aborted ns) \<Rightarrow> ns
      | _ \<Rightarrow> default_namespace)"

definition already_fixed_namespace :: "ns_entry \<Rightarrow> string option" where
  "already_fixed_namespace e =
     (case e of
        Some (Resolved ns) \<Rightarrow> Some ns
      | Some (Draining ns _) \<Rightarrow> Some ns
      | Some (Aborted ns) \<Rightarrow> Some ns
      | _ \<Rightarrow> None)"

definition buffer_until_namespace_known :: "wire_message \<Rightarrow> ns_entry \<Rightarrow> bool \<times> ns_entry" where
  "buffer_until_namespace_known m e =
     (if \<not> is_namespaced_registration m then (False, e)
      else case e of
             None \<Rightarrow> (False, e)
           | Some (Pending queue) \<Rightarrow> (True, Some (Pending (queue @ [m])))
           | Some (Draining ns queue) \<Rightarrow> (True, Some (Draining ns (queue @ [m])))
           | Some (Resolved _) \<Rightarrow> (False, e)
           | Some (Aborted _) \<Rightarrow> (True, e))"

definition abort_namespace_resolution :: "ns_entry \<Rightarrow> ns_entry" where
  "abort_namespace_resolution e =
     (case e of
        None \<Rightarrow> None
      | Some (Resolved ns) \<Rightarrow> Some (Aborted ns)
      | Some (Draining ns _) \<Rightarrow> Some (Aborted ns)
      | Some (Aborted ns) \<Rightarrow> Some (Aborted ns)
      | Some (Pending _) \<Rightarrow> Some (Aborted default_namespace))"

text \<open>The two critical sections of \<open>resolve_connection_namespace\<close>: the transition that one caller wins, and the pop of the loop.\<close>

definition resolve_begin :: "string \<Rightarrow> ns_entry \<Rightarrow> bool \<times> ns_entry" where
  "resolve_begin ns e =
     (case e of
        Some (Pending queue) \<Rightarrow> (True, Some (Draining ns queue))
      | _ \<Rightarrow> (False, e))"

definition resolve_next :: "ns_entry \<Rightarrow> wire_message option \<times> ns_entry" where
  "resolve_next e =
     (case e of
        Some (Draining ns (m # queue)) \<Rightarrow> (Some m, Some (Draining ns queue))
      | Some (Draining ns []) \<Rightarrow> (None, Some (Resolved ns))
      | _ \<Rightarrow> (None, e))"

section \<open>Tasks\<close>

datatype task_owner = GraceTimer | Announcement

text \<open>
  Where a task is: asleep for the grace period, about to call \<open>resolve_connection_namespace\<close>, at the
  head of its loop, waiting for the dispatch of a message, or, for an announcement, about to cancel the timer.
\<close>

datatype phase = Sleeping | Calling string | Looping | Dispatching wire_message | Cancelling

record connection =
  ns_entry :: ns_entry
  grace_task :: bool
  grace_aborted :: bool
  tasks :: "(task_owner \<times> phase) list"
  reading :: "wire_message option"
  arrived :: "wire_message list"
  applied :: "(string \<times> wire_message) list"

text \<open>\<open>begin_namespace_resolution\<close>: the entry is new and the timer is armed.\<close>

definition begin_namespace_resolution :: connection where
  "begin_namespace_resolution =
     \<lparr>ns_entry = Some (Pending []), grace_task = True, grace_aborted = False, tasks = [(GraceTimer, Sleeping)],
      reading = None, arrived = [], applied = []\<rparr>"

definition cancel_namespace_grace_timer :: "connection \<Rightarrow> connection" where
  "cancel_namespace_grace_timer c =
     (if grace_task c then c\<lparr>grace_task := False, grace_aborted := True\<rparr> else c)"

text \<open>
  \<open>router_msg\<close> up to the start of the dispatch.  \<open>arrived\<close> and \<open>applied\<close> record the registrations that
  came in and those whose dispatch began, the latter with the namespace they are filed under.
\<close>

definition note_applied :: "wire_message \<Rightarrow> connection \<Rightarrow> connection" where
  "note_applied m c =
     (if is_namespaced_registration m
      then c\<lparr>applied := applied c @ [(connection_namespace (ns_entry c), m)]\<rparr> else c)"

definition router_msg :: "wire_message \<Rightarrow> connection \<Rightarrow> connection" where
  "router_msg m c =
     (let (buffered, e) = buffer_until_namespace_known m (ns_entry c);
          c = c\<lparr>ns_entry := e, arrived := (if is_namespaced_registration m then arrived c @ [m] else arrived c)\<rparr>
      in if buffered then c else note_applied m (c\<lparr>reading := Some m\<rparr>))"

text \<open>After \<open>resolve_connection_namespace\<close> the timer ends and the announcement cancels the timer.\<close>

definition finish_call :: "task_owner \<Rightarrow> (task_owner \<times> phase) list" where
  "finish_call w = (case w of GraceTimer \<Rightarrow> [] | Announcement \<Rightarrow> [(Announcement, Cancelling)])"

text \<open>One step of a task: what becomes of it and of the connection.\<close>

definition task_step :: "task_owner \<Rightarrow> phase \<Rightarrow> connection \<Rightarrow> (task_owner \<times> phase) list \<times> connection" where
  "task_step w p c =
     (case p of
        Sleeping \<Rightarrow> ([(w, Calling default_namespace)], c)
      | Calling ns \<Rightarrow>
          (case resolve_begin ns (ns_entry c) of
             (True, e) \<Rightarrow> ([(w, Looping)], c\<lparr>ns_entry := e\<rparr>)
           | (False, e) \<Rightarrow> (finish_call w, c))
      | Looping \<Rightarrow>
          (case resolve_next (ns_entry c) of
             (Some m, e) \<Rightarrow> ([(w, Dispatching m)], note_applied m (c\<lparr>ns_entry := e\<rparr>))
           | (None, e) \<Rightarrow> (finish_call w, c\<lparr>ns_entry := e\<rparr>))
      | Dispatching m \<Rightarrow> ([(w, Looping)], c)
      | Cancelling \<Rightarrow> ([], cancel_namespace_grace_timer c))"

definition awaiting :: "phase \<Rightarrow> bool" where
  "awaiting p \<longleftrightarrow> (case p of Sleeping \<Rightarrow> True | Dispatching _ \<Rightarrow> True | _ \<Rightarrow> False)"

datatype conn_event =
    Arrive wire_message
  | ReadDone
  | Announce string
  | Drive nat
  | Kill nat
  | Reject
  | Teardown
  | Cleaned

text \<open>
  What can happen: the reader takes the next sample_message when it is done with the last, the worker
  announces itself, a task takes a step, the runtime drops the aborted timer at an await, a name
  conflict cancels the timer, the teardown begins and ends.
\<close>

definition conn_do :: "conn_event \<Rightarrow> connection \<Rightarrow> connection option" where
  "conn_do ev c =
     (case ev of
        Arrive m \<Rightarrow> if reading c = None then Some (router_msg m c) else None
      | ReadDone \<Rightarrow> if reading c = None then None else Some (c\<lparr>reading := None\<rparr>)
      | Announce declared \<Rightarrow>
          let ns = (case already_fixed_namespace (ns_entry c) of Some fixed \<Rightarrow> fixed | None \<Rightarrow> declared)
          in Some (c\<lparr>tasks := tasks c @ [(Announcement, Calling ns)]\<rparr>)
      | Drive n \<Rightarrow>
          if n < length (tasks c)
          then let (w, p) = tasks c ! n; (ts, c') = task_step w p c
               in Some (c'\<lparr>tasks := take n (tasks c') @ ts @ drop (Suc n) (tasks c')\<rparr>)
          else None
      | Kill n \<Rightarrow>
          if n < length (tasks c) \<and> grace_aborted c \<and> fst (tasks c ! n) = GraceTimer \<and> awaiting (snd (tasks c ! n))
          then Some (c\<lparr>tasks := take n (tasks c) @ drop (Suc n) (tasks c)\<rparr>)
          else None
      | Reject \<Rightarrow> Some (cancel_namespace_grace_timer c)
      | Teardown \<Rightarrow> Some (c\<lparr>ns_entry := abort_namespace_resolution (ns_entry c)\<rparr>)
      | Cleaned \<Rightarrow>
          (case ns_entry c of
             Some (Aborted _) \<Rightarrow> Some (cancel_namespace_grace_timer (c\<lparr>ns_entry := None\<rparr>))
           | _ \<Rightarrow> None))"

fun conn_run :: "conn_event list \<Rightarrow> connection \<Rightarrow> connection option" where
  "conn_run [] c = Some c"
| "conn_run (ev # evs) c = Option.bind (conn_do ev c) (conn_run evs)"

section \<open>The invariant\<close>

definition draining_phase :: "phase \<Rightarrow> bool" where
  "draining_phase p \<longleftrightarrow> (case p of Looping \<Rightarrow> True | Dispatching _ \<Rightarrow> True | _ \<Rightarrow> False)"

lemma draining_phase_simps [simp]:
  "draining_phase Looping" "draining_phase (Dispatching m)" "\<not> draining_phase Sleeping"
  "\<not> draining_phase (Calling ns)" "\<not> draining_phase Cancelling"
  by (simp_all add: draining_phase_def)

definition drainers :: "connection \<Rightarrow> nat" where
  "drainers c = length (filter (\<lambda>t. draining_phase (snd t)) (tasks c))"

definition reading_registration :: "connection \<Rightarrow> bool" where
  "reading_registration c \<longleftrightarrow> (case reading c of Some m \<Rightarrow> is_namespaced_registration m | None \<Rightarrow> False)"

text \<open>
  What holds of the entry, the number of draining tasks, whether the reader is dispatching a
  registration, the registrations applied and those that arrived.
\<close>

definition conn_ok ::
  "ns_entry \<Rightarrow> nat \<Rightarrow> bool \<Rightarrow> (string \<times> wire_message) list \<Rightarrow> wire_message list \<Rightarrow> bool"
where
  "conn_ok e n direct done came \<longleftrightarrow> n \<le> 1 \<and> list_all is_namespaced_registration came \<and>
     (case e of
        None \<Rightarrow> True
      | Some (Pending queue) \<Rightarrow> n = 0 \<and> done = [] \<and> came = queue \<and> \<not> direct
      | Some (Draining ns queue) \<Rightarrow>
          list_all (\<lambda>d. fst d = ns) done \<and> came = map snd done @ queue \<and> \<not> direct
      | Some (Resolved ns) \<Rightarrow> n = 0 \<and> list_all (\<lambda>d. fst d = ns) done \<and> came = map snd done
      | Some (Aborted ns) \<Rightarrow>
          list_all (\<lambda>d. fst d = ns) done \<and> prefix (map snd done) came \<and> (n = 0 \<or> \<not> direct))"

definition conn_inv :: "connection \<Rightarrow> bool" where
  "conn_inv c \<longleftrightarrow> conn_ok (ns_entry c) (drainers c) (reading_registration c) (applied c) (arrived c)"

lemmas entry_defs = buffer_until_namespace_known_def abort_namespace_resolution_def resolve_begin_def
  resolve_next_def connection_namespace_def note_applied_def

lemma drainers_nth:
  "n < length (tasks c) \<Longrightarrow>
   drainers c = drainers (c\<lparr>tasks := take n (tasks c) @ drop (Suc n) (tasks c)\<rparr>) +
     (if draining_phase (snd (tasks c ! n)) then 1 else 0)"
  unfolding drainers_def by (subst id_take_nth_drop [of n "tasks c"]) auto

lemma drainers_put:
  "drainers (c\<lparr>tasks := take n ts @ new @ drop m ts\<rparr>) =
   drainers (c\<lparr>tasks := take n ts @ drop m ts\<rparr>) + length (filter (\<lambda>t. draining_phase (snd t)) new)"
  by (simp add: drainers_def)

lemma parts_update [simp]:
  "drainers (c\<lparr>ns_entry := e\<rparr>) = drainers c" "drainers (c\<lparr>applied := a\<rparr>) = drainers c"
  "drainers (c\<lparr>arrived := v\<rparr>) = drainers c" "drainers (c\<lparr>reading := r\<rparr>) = drainers c"
  "drainers (c\<lparr>grace_task := g\<rparr>) = drainers c" "drainers (c\<lparr>grace_aborted := g\<rparr>) = drainers c"
  "reading_registration (c\<lparr>ns_entry := e\<rparr>) = reading_registration c"
  "reading_registration (c\<lparr>applied := a\<rparr>) = reading_registration c"
  "reading_registration (c\<lparr>arrived := v\<rparr>) = reading_registration c"
  "reading_registration (c\<lparr>tasks := ts\<rparr>) = reading_registration c"
  "reading_registration (c\<lparr>grace_task := g\<rparr>) = reading_registration c"
  "reading_registration (c\<lparr>grace_aborted := g\<rparr>) = reading_registration c"
  "reading_registration (c\<lparr>reading := None\<rparr>) = False"
  "reading_registration (c\<lparr>reading := Some m\<rparr>) = is_namespaced_registration m"
  by (simp_all add: drainers_def reading_registration_def)

lemma inv_begin: "conn_inv begin_namespace_resolution"
  by (simp add: conn_inv_def conn_ok_def begin_namespace_resolution_def drainers_def reading_registration_def)

lemma inv_router: "conn_inv c \<Longrightarrow> reading c = None \<Longrightarrow> conn_inv (router_msg m c)"
  by (auto simp: conn_inv_def conn_ok_def router_msg_def entry_defs Let_def
      split: option.splits namespace_state.splits if_splits)

lemma inv_teardown: "conn_inv c \<Longrightarrow> conn_inv (c\<lparr>ns_entry := abort_namespace_resolution (ns_entry c)\<rparr>)"
  by (auto simp: conn_inv_def conn_ok_def abort_namespace_resolution_def
      split: option.splits namespace_state.splits)

lemma inv_cancel [simp]: "conn_inv (cancel_namespace_grace_timer c) \<longleftrightarrow> conn_inv c"
  by (simp add: conn_inv_def cancel_namespace_grace_timer_def)

lemma inv_fewer_tasks: "conn_inv c \<Longrightarrow> drainers (c\<lparr>tasks := ts\<rparr>) \<le> drainers c \<Longrightarrow> conn_inv (c\<lparr>tasks := ts\<rparr>)"
  by (auto simp: conn_inv_def conn_ok_def split: option.splits namespace_state.splits)

lemma inv_task:
  assumes inv: "conn_inv c" and n: "n < length (tasks c)" and t: "tasks c ! n = (w, p)"
    and step: "task_step w p c = (new, c')"
  shows "conn_inv (c'\<lparr>tasks := take n (tasks c') @ new @ drop (Suc n) (tasks c')\<rparr>)"
proof -
  define base where "base = drainers (c\<lparr>tasks := take n (tasks c) @ drop (Suc n) (tasks c)\<rparr>)"
  have ok: "conn_ok (ns_entry c) (base + (if draining_phase p then 1 else 0)) (reading_registration c) (applied c) (arrived c)"
    using inv drainers_nth [OF n] t by (simp add: base_def conn_inv_def)
  have ts: "tasks c' = tasks c" "reading_registration c' = reading_registration c" "arrived c' = arrived c"
    using step by (auto simp: task_step_def note_applied_def cancel_namespace_grace_timer_def
      split: phase.splits prod.splits bool.splits option.splits if_splits)
  have "conn_ok (ns_entry c') (base + length (filter (\<lambda>t. draining_phase (snd t)) new)) (reading_registration c)
      (applied c') (arrived c)"
    using step ok
    by (auto simp: task_step_def finish_call_def conn_ok_def entry_defs cancel_namespace_grace_timer_def
        split: phase.splits task_owner.splits option.splits namespace_state.splits list.splits if_splits)
  then show ?thesis
    by (simp add: conn_inv_def ts drainers_put) (simp add: base_def drainers_def)
qed

lemma inv_read_done: "conn_inv c \<Longrightarrow> conn_inv (c\<lparr>reading := None\<rparr>)"
  by (auto simp: conn_inv_def conn_ok_def split: option.splits namespace_state.splits)

lemma inv_cleaned: "conn_inv c \<Longrightarrow> conn_inv (c\<lparr>ns_entry := None\<rparr>)"
  by (simp add: conn_inv_def conn_ok_def)

lemma inv_more_tasks: "conn_inv c \<Longrightarrow> conn_inv (c\<lparr>tasks := tasks c @ [(w, Calling ns)]\<rparr>)"
  by (rule inv_fewer_tasks) (simp_all add: drainers_def)

lemma inv_kill:
  assumes "conn_inv c" and "n < length (tasks c)"
  shows "conn_inv (c\<lparr>tasks := take n (tasks c) @ drop (Suc n) (tasks c)\<rparr>)"
  using assms(1) by (rule inv_fewer_tasks) (use drainers_nth [OF assms(2)] in simp)

lemma inv_do:
  assumes "conn_inv c" and "conn_do ev c = Some c'"
  shows "conn_inv c'"
proof (cases ev)
  case (Drive n)
  obtain w p where t: "tasks c ! n = (w, p)" by force
  obtain new d where "task_step w p c = (new, d)" by force
  then show ?thesis
    using assms Drive t inv_task [OF assms(1) _ t] by (simp add: conn_do_def split: if_splits)
next
  case (Cleaned)
  then show ?thesis
    using assms by (auto simp: conn_do_def inv_cleaned split: option.splits namespace_state.splits)
qed (use assms in \<open>auto simp: conn_do_def Let_def inv_router inv_read_done inv_more_tasks inv_kill inv_teardown
      split: if_splits\<close>)

definition conn_next :: "connection \<Rightarrow> connection \<Rightarrow> bool" where
  "conn_next c c' \<longleftrightarrow> (\<exists>ev. conn_do ev c = Some c')"

interpretation connection_events: step_invariant "\<lambda>c. c = begin_namespace_resolution" conn_next conn_inv
  by unfold_locales (auto simp: inv_begin conn_next_def intro: inv_do)

lemma conn_run_steps: "conn_run evs c = Some c' \<Longrightarrow> conn_next\<^sup>*\<^sup>* c c'"
proof (induction evs arbitrary: c)
  case (Cons ev evs)
  then obtain d where "conn_do ev c = Some d" "conn_run evs d = Some c'" by (auto split: bind_splits)
  then have "conn_next c d" "conn_next\<^sup>*\<^sup>* d c'" using Cons.IH unfolding conn_next_def by blast+
  then show ?case by (rule converse_rtranclp_into_rtranclp)
qed simp

lemma conn_run_inv: "conn_run evs begin_namespace_resolution = Some c \<Longrightarrow> conn_inv c"
  using connection_events.inv_reachable conn_run_steps by blast

section \<open>Order and namespace\<close>

text \<open>The registrations that are being dispatched: by the reader and by the tasks.\<close>

fun task_dispatch :: "task_owner \<times> phase \<Rightarrow> wire_message option" where
  "task_dispatch (w, Dispatching m) = Some m"
| "task_dispatch _ = None"

definition in_dispatch :: "connection \<Rightarrow> wire_message list" where
  "in_dispatch c =
     (case reading c of Some m \<Rightarrow> if is_namespaced_registration m then [m] else [] | None \<Rightarrow> []) @
     List.map_filter task_dispatch (tasks c)"

lemma dispatching_drains: "length (List.map_filter task_dispatch (tasks c)) \<le> drainers c"
  unfolding drainers_def
proof (induction "tasks c" arbitrary: c)
  case (Cons t ts)
  have "length (List.map_filter task_dispatch ts) \<le> length (filter (\<lambda>t. draining_phase (snd t)) ts)"
    using Cons.hyps(1) [of "c\<lparr>tasks := ts\<rparr>"] by simp
  then show ?case
    unfolding Cons.hyps(2) [symmetric] by (cases t; cases "snd t") (auto simp: map_filter_simps)
qed (simp add: map_filter_simps)

text \<open>C37: Whatever the order in which a worker announces itself, its grace period ends, its messages
  arrive and its connection is torn down, the registrations of the connection are applied one at a time, in the
  order in which they arrived and without a gap, and all of them in the one namespace that the
  connection has; once the namespace is resolved none is waiting.\<close>

theorem registrations_apply_in_order:
  assumes "conn_run evs begin_namespace_resolution = Some c" and "ns_entry c \<noteq> None"
  shows "\<exists>waiting. arrived c = map snd (applied c) @ waiting \<and>
    (\<forall>(ns, m) \<in> set (applied c). ns = connection_namespace (ns_entry c)) \<and>
    length (in_dispatch c) \<le> 1 \<and>
    ((\<exists>ns. ns_entry c = Some (Resolved ns)) \<longrightarrow> waiting = [])"
proof -
  have ok: "conn_ok (ns_entry c) (drainers c) (reading_registration c) (applied c) (arrived c)"
    using conn_run_inv [OF assms(1)] by (simp add: conn_inv_def)
  have "length (in_dispatch c) \<le> (if reading_registration c then 1 else 0) + drainers c"
    using dispatching_drains [of c] by (auto simp: in_dispatch_def reading_registration_def split: option.splits)
  then have "length (in_dispatch c) \<le> 1"
    using ok assms(2) by (auto simp: conn_ok_def split: option.splits namespace_state.splits if_splits)
  then show ?thesis
    using ok assms(2)
    by (auto simp: conn_ok_def connection_namespace_def list_all_iff prefix_def
        split: option.splits namespace_state.splits)
qed

definition sample_message :: "nat \<Rightarrow> wire_message" where
  "sample_message n = \<lparr>kind = RegisterFunction, carries = n\<rparr>"

text \<open>Two registrations come before the announcement, one while the first is being dispatched, one at the end.\<close>

definition ordinary_run :: "conn_event list" where
  "ordinary_run =
     [Arrive (sample_message 1), Arrive (sample_message 2), Announce ''orders'', Drive 1, Drive 1, Arrive (sample_message 3), Drive 1,
      Drive 1, Drive 1, Drive 1, Drive 1, Drive 1, Drive 1, Kill 0, Arrive (sample_message 4)]"

definition ordinary_end :: connection where
  "ordinary_end = the (conn_run ordinary_run begin_namespace_resolution)"

lemma ordinary_runs:
  "conn_run ordinary_run begin_namespace_resolution \<noteq> None"
  "ns_entry ordinary_end = Some (Resolved ''orders'')"
  "applied ordinary_end = map (\<lambda>n. (''orders'', sample_message n)) [1, 2, 3, 4]"
  by code_simp+

theorem registrations_apply_in_order_witness: "arrived ordinary_end = map sample_message [1, 2, 3, 4]"
  using registrations_apply_in_order [of ordinary_run ordinary_end] ordinary_runs
  by (auto simp: ordinary_end_def)

section \<open>Drains end\<close>










section \<open>An announcement during the grace drain\<close>

text \<open>A connection on which nothing releases registrations any more.\<close>

definition abandoned :: "(string \<times> wire_message) list \<Rightarrow> connection \<Rightarrow> bool" where
  "abandoned done c \<longleftrightarrow> ns_entry c = None \<or>
     drainers c = 0 \<and> applied c = done \<and> (\<exists>ns q. ns_entry c \<in> {Some (Draining ns q), Some (Aborted ns)})"

lemma abandoned_drive:
  assumes "abandoned done c" and n: "n < length (tasks c)" and t: "tasks c ! n = (w, p)"
    and step: "task_step w p c = (new, d)"
  shows "abandoned done (d\<lparr>tasks := take n (tasks d) @ new @ drop (Suc n) (tasks d)\<rparr>)"
proof (cases "ns_entry c")
  case None
  then have "ns_entry d = None"
    using step by (auto simp: task_step_def entry_defs cancel_namespace_grace_timer_def split: phase.splits if_splits)
  then show ?thesis by (simp add: abandoned_def)
next
  case (Some e)
  then have z: "drainers c = 0" "applied c = done" "\<exists>ns q. ns_entry c \<in> {Some (Draining ns q), Some (Aborted ns)}"
    using assms(1) by (simp_all add: abandoned_def)
  have p: "\<not> draining_phase p" and base: "drainers (c\<lparr>tasks := take n (tasks c) @ drop (Suc n) (tasks c)\<rparr>) = 0"
    using drainers_nth [OF n] t z(1) by (auto split: if_splits)
  have "tasks d = tasks c" "ns_entry d = ns_entry c" "applied d = applied c" "filter (\<lambda>t. draining_phase (snd t)) new = []"
    using step p z(3)
    by (auto simp: task_step_def entry_defs finish_call_def cancel_namespace_grace_timer_def
        split: phase.splits task_owner.splits if_splits)
  then show ?thesis
    using z base by (simp add: abandoned_def drainers_put) (simp add: drainers_def)
qed

lemma abandoned_arrive: "abandoned done c \<Longrightarrow> abandoned done (router_msg m c)"
  by (auto simp: abandoned_def router_msg_def entry_defs Let_def)

lemma abandoned_kill:
  "abandoned done c \<Longrightarrow> n < length (tasks c) \<Longrightarrow>
   abandoned done (c\<lparr>tasks := take n (tasks c) @ drop (Suc n) (tasks c)\<rparr>)"
  using drainers_nth [of n c] by (auto simp: abandoned_def)

lemma abandoned_do:
  assumes "abandoned done c" and "conn_do ev c = Some d"
  shows "abandoned done d"
proof (cases ev)
  case (Drive n)
  obtain w p where t: "tasks c ! n = (w, p)" by force
  obtain new d' where "task_step w p c = (new, d')" by force
  then show ?thesis
    using assms Drive t abandoned_drive [OF assms(1) _ t] by (simp add: conn_do_def split: if_splits)
next
  case (Announce ns)
  then show ?thesis using assms by (auto simp: conn_do_def Let_def abandoned_def drainers_def)
next
  case Teardown
  then show ?thesis
    using assms by (auto simp: conn_do_def abandoned_def abort_namespace_resolution_def)
next
  case (Arrive m)
  then show ?thesis using assms abandoned_arrive by (auto simp: conn_do_def split: if_splits)
next
  case (Kill n)
  then show ?thesis using assms abandoned_kill by (auto simp: conn_do_def split: if_splits)
qed (use assms in \<open>auto simp: conn_do_def abandoned_def cancel_namespace_grace_timer_def
      split: if_splits option.splits namespace_state.splits\<close>)

lemma abandoned_run: "abandoned done c \<Longrightarrow> conn_run evs c = Some d \<Longrightarrow> abandoned done d"
  by (induction evs arbitrary: c) (auto dest: abandoned_do split: bind_splits)

text \<open>
  The timer fires and is waiting for the dispatch of the first registration when the worker
  announces itself; the announcement finds the namespace fixed and cancels the timer.
\<close>

definition late_run :: "conn_event list" where
  "late_run =
     [Arrive (sample_message 1), Arrive (sample_message 2), Drive 0, Drive 0, Drive 0, Announce ''orders'', Drive 1, Drive 1, Kill 0]"

definition late_end :: connection where
  "late_end = the (conn_run late_run begin_namespace_resolution)"

lemma late_runs:
  "conn_run late_run begin_namespace_resolution \<noteq> None"
  "ns_entry late_end = Some (Draining default_namespace [sample_message 2])"
  "tasks late_end = []" "arrived late_end = [sample_message 1, sample_message 2]"
  "applied late_end = [(default_namespace, sample_message 1)]"
  by code_simp+

text \<open>C39: A worker that announces itself while the grace timer is releasing its registrations can lose
  registrations for good.  The announcement cancels the timer in the middle of its work, nothing else goes
  on with it, and the connection stays in the draining state: whatever happens later, the
  registrations that were waiting, and all that arrive afterwards, are not applied as long as the
  connection lasts.\<close>

theorem late_announcement_strands:
  "\<exists>evs c m. conn_run evs begin_namespace_resolution = Some c \<and> m \<in> set (arrived c) \<and> Teardown \<notin> set evs \<and>
    (\<forall>evs' d. conn_run evs' c = Some d \<and> ns_entry d \<noteq> None \<longrightarrow>
      m \<notin> snd ` set (applied d) \<and> applied d = applied c \<and> (\<forall>ns. ns_entry d \<noteq> Some (Resolved ns)))"
proof (intro exI conjI allI impI)
  show "conn_run late_run begin_namespace_resolution = Some late_end" using late_runs(1) by (auto simp: late_end_def)
  show "sample_message 2 \<in> set (arrived late_end)" by (simp add: late_runs)
  show "Teardown \<notin> set late_run" by (simp add: late_run_def)
  fix evs' d
  assume "conn_run evs' late_end = Some d \<and> ns_entry d \<noteq> None"
  moreover have "abandoned (applied late_end) late_end" by (auto simp: abandoned_def drainers_def late_runs)
  ultimately have "abandoned (applied late_end) d" "ns_entry d \<noteq> None" using abandoned_run by blast+
  then have e: "applied d = applied late_end" "\<exists>ns q. ns_entry d \<in> {Some (Draining ns q), Some (Aborted ns)}"
    by (simp_all add: abandoned_def)
  then show "applied d = applied late_end" "\<And>ns. ns_entry d \<noteq> Some (Resolved ns)" by auto
  show "sample_message 2 \<notin> snd ` set (applied d)" by (simp add: e(1) late_runs sample_message_def)
qed

theorem late_announcement_strands_witness:
  "\<exists>evs c m. conn_run evs begin_namespace_resolution = Some c \<and> m \<in> set (arrived c) \<and> ns_entry c \<noteq> Some (Resolved ''orders'')"
  using late_announcement_strands
proof (elim exE conjE, goal_cases)
  case (1 evs c m)
  then show ?case by (metis conn_run.simps(1) option.distinct(1))
qed

end
