(* ===== verification/Leases.thy ===== *)
theory Leases
  imports Function_Registry
begin

text \<open>
  Which worker owns a function or a worker name in a namespace (\<open>engine/src/engine/mod.rs\<close>): a claim is
  refused while another live worker holds the lease, and a release acts only for the recorded owner.
  Every operation holds one entry of a map while it tests and writes, so it is one step.  The
  workers present and those whose connection is being torn down are part of the state; services
  and log messages are not modelled.
\<close>

section \<open>State\<close>

datatype invocation_kind = Regular | External

record leases =
  function_owners :: "((string \<times> string) \<times> (uuid \<times> invocation_kind)) list"
  worker_name_owners :: "((string \<times> string) \<times> uuid) list"
  workers :: "uuid list"
  tearing_down :: "uuid list"
  lease_functions :: functions_registry

record namespace_conflict =
  conflict_namespace :: string
  conflict_name :: string
  conflict_owner :: uuid

definition blocks :: "uuid \<Rightarrow> uuid \<Rightarrow> leases \<Rightarrow> bool" where
  "blocks previous worker s \<longleftrightarrow>
     previous \<noteq> worker \<and> previous \<in> set (workers s) \<and> previous \<notin> set (tearing_down s)"

section \<open>Operations\<close>

definition claim_in ::
  "string \<Rightarrow> uuid \<Rightarrow> string \<Rightarrow> invocation_kind \<Rightarrow> leases \<Rightarrow> (namespace_conflict, leases) result"
where
  "claim_in ns worker i k s =
     (case map_of (function_owners s) (ns, i) of
        Some (previous, _) \<Rightarrow>
          if blocks previous worker s
          then Err \<lparr>conflict_namespace = ns, conflict_name = i, conflict_owner = previous\<rparr>
          else Ok (s\<lparr>function_owners := map_insert (ns, i) (worker, k) (function_owners s)\<rparr>)
      | None \<Rightarrow> Ok (s\<lparr>function_owners := map_insert (ns, i) (worker, k) (function_owners s)\<rparr>))"

definition claim_function :: "string \<Rightarrow> uuid \<Rightarrow> string \<Rightarrow> leases \<Rightarrow> (namespace_conflict, leases) result" where
  "claim_function ns worker i = claim_in ns worker i Regular"

definition claim_external_function :: "string \<Rightarrow> uuid \<Rightarrow> string \<Rightarrow> leases \<Rightarrow> (namespace_conflict, leases) result" where
  "claim_external_function ns worker i = claim_in ns worker i External"

definition claim_worker_name :: "string \<Rightarrow> uuid \<Rightarrow> string \<Rightarrow> leases \<Rightarrow> (namespace_conflict, leases) result" where
  "claim_worker_name ns worker name s =
     (case map_of (worker_name_owners s) (ns, name) of
        Some previous \<Rightarrow>
          if blocks previous worker s
          then Err \<lparr>conflict_namespace = ns, conflict_name = name, conflict_owner = previous\<rparr>
          else Ok (s\<lparr>worker_name_owners := map_insert (ns, name) worker (worker_name_owners s)\<rparr>)
      | None \<Rightarrow> Ok (s\<lparr>worker_name_owners := map_insert (ns, name) worker (worker_name_owners s)\<rparr>))"

definition release_worker_name_if_owner :: "uuid \<Rightarrow> string \<Rightarrow> string \<Rightarrow> leases \<Rightarrow> leases" where
  "release_worker_name_if_owner worker ns name s =
     (if map_of (worker_name_owners s) (ns, name) = Some worker
      then s\<lparr>worker_name_owners := map_remove (ns, name) (worker_name_owners s)\<rparr> else s)"

definition owner_of :: "string \<Rightarrow> string \<Rightarrow> leases \<Rightarrow> uuid option" where
  "owner_of ns i s = map_option fst (map_of (function_owners s) (ns, i))"

definition release_function_if_owner :: "uuid \<Rightarrow> string \<Rightarrow> string \<Rightarrow> leases \<Rightarrow> bool \<times> leases" where
  "release_function_if_owner worker ns i s =
     (if owner_of ns i s = Some worker
      then (True, s\<lparr>lease_functions := remove_function ns i (lease_functions s),
                    function_owners := map_remove (ns, i) (function_owners s)\<rparr>)
      else (False, s))"

definition release_external_function_if_owner :: "uuid \<Rightarrow> string \<Rightarrow> string \<Rightarrow> leases \<Rightarrow> bool \<times> leases" where
  "release_external_function_if_owner worker ns i s =
     (if owner_of ns i s = Some worker
      then (True, s\<lparr>function_owners := map_remove (ns, i) (function_owners s)\<rparr>)
      else (False, s))"

definition remove_external_function_if_owner :: "uuid \<Rightarrow> string \<Rightarrow> string \<Rightarrow> leases \<Rightarrow> bool \<times> leases" where
  "remove_external_function_if_owner worker ns i s =
     (if owner_of ns i s = Some worker
      then (True, s\<lparr>lease_functions := remove_function ns i (lease_functions s)\<rparr>)
      else (False, s))"

definition is_engine_owned_builtin :: "string \<Rightarrow> string \<Rightarrow> leases \<Rightarrow> bool" where
  "is_engine_owned_builtin ns i s \<longleftrightarrow> prefix ''engine::'' i \<and> map_of (function_owners s) (ns, i) = None"

section \<open>Sequences of operations\<close>

datatype lease_event =
    Claim uuid string string invocation_kind
  | ClaimName uuid string string
  | Release uuid string string
  | ReleaseExternal uuid string string
  | RemoveExternal uuid string string
  | ReleaseName uuid string string
  | Join uuid
  | TearDown uuid
  | Depart uuid

definition lease_kept :: "leases \<Rightarrow> (namespace_conflict, leases) result \<Rightarrow> leases" where
  "lease_kept s r = (case r of Ok s' \<Rightarrow> s' | Err _ \<Rightarrow> s)"

fun lease_do :: "lease_event \<Rightarrow> leases \<Rightarrow> leases" where
  "lease_do (Claim w ns i k) s = lease_kept s (claim_in ns w i k s)"
| "lease_do (ClaimName w ns name) s = lease_kept s (claim_worker_name ns w name s)"
| "lease_do (Release w ns i) s = snd (release_function_if_owner w ns i s)"
| "lease_do (ReleaseExternal w ns i) s = snd (release_external_function_if_owner w ns i s)"
| "lease_do (RemoveExternal w ns i) s = snd (remove_external_function_if_owner w ns i s)"
| "lease_do (ReleaseName w ns name) s = release_worker_name_if_owner w ns name s"
| "lease_do (Join w) s = s\<lparr>workers := w # workers s\<rparr>"
| "lease_do (TearDown w) s = s\<lparr>tearing_down := w # tearing_down s\<rparr>"
| "lease_do (Depart w) s = s\<lparr>workers := filter (\<lambda>v. v \<noteq> w) (workers s)\<rparr>"

definition by_worker :: "lease_event \<Rightarrow> uuid option" where
  "by_worker ev =
     (case ev of
        Release w _ _ \<Rightarrow> Some w | ReleaseExternal w _ _ \<Rightarrow> Some w | RemoveExternal w _ _ \<Rightarrow> Some w
      | ReleaseName w _ _ \<Rightarrow> Some w | TearDown w \<Rightarrow> Some w | Depart w \<Rightarrow> Some w | _ \<Rightarrow> None)"

definition leases_wf :: "leases \<Rightarrow> bool" where
  "leases_wf s \<longleftrightarrow> map_sorted (function_owners s) \<and> map_sorted (worker_name_owners s) \<and>
     registry_sorted (lease_functions s)"

definition serving :: "uuid \<Rightarrow> leases \<Rightarrow> bool" where
  "serving w s \<longleftrightarrow> w \<in> set (workers s) \<and> w \<notin> set (tearing_down s)"

lemmas lease_defs = lease_kept_def claim_in_def claim_worker_name_def release_function_if_owner_def
  release_external_function_if_owner_def remove_external_function_if_owner_def
  release_worker_name_if_owner_def owner_of_def blocks_def

lemma leases_wf_do: "leases_wf s \<Longrightarrow> leases_wf (lease_do ev s)"
  by (cases ev) (auto simp: leases_wf_def lease_defs map_laws registry_sorted_def split: option.splits)

lemma serving_do: "serving w s \<Longrightarrow> by_worker ev \<noteq> Some w \<Longrightarrow> serving w (lease_do ev s)"
  by (cases ev) (auto simp: serving_def lease_defs by_worker_def split: option.splits)

lemma owner_do:
  assumes "leases_wf s" and "serving w s" and "owner_of ns i s = Some w" and "by_worker ev \<noteq> Some w"
  shows "owner_of ns i (lease_do ev s) = Some w"
  using assms
  by (cases ev) (auto simp: leases_wf_def serving_def by_worker_def lease_defs map_laws split: option.splits)

lemma name_do:
  assumes "leases_wf s" and "serving w s" and "map_of (worker_name_owners s) (ns, name) = Some w"
    and "by_worker ev \<noteq> Some w"
  shows "map_of (worker_name_owners (lease_do ev s)) (ns, name) = Some w"
  using assms
  by (cases ev) (auto simp: leases_wf_def serving_def by_worker_def lease_defs map_laws split: option.splits)

lemma function_do:
  assumes "leases_wf s" and "owner_of ns i s = Some w" and "by_worker ev \<noteq> Some w"
  shows "get_function ns i (lease_functions (lease_do ev s)) = get_function ns i (lease_functions s)"
  using assms
  by (cases ev) (auto simp: leases_wf_def by_worker_def lease_defs get_function_def with_function_def map_laws
    split: option.splits)

text \<open>C40: While a worker is connected and not being torn down, no claim of another worker and no
  cleanup of a former owner takes its leases away or removes the functions registered under them:
  over every sequence of claims, releases, arrivals and departures in which the worker itself neither
  releases nor leaves, it stays the owner of its functions and names, and its functions stay registered.\<close>

theorem leases_are_exclusive:
  assumes "leases_wf s" and "serving w s"
    and "list_all (\<lambda>ev. by_worker ev \<noteq> Some w) evs"
  shows "(owner_of ns i s = Some w \<longrightarrow>
      owner_of ns i (fold lease_do evs s) = Some w \<and>
      get_function ns i (lease_functions (fold lease_do evs s)) = get_function ns i (lease_functions s)) \<and>
    (map_of (worker_name_owners s) (ns, name) = Some w \<longrightarrow>
      map_of (worker_name_owners (fold lease_do evs s)) (ns, name) = Some w)"
  using assms
proof (induction evs arbitrary: s)
  case (Cons ev evs)
  then have ev: "by_worker ev \<noteq> Some w" by simp
  have "leases_wf (lease_do ev s)" "serving w (lease_do ev s)"
    using Cons.prems leases_wf_do serving_do ev by blast+
  then show ?case
    using Cons.IH [of "lease_do ev s"] Cons.prems owner_do [OF Cons.prems(1,2) _ ev] name_do [OF Cons.prems(1,2) _ ev]
      function_do [OF Cons.prems(1) _ ev] by simp
qed simp

definition leased :: leases where
  "leased =
     \<lparr>function_owners = [((''orders'', ''svc::get''), (1, Regular))], worker_name_owners = [((''orders'', ''svc''), 1)],
      workers = [1, 2], tearing_down = [], lease_functions = functions_new\<rparr>"

theorem leases_are_exclusive_witness:
  "owner_of ''orders'' ''svc::get''
     (fold lease_do [Claim 2 ''orders'' ''svc::get'' External, Release 2 ''orders'' ''svc::get'', Depart 2] leased) = Some 1"
  using leases_are_exclusive [of leased 1
      "[Claim 2 ''orders'' ''svc::get'' External, Release 2 ''orders'' ''svc::get'', Depart 2]" "''orders''" "''svc::get''"]
  by (simp add: leased_def leases_wf_def serving_def by_worker_def owner_of_def functions_new_def registry_sorted_def
      map_sorted_def)

end
