(* ===== verification/Spec2Isabelle.thy ===== *)
theory Spec2Isabelle
  imports Observer_Filter Kv_Persist Queue_Consumers Queue_Recovery Compose_Order Compose_Text
    Trigger_Safety Trigger_Order Access_Safety Connection_Namespace Leases
begin

text \<open>
  A verification development for iii, a backend engine to which workers connect and on which
  they register functions and triggers.  The engine keeps state for them (a key-value store,
  streams, queues), filters what observers see, and is started together with its workers by a
  compose tool.  Modelled are the parts of the Rust code that decide something by themselves:
  the filter language, the update operations, the key-value store, the queue, the registries of
  triggers and functions, access rules, the namespaces and leases of connections, and the graph and text rules of compose files.  Paths below are relative to \<open>src/\<close>.

  \<^bold>\<open>Conventions.\<close>  A Rust string is the list of its UTF-8 bytes.  \<open>u32\<close>, \<open>u64\<close> and \<open>i64\<close> are words;
  arithmetic is that of the release profile, and saturating and checked operations are defined
  in \<open>Prelude\<close>, operations on strings in \<open>Rust_Str\<close>.  A double is its bit pattern, and its comparison and the operations used on it
  are exact (\<open>Json\<close>).  \<open>Result\<close> is a sum with the error on the left.  A \<open>serde_json\<close> map is a
  sorted association list, an \<open>indexmap\<close> one in insertion order.  What the code does not
  determine is an argument: readings of the clock, fresh identifiers, the enumeration order of
  a hash set (\<open>ord\<close>, with the hypothesis \<open>enumerates ord\<close>), the outcome of a disk operation or of
  a handler, the environment, and the text and file formats of third-party crates.  A loop is a
  function with a termination proof; the one loop whose termination needs an invariant (\<open>topo_loop\<close>)
  is a partial function into option, and the theorem about it shows that it returns.

  \<^bold>\<open>The filter language\<close> (\<open>crates/iii-filter/src\<close>).  \<open>Filter_Path\<close> models \<open>path.rs\<close> and \<open>error.rs\<close>,
  \<open>Filter_Eval\<close> the compiled tree and its evaluation in \<open>eval.rs\<close>, \<open>Filter_Parse\<close> the mutually
  recursive parser of \<open>parse.rs\<close>, \<open>Observer_Filter\<close> the interface in \<open>lib.rs\<close>.  \<open>Filter_Limits\<close> shows
  what the two stack-driven checks decide, \<open>Filter_Normal\<close> that the normal form of a filter parses
  to itself, \<open>Filter_Semantics\<close> that the compiled tree computes the meaning of the filter as it is
  written, although clauses are flattened, sorted and dropped when their canonical texts agree.
  \<open>Observer_Filter\<close> states these for accepted filters, with the bounds on what is accepted and the
  parts of a document that can matter.

  \<^bold>\<open>Update operations\<close> (\<open>engine/src/update_ops.rs\<close>, theory \<open>Update_Ops\<close>).  The operations on a JSON
  value with their guards: the limits on paths, merge depth and size, the refusal of keys that
  pollute prototypes, and integer counters that fall back to doubles.  A batch is the accepted
  operations in order, a refused operation changes nothing, counters are exact, a merge touches
  what it names only.

  \<^bold>\<open>The key-value store\<close> (\<open>engine/src/builtins/kv.rs\<close>).  \<open>Kv_Store\<close> models the store, locks with
  their expiry, file names and configuration; \<open>Kv_Persist\<close> models writing and loading, with every
  disk operation free to fail, and the interleaving of calls with a running flush as the step
  relation \<open>process_step\<close>.  Shown are mutual exclusion of locks, the frame of every call, that files
  are current whenever nothing is marked or in flight, and what a restart restores.

  \<^bold>\<open>The queue\<close> (\<open>engine/src/builtins/queue_kv.rs\<close> and \<open>queue.rs\<close>).  \<open>Queue_Kv\<close> models the lists and
  sorted sets under the queue, \<open>Queue_Jobs\<close> names, jobs, their serialized form, back-off and
  configuration, \<open>Queue\<close> every operation of \<open>BuiltinQueue\<close>, \<open>Queue_Workers\<close> the retry loop and the
  three workers, \<open>Queue_Recovery\<close> rebuilding and migration.  \<open>Queue_Laws\<close> shows that the waiting list
  implements the interface \<open>fifo_queue\<close>; \<open>Queue_Steps\<close> has the step relation of a queue with the
  conservation of jobs and the invariant that every job has one place, and what refusing and
  delaying a job do; \<open>Queue_Dlq\<close> the laws of the dead-letter queue; \<open>Queue_Consumers\<close> the bounds on
  concurrency, the exclusion of groups, and that the single worker drains a queue.  An operation
  and the body of a poll are atomic in the model; the completion of a spawned task is a step of
  its own, and the retry loop of a grouped task takes effect when the task ends.

  \<^bold>\<open>The trigger registry\<close> (\<open>engine/src/trigger.rs\<close>).  \<open>Trigger_Store\<close> models the live bindings with
  their index by type, \<open>Trigger_Registry\<close> the sections that run under the lock \<open>park_transition\<close> and
  the lookups, \<open>Trigger_Tasks\<close> the asynchronous operations as tasks that interleave at every lock
  and await, with the answers of providers, time limits and cancellations as inputs.
  \<open>Trigger_Lifecycle\<close> is an abstract specification of what may happen to one binding;
  \<open>Trigger_Views\<close>, \<open>Trigger_Sections\<close> and \<open>Trigger_Steps\<close> show that every section and every step follows
  it.  \<open>Trigger_Safety\<close> draws the consequences: a binding rests in one place, a removed binding stays
  removed, no binding is lost; and it exhibits a race in which an intent that was replaced is given
  to a provider it does not resolve to.  \<open>Trigger_Order\<close> shows that operations that run one after the
  other, with providers that accept, end, and that every binding is then bound to the provider it
  resolves to, whatever the order in which bindings and providers came.  Tokens are words; the theorems hold as long as fewer than
  \<open>2 ^ 64\<close> of them were issued.

  \<^bold>\<open>Functions, access and connections\<close> (\<open>engine/src/function.rs\<close>, \<open>engine/mod.rs\<close>,
  \<open>workers/worker/rbac_config.rs\<close>, \<open>rbac_session.rs\<close>).  \<open>Function_Registry\<close> models the functions by
  namespace and how a call finds one.  \<open>Access_Wildcard\<close> models the wildcards of rules and proves the
  greedy search exact.  \<open>Access_Rules\<close> models rules, their written form, sessions and the decision;
  \<open>Access_Safety\<close> shows that a namespace is isolated from the others, what is decided, that rules are
  read back as written, and on which text the engine panics.  \<open>Connection_Namespace\<close> models the buffer
  of registrations that wait for the namespace of their connection, with the tasks that interleave on it: they are applied in
  order and in one namespace, a drain that is let run ends, and a late announcement can cut a drain
  off for good.  \<open>Leases\<close> models the claims on functions and worker names and shows them exclusive.

  \<^bold>\<open>Compose\<close> (\<open>crates/iii-compose/src\<close>).  \<open>Compose_Dag\<close> models \<open>dag.rs\<close>, \<open>Compose_Order\<close> proves
  validation exact, the start order topological, the waves and closures right; \<open>Compose_Text\<close> models
  \<open>interpolate.rs\<close>, \<open>namespace.rs\<close>, \<open>restart.rs\<close> and \<open>parallelism.rs\<close>, and shows that a text is
  expanded in one pass and that the blocks of other programs are carried unread.

  \<^bold>\<open>Interfaces.\<close>  \<open>key_map\<close> (\<open>Json\<close>) is the contract of a map, interpreted on the sorted and on the
  insertion-ordered maps, on the store of live bindings and on the registry of functions; \<open>step_invariant\<close> (\<open>Prelude\<close>) that of an invariant, interpreted on the
  persistence of the store, on two workers, on the trigger registry and on connections; \<open>key_lists\<close> (\<open>Queue_Kv\<close>) and \<open>fifo_queue\<close>
  (\<open>Queue_Laws\<close>) those of the lists and of the queue of jobs, interpreted on the operations of the
  code.

  \<^bold>\<open>Not modelled.\<close>  Timers, tracing and metrics; the websocket protocol, the registries of
  observers and workers; the schemas of trigger types; clients of external services; the drawing of a compose plan; processes, virtual machines, file systems and
  networks of the sandbox; the SDKs.
\<close>

end
